(* ===== verification/Prelude.thy ===== *)
theory Prelude
  imports Main "HOL-Library.Multiset"
begin

section \<open>Prelude: machine arithmetic, errors, generic lemmas\<close>

text \<open>
  What every component of the development shares: the proof collections, Go's 64-bit
  wrap-around, the rounding of an integer to the nearest \<open>float64\<close>, the errors the
  functions return, the outcomes a network round trip can have, and the lemmas on
  association lists and on SQL-like updates of a list of rows that the component theories
  use.
\<close>

named_theorems frame \<comment> \<open>what an operation leaves unchanged\<close>
named_theorems keys \<comment> \<open>the Redis key layout: injectivity and disjointness\<close>

subsection \<open>Errors and network outcomes\<close>

text \<open>
  A Go \<open>error\<close> value: the two sentinels the code tests with \<open>errors.Is\<close>
  (\<open>queue.ErrEmpty\<close>, \<open>store.ErrNotFound\<close>), the sentinel \<open>pgx.ErrNoRows\<close>, and
  any other error, which the code only prints.
\<close>

datatype err = ErrEmpty | ErrNotFound | ErrNoRows | Err string

text \<open>The text of an error, and \<open>fmt.Errorf\<close> with a text in front of it.\<close>

fun err_text :: "err \<Rightarrow> string" where
  "err_text ErrEmpty = ''queue empty''"
| "err_text ErrNotFound = ''not found''"
| "err_text ErrNoRows = ''no rows in result set''"
| "err_text (Err s) = s"

definition wrap_err :: "string \<Rightarrow> err \<Rightarrow> err" where
  "wrap_err pre e = Err (pre @ err_text e)"

text \<open>
  One round trip to a service: it takes some time, and either the request is executed and
  its reply arrives, or the request is lost before it is executed, or it is executed and the
  reply is lost. In the last two cases the client sees the given error.
\<close>

datatype outcome = Delivered | LostRequest string | LostReply string

record fault =
  latency :: nat \<comment> \<open>nanoseconds until the call returns\<close>
  outcome :: outcome

definition delivered :: "fault \<Rightarrow> bool" where
  "delivered f \<longleftrightarrow> outcome f = Delivered"

subsection \<open>Go integers\<close>

text \<open>Two's complement wrap-around of \<open>int\<close> and \<open>int64\<close> (both 64 bits wide).\<close>

definition wrap64 :: "int \<Rightarrow> int" where
  "wrap64 x = (x + 2 ^ 63) mod 2 ^ 64 - 2 ^ 63"

definition int64_range :: "int \<Rightarrow> bool" where
  "int64_range x \<longleftrightarrow> - (2 ^ 63) \<le> x \<and> x < 2 ^ 63"

lemma wrap64_range: "int64_range (wrap64 x)"
proof -
  have "0 \<le> (x + 2 ^ 63) mod 2 ^ 64" and "(x + 2 ^ 63) mod 2 ^ 64 < 2 ^ 64"
    by simp_all
  then show ?thesis by (simp add: wrap64_def int64_range_def)
qed

lemma wrap64_id: "int64_range x \<Longrightarrow> wrap64 x = x"
  by (simp add: wrap64_def int64_range_def)

text \<open>A column of SQL type \<open>INT\<close> holds 32-bit values; the driver refuses any other.\<close>

definition int4_range :: "int \<Rightarrow> bool" where
  "int4_range x \<longleftrightarrow> - (2 ^ 31) \<le> x \<and> x < 2 ^ 31"

subsection \<open>Integer-valued \<open>float64\<close>: round to nearest, ties to even\<close>

fun bitlen :: "nat \<Rightarrow> nat" where
  "bitlen n = (if n = 0 then 0 else Suc (bitlen (n div 2)))"

declare bitlen.simps [simp del]

lemma bitlen_0 [simp]: "bitlen 0 = 0"
  by (simp add: bitlen.simps)

lemma bitlen_pos: "0 < n \<Longrightarrow> bitlen n = Suc (bitlen (n div 2))"
  by (subst bitlen.simps) simp

lemma bitlen_upper: "n < 2 ^ bitlen n"
proof (induction n rule: bitlen.induct)
  case (1 n)
  show ?case
  proof (cases "n = 0")
    case False
    with 1 have "n div 2 < 2 ^ bitlen (n div 2)" by simp
    with False show ?thesis by (simp add: bitlen_pos)
  qed simp
qed

lemma bitlen_lower: "0 < n \<Longrightarrow> 2 ^ (bitlen n - 1) \<le> n"
proof (induction n rule: bitlen.induct)
  case (1 n)
  show ?case
  proof (cases "n div 2 = 0")
    case True
    with "1.prems" show ?thesis by (simp add: bitlen_pos)
  next
    case False
    with 1 have "2 ^ (bitlen (n div 2) - 1) \<le> n div 2" by simp
    moreover from False have "bitlen (n div 2) = Suc (bitlen (n div 2) - 1)"
      by (simp add: bitlen_pos)
    ultimately have "2 ^ bitlen (n div 2) \<le> 2 * (n div 2)"
      by (metis mult_le_mono2 power_Suc)
    also have "\<dots> \<le> n" by simp
    finally have "2 ^ bitlen (n div 2) \<le> n" .
    with "1.prems" show ?thesis by (simp add: bitlen_pos)
  qed
qed

lemma bitlen_mono: "m \<le> n \<Longrightarrow> bitlen m \<le> bitlen n"
proof (induction m arbitrary: n rule: bitlen.induct)
  case (1 m)
  show ?case
  proof (cases "m = 0")
    case False
    with "1.prems" have "0 < n" by simp
    have "bitlen (m div 2) \<le> bitlen (n div 2)"
      using 1 False by (simp add: div_le_mono)
    with False \<open>0 < n\<close> show ?thesis by (simp add: bitlen_pos)
  qed simp
qed

text \<open>The 53 leading bits of \<open>n\<close>, rounded to nearest with ties to even.\<close>

definition f64_nat :: "nat \<Rightarrow> nat" where
  "f64_nat n =
     (let e = bitlen n - 53; q = n div 2 ^ e; r = n mod 2 ^ e
      in (if 2 ^ e < 2 * r \<or> (2 ^ e = 2 * r \<and> odd q) then q + 1 else q) * 2 ^ e)"

text \<open>Go's conversion \<open>float64(x)\<close> of an integer, read back as an integer.\<close>

definition f64 :: "int \<Rightarrow> int" where
  "f64 x = sgn x * int (f64_nat (nat \<bar>x\<bar>))"

lemma bitlen_le: "n < 2 ^ k \<Longrightarrow> bitlen n \<le> k"
proof (rule ccontr)
  assume "n < 2 ^ k" and "\<not> bitlen n \<le> k"
  then have "0 < n" and "k \<le> bitlen n - 1" by (auto intro: gr0I)
  then have "(2::nat) ^ k \<le> 2 ^ (bitlen n - 1)" by simp
  with bitlen_lower [OF \<open>0 < n\<close>] have "2 ^ k \<le> n" by (rule le_trans [rotated])
  with \<open>n < 2 ^ k\<close> show False by simp
qed

lemma bitlen_shift: "0 < m \<Longrightarrow> bitlen (m * 2 ^ k) = bitlen m + k"
  by (induction k) (simp_all add: bitlen_pos ac_simps)

lemma f64_nat_dvd: "2 ^ (bitlen n - 53) dvd n \<Longrightarrow> f64_nat n = n"
  by (simp add: f64_nat_def Let_def)

lemma f64_nat_fix: "m < 2 ^ 53 \<Longrightarrow> f64_nat (m * 2 ^ k) = m * 2 ^ k"
proof (cases "m = 0")
  case False
  assume "m < 2 ^ 53"
  then have "bitlen m \<le> 53" by (rule bitlen_le)
  with False have "bitlen (m * 2 ^ k) - 53 \<le> k" by (simp add: bitlen_shift)
  then have "2 ^ (bitlen (m * 2 ^ k) - 53) dvd m * 2 ^ k"
    by (simp add: le_imp_power_dvd)
  then show ?thesis by (rule f64_nat_dvd)
qed (simp add: f64_nat_def)

lemma f64_nat_small: "n < 2 ^ 53 \<Longrightarrow> f64_nat n = n"
  using f64_nat_fix [of n 0] by simp

text \<open>Every value of the rounding is a 53-bit number times a power of two.\<close>

lemma f64_nat_repr: "\<exists>m k. f64_nat n = m * 2 ^ k \<and> m < 2 ^ 53"
proof -
  define e where "e = bitlen n - 53"
  define q where "q = n div 2 ^ e"
  have "n < 2 ^ (53 + e)"
    by (rule less_le_trans [OF bitlen_upper]) (simp add: e_def)
  then have q: "q < 2 ^ 53"
    by (simp add: q_def less_mult_imp_div_less power_add)
  have "f64_nat n = q * 2 ^ e \<or> f64_nat n = (q + 1) * 2 ^ e"
    by (simp add: f64_nat_def Let_def e_def q_def)
  moreover have "\<exists>m k. (q + 1) * 2 ^ e = m * 2 ^ k \<and> m < 2 ^ 53"
  proof (cases "q + 1 < 2 ^ 53")
    case True
    then show ?thesis by blast
  next
    case False
    with q have "q + 1 = 2 ^ 53" by simp
    then have "(q + 1) * 2 ^ e = 1 * 2 ^ (53 + e)" by (simp add: power_add)
    then show ?thesis by (intro exI [of _ 1] exI [of _ "53 + e"]) simp
  qed
  ultimately show ?thesis using q by metis
qed

lemma f64_nat_idem: "f64_nat (f64_nat n) = f64_nat n"
  using f64_nat_repr [of n] f64_nat_fix by metis

lemma f64_nat_scale: "f64_nat n = n \<Longrightarrow> f64_nat (n * 2 ^ k) = n * 2 ^ k"
proof -
  assume "f64_nat n = n"
  with f64_nat_repr [of n] obtain m j where "n = m * 2 ^ j" "m < 2 ^ 53" by auto
  then show ?thesis
    using f64_nat_fix [of m "j + k"] by (simp add: power_add mult.assoc)
qed

lemma f64_nat_bounds:
  "f64_nat n \<le> 2 ^ bitlen n" "0 < n \<Longrightarrow> 2 ^ (bitlen n - 1) \<le> f64_nat n"
proof -
  consider (small) "bitlen n \<le> 53" | (big) "53 < bitlen n" by linarith
  then have *: "f64_nat n \<le> 2 ^ bitlen n \<and> (0 < n \<longrightarrow> 2 ^ (bitlen n - 1) \<le> f64_nat n)"
  proof cases
    case small
    then have "f64_nat n = n" by (intro f64_nat_dvd) simp
    then show ?thesis using bitlen_upper [of n] bitlen_lower [of n] by simp
  next
    case big
    define e where "e = bitlen n - 53"
    define q where "q = n div 2 ^ e"
    have "0 < n" using big by (cases n) auto
    have len: "bitlen n = 53 + e" "bitlen n - 1 = 52 + e" using big by (simp_all add: e_def)
    from bitlen_upper [of n] have "q < 2 ^ 53"
      by (simp add: q_def len less_mult_imp_div_less power_add)
    then have up: "(q + 1) * 2 ^ e \<le> 2 ^ bitlen n" by (simp add: len power_add)
    from bitlen_lower [OF \<open>0 < n\<close>] have "2 ^ 52 * 2 ^ e \<le> n" by (simp add: len power_add)
    then have "2 ^ 52 \<le> q" by (simp add: q_def less_eq_div_iff_mult_less_eq)
    then have low: "2 ^ (bitlen n - 1) \<le> q * 2 ^ e" by (simp add: len power_add)
    have "f64_nat n = q * 2 ^ e \<or> f64_nat n = (q + 1) * 2 ^ e"
      by (simp add: f64_nat_def Let_def e_def q_def)
    with up low show ?thesis by auto
  qed
  then show "f64_nat n \<le> 2 ^ bitlen n" "0 < n \<Longrightarrow> 2 ^ (bitlen n - 1) \<le> f64_nat n"
    by simp_all
qed

lemma f64_nat_mono: "m \<le> n \<Longrightarrow> f64_nat m \<le> f64_nat n"
proof (cases "bitlen m = bitlen n")
  case True
  assume "m \<le> n"
  define e where "e = bitlen n - 53"
  define q r where "q = m div 2 ^ e" and "r = m mod 2 ^ e"
  define q' r' where "q' = n div 2 ^ e" and "r' = n mod 2 ^ e"
  have m: "m = q * 2 ^ e + r" and n: "n = q' * 2 ^ e + r'"
    unfolding q_def r_def q'_def r'_def by (simp_all only: div_mult_mod_eq)
  have "q \<le> q'" using \<open>m \<le> n\<close> by (simp add: q_def q'_def div_le_mono)
  moreover have "q = q' \<Longrightarrow> r \<le> r'" using \<open>m \<le> n\<close> m n by simp
  ultimately show ?thesis
    unfolding f64_nat_def Let_def True e_def [symmetric]
      q_def [symmetric] r_def [symmetric] q'_def [symmetric] r'_def [symmetric]
    by (intro mult_right_mono) (auto simp: le_eq_less_or_eq)
next
  case False
  assume "m \<le> n"
  with False bitlen_mono [of m n] have lt: "bitlen m \<le> bitlen n - 1" and "0 < n"
    by (cases n; simp)+
  have "f64_nat m \<le> 2 ^ bitlen m" by (rule f64_nat_bounds)
  also have "\<dots> \<le> 2 ^ (bitlen n - 1)" using lt by simp
  also have "\<dots> \<le> f64_nat n" using \<open>0 < n\<close> by (rule f64_nat_bounds)
  finally show ?thesis .
qed

lemma f64_small: "\<bar>x\<bar> < 2 ^ 53 \<Longrightarrow> f64 x = x"
  by (simp add: f64_def f64_nat_small nat_less_iff mult.commute sgn_mult_abs abs_mult_sgn)

lemma f64_nonneg: "0 \<le> x \<Longrightarrow> f64 x = int (f64_nat (nat x))"
  by (cases "x = 0") (simp_all add: f64_def f64_nat_small)

lemma f64_mono: "x \<le> y \<Longrightarrow> f64 x \<le> f64 y"
proof -
  assume le: "x \<le> y"
  consider "0 \<le> x" | "x < 0" "0 \<le> y" | "y < 0" using le by linarith
  then show ?thesis
  proof cases
    case 1
    with le show ?thesis by (simp add: f64_nonneg f64_nat_mono nat_mono)
  next
    case 2
    then show ?thesis by (simp add: f64_nonneg) (simp add: f64_def)
  next
    case 3
    with le show ?thesis by (simp add: f64_def f64_nat_mono)
  qed
qed

lemma f64_idem: "0 \<le> x \<Longrightarrow> f64 (f64 x) = f64 x"
  by (simp add: f64_nonneg f64_nat_idem)

subsection \<open>Values as text\<close>

text \<open>
  The contract between a printer and a parser: what the printer writes for an admissible value the
  parser reads back, and an empty text is no value. A variable that holds a printed value is
  then read as that value, whatever the default.
\<close>

definition read_or :: "(string \<Rightarrow> 'a option) \<Rightarrow> 'a \<Rightarrow> string option \<Rightarrow> 'a" where
  "read_or rd dflt vo =
     (case vo of
        Some v \<Rightarrow> if v \<noteq> '''' then (case rd v of Some x \<Rightarrow> x | None \<Rightarrow> dflt) else dflt
      | None \<Rightarrow> dflt)"

locale text_form =
  fixes pr :: "'a \<Rightarrow> string" and rd :: "string \<Rightarrow> 'a option" and ok :: "'a \<Rightarrow> bool"
  assumes read_print: "ok x \<Longrightarrow> rd (pr x) = Some x"
    and read_empty: "rd [] = None"
begin

lemma print_nonempty: "ok x \<Longrightarrow> pr x \<noteq> []"
proof
  assume "ok x" and "pr x = []"
  with read_print [of x] have "rd [] = Some x" by simp
  then show False by (simp add: read_empty)
qed

lemma print_inj: "ok x \<Longrightarrow> ok y \<Longrightarrow> pr x = pr y \<Longrightarrow> x = y"
  by (metis read_print option.inject)

lemma read_or_printed: "ok x \<Longrightarrow> read_or rd dflt (Some (pr x)) = x"
  using print_nonempty [of x] by (simp add: read_or_def read_print)

end

subsection \<open>Lists\<close>

lemma set_map_filter: "set (List.map_filter f xs) = {y. \<exists>x\<in>set xs. f x = Some y}"
  by (auto simp: map_filter_def image_iff) (metis option.sel option.simps(3))

end
