(* ===== verification/Decimal.thy ===== *)
theory Decimal
  imports Prelude
begin

section \<open>Decimal digits\<close>

text \<open>
  The digits of Go's \<open>strconv\<close> and \<open>fmt\<close>: printing a number, reading one, and that
  reading inverts printing.
\<close>

definition is_digit :: "char \<Rightarrow> bool" where
  "is_digit c \<longleftrightarrow> 48 \<le> (of_char c :: nat) \<and> (of_char c :: nat) \<le> 57"

definition read_nat :: "string \<Rightarrow> nat" where
  "read_nat s = foldl (\<lambda>n c. 10 * n + (of_char c - 48)) 0 s"

definition digit_val :: "char \<Rightarrow> int option" where
  "digit_val c =
     (let n = of_char c :: int in if 48 \<le> n \<and> n \<le> 57 then Some (n - 48) else None)"

fun digits_val :: "int \<Rightarrow> string \<Rightarrow> int option" where
  "digits_val n [] = Some n"
| "digits_val n (c # s) = (case digit_val c of None \<Rightarrow> None | Some d \<Rightarrow> digits_val (n * 10 + d) s)"

text \<open>Decimal notation, as \<open>strconv\<close> and \<open>fmt\<close> print an integer.\<close>

fun show_nat :: "nat \<Rightarrow> string" where
  "show_nat n = (if n < 10 then [char_of (48 + n)] else show_nat (n div 10) @ [char_of (48 + n mod 10)])"

declare show_nat.simps [simp del]

definition show_int :: "int \<Rightarrow> string" where
  "show_int x = (if x < 0 then CHR ''-'' # show_nat (nat (- x)) else show_nat (nat x))"

subsection \<open>Printing and reading\<close>

lemma show_nat_snoc: "10 \<le> n \<Longrightarrow> show_nat n = show_nat (n div 10) @ [char_of (48 + n mod 10)]"
  by (subst show_nat.simps) simp

lemma show_nat_digit: "n < 10 \<Longrightarrow> show_nat n = [char_of (48 + n)]"
  by (subst show_nat.simps) simp

lemma digit_char: "n < 10 \<Longrightarrow> of_char (char_of (48 + n)) = (48 + n :: nat)"
  by simp

lemma read_show_nat: "read_nat (show_nat n) = n"
proof (induction n rule: show_nat.induct)
  case (1 n)
  show ?case
  proof (cases "n < 10")
    case True
    then show ?thesis by (simp add: show_nat_digit read_nat_def)
  next
    case False
    with 1 show ?thesis by (simp add: show_nat_snoc read_nat_def)
  qed
qed

lemma digits_show_nat: "list_all is_digit (show_nat n)"
proof (induction n rule: show_nat.induct)
  case (1 n)
  show ?case
    using 1 by (cases "n < 10") (simp_all add: show_nat_digit show_nat_snoc is_digit_def)
qed

lemma show_nat_nonempty [simp]: "show_nat n \<noteq> []"
  by (subst show_nat.simps) simp

text \<open>No leading zero, except for zero itself.\<close>

lemma hd_show_nat: "0 < n \<Longrightarrow> hd (show_nat n) \<noteq> CHR ''0''"
proof (induction n rule: show_nat.induct)
  case (1 n)
  show ?case
  proof (cases "n < 10")
    case True
    have "char_of (48 + n) \<noteq> CHR ''0''"
    proof
      assume "char_of (48 + n) = CHR ''0''"
      then have "of_char (char_of (48 + n)) = (of_char CHR ''0'' :: nat)" by (rule arg_cong)
      with True "1.prems" show False by (simp only: digit_char) simp
    qed
    with True show ?thesis by (simp add: show_nat_digit)
  next
    case False
    with "1.IH" show ?thesis by (simp add: show_nat_snoc)
  qed
qed

lemma digit_val_is_digit: "digit_val c = (if is_digit c then Some (of_char c - 48) else None)"
proof -
  have "(48 \<le> (of_char c :: int) \<and> (of_char c :: int) \<le> 57) = is_digit c"
    unfolding is_digit_def by (metis of_nat_le_iff of_nat_numeral of_nat_of_char)
  then show ?thesis by (simp add: digit_val_def Let_def)
qed

subsection \<open>The value of a sequence of digits\<close>

text \<open>Going on from \<open>n\<close>, as the loops that read digits do.\<close>

definition decimal :: "nat \<Rightarrow> string \<Rightarrow> nat" where
  "decimal n s = foldl (\<lambda>n c. 10 * n + (of_char c - 48)) n s"

lemma decimal_simps [simp]:
  "decimal n [] = n" "decimal n (c # s) = decimal (10 * n + (of_char c - 48)) s"
  by (simp_all add: decimal_def)

lemma decimal_append: "decimal n (s @ t) = decimal (decimal n s) t"
  by (simp add: decimal_def)

lemma decimal_shift: "decimal n s = n * 10 ^ length s + decimal 0 s"
proof (induction s arbitrary: n)
  case (Cons c s)
  from Cons [of "10 * n + (of_char c - 48)"] Cons [of "of_char c - 48"] show ?case by (simp add: algebra_simps)
qed simp

lemma decimal_ge: "n \<le> decimal n s"
  by (subst decimal_shift) (simp add: trans_le_add1)

lemma decimal_less: "list_all is_digit s \<Longrightarrow> decimal 0 s < 10 ^ length s"
proof (induction s)
  case (Cons c s)
  then have "(of_char c :: nat) \<le> 57" by (simp add: is_digit_def)
  then have "of_char c - 48 \<le> (9 :: nat)" by simp
  then have "(of_char c - 48) * 10 ^ length s \<le> (9 * 10 ^ length s :: nat)" by (rule mult_right_mono) simp
  moreover have "decimal 0 s < 10 ^ length s" using Cons by simp
  ultimately have "(of_char c - 48) * 10 ^ length s + decimal 0 s < 9 * 10 ^ length s + 10 ^ length s"
    by (rule add_le_less_mono)
  with decimal_shift [of "of_char c - 48" s] show ?case by simp
qed simp

lemma decimal_lower:
  assumes "list_all is_digit s" and "s \<noteq> []" and "hd s \<noteq> CHR ''0''"
  shows "10 ^ (length s - 1) \<le> decimal 0 s"
proof -
  obtain c t where s: "s = c # t" using assms(2) by (cases s) auto
  have "(of_char c :: nat) \<noteq> 48"
  proof
    assume "(of_char c :: nat) = 48"
    then have "(of_char c :: nat) = of_char (CHR ''0'')" by simp
    then have "c = CHR ''0''" by (simp only: of_char_eq_iff)
    with assms(3) show False by (simp add: s)
  qed
  moreover have "(48 :: nat) \<le> of_char c" using assms(1) by (simp add: s is_digit_def)
  ultimately have "1 \<le> (of_char c - 48 :: nat)" by simp
  then have "1 * 10 ^ length t \<le> ((of_char c - 48) * 10 ^ length t :: nat)" by (rule mult_right_mono) simp
  also have "\<dots> \<le> decimal (of_char c - 48) t" by (subst decimal_shift) simp
  finally show ?thesis by (simp add: s)
qed

lemma decimal_show_nat: "decimal 0 (show_nat n) = n"
  using read_show_nat [of n] by (simp add: read_nat_def decimal_def)

lemma length_show_nat: "n < 10 ^ length (show_nat n)" "0 < n \<Longrightarrow> 10 ^ (length (show_nat n) - 1) \<le> n"
  using decimal_less [OF digits_show_nat, of n] decimal_lower [OF digits_show_nat, of n] hd_show_nat [of n]
  by (simp_all add: decimal_show_nat)

lemma decimal_replicate0 [simp]: "decimal n (replicate k (CHR ''0'')) = n * 10 ^ k"
  by (induction k arbitrary: n) (simp_all add: algebra_simps)

lemma is_digit_mod [simp]: "is_digit (char_of (48 + n mod 10 :: nat))"
  by (simp add: is_digit_def)

lemma digit_val_decimal: "is_digit c \<Longrightarrow> digit_val c = Some (int (of_char c - 48))"
  by (simp add: digit_val_is_digit is_digit_def of_nat_diff of_nat_of_char)

end
