(* ===== verification/Task.thy ===== *)
theory Task
  imports Decimal "HOL-Library.Word" "HOL-Library.AList"
begin

section \<open>The task model (internal/task/task.go)\<close>

text \<open>
  The status constants, the records \<open>Task\<close> and \<open>Event\<close>, and the handler registry.
  Times are nanoseconds since the Unix epoch. A UUID is its 16 bytes. A \<open>json.RawMessage\<close>
  is the string of its bytes; the empty string stands for an absent one, which the code tests
  with \<open>len(...) == 0\<close>.
\<close>

type_synonym uuid = "128 word"
type_synonym time = int

text \<open>\<open>uuid.Nil\<close>, the zero UUID.\<close>

abbreviation uuid_Nil :: uuid where
  "uuid_Nil \<equiv> 0"

text \<open>Go's zero \<open>time.Time\<close>: the first of January of the year 1, UTC.\<close>

definition zero_time :: time where
  "zero_time = - 62135596800000000000"

definition UnixMilli :: "time \<Rightarrow> int" where
  "UnixMilli t = t div 1000000"

definition StatusQueued :: string where "StatusQueued = ''queued''"
definition StatusRunning :: string where "StatusRunning = ''running''"
definition StatusSucceeded :: string where "StatusSucceeded = ''succeeded''"
definition StatusFailed :: string where "StatusFailed = ''failed''"
definition StatusRetrying :: string where "StatusRetrying = ''retrying''"
definition StatusDead :: string where "StatusDead = ''dead''"
definition StatusCanceled :: string where "StatusCanceled = ''canceled''"

lemmas status_defs = StatusQueued_def StatusRunning_def StatusSucceeded_def StatusFailed_def
  StatusRetrying_def StatusDead_def StatusCanceled_def

record task =
  ID :: uuid
  Type :: string
  Payload :: string
  Priority :: int
  Status :: string
  Attempts :: int
  MaxAttempts :: int
  AvailableAt :: time
  StartedAt :: "time option"
  FinishedAt :: "time option"
  WorkerID :: "string option"
  Result :: string
  LastError :: string
  CreatedAt :: time
  UpdatedAt :: time

text \<open>The zero value of the struct, which the composite literals of the code start from.\<close>

definition zero_task :: task where
  "zero_task = \<lparr>ID = uuid_Nil, Type = '''', Payload = '''', Priority = 0, Status = '''',
     Attempts = 0, MaxAttempts = 0, AvailableAt = zero_time, StartedAt = None,
     FinishedAt = None, WorkerID = None, Result = '''', LastError = '''',
     CreatedAt = zero_time, UpdatedAt = zero_time\<rparr>"

record event =
  TaskID :: uuid
  EvType :: string
  EvStatus :: string
  EvWorkerID :: string
  Message :: string
  Timestamp :: time

subsection \<open>Handlers and their registry\<close>

text \<open>
  A handler gets a task and returns either the text of its error or its result. The Go map
  of the registry is an association list; the order in which Go ranges over a map is not
  specified, so \<open>Types\<close> takes it as an argument.
\<close>

type_synonym handler = "task \<Rightarrow> string + string"

record registry =
  handlers :: "(string \<times> handler) list"

definition NewRegistry :: registry where
  "NewRegistry = \<lparr>handlers = []\<rparr>"

definition Register :: "string \<Rightarrow> handler \<Rightarrow> registry \<Rightarrow> registry" where
  "Register taskType h r = r\<lparr>handlers := AList.update taskType h (handlers r)\<rparr>"

definition Lookup :: "registry \<Rightarrow> string \<Rightarrow> handler option" where
  "Lookup r taskType = map_of (handlers r) taskType"

definition Types :: "(string list \<Rightarrow> string list) \<Rightarrow> registry \<Rightarrow> string list" where
  "Types ranging r = ranging (map fst (handlers r))"

inductive registry_built :: "registry \<Rightarrow> bool" where
  new: "registry_built NewRegistry"
| register: "registry_built r \<Longrightarrow> registry_built (Register typ h r)"

lemma registry_built_distinct: "registry_built r \<Longrightarrow> distinct (map fst (handlers r))"
  by (induction rule: registry_built.induct)
    (simp_all add: NewRegistry_def Register_def distinct_update)

lemma Lookup_Register:
  "Lookup (Register typ h r) t = (if t = typ then Some h else Lookup r t)"
  by (simp add: Lookup_def Register_def update_conv')

lemma Types_Lookup:
  assumes "mset (ranging (map fst (handlers r))) = mset (map fst (handlers r))"
  shows "t \<in> set (Types ranging r) \<longleftrightarrow> Lookup r t \<noteq> None"
proof -
  have "set (ranging (map fst (handlers r))) = set (map fst (handlers r))"
    using assms by (rule mset_eq_setD)
  then show ?thesis by (simp add: Types_def Lookup_def map_of_eq_None_iff)
qed

end
