(* ===== verification/Redis.thy ===== *)
theory Redis
  imports Prelude "HOL-Library.Product_Lexorder" "HOL-Library.List_Lexorder"
    "HOL-Library.Char_ord" "HOL-Library.Sublist" "HOL-Library.AList"
begin

section \<open>The Redis server as an interface\<close>

text \<open>
  Redis is a service outside the repository. The commands the code sends are the fields of a
  record of functions on an abstract server state, and every definition that talks to Redis
  takes this record as an argument. \<open>SET\<close> and \<open>EXISTS\<close> get the server's clock in
  milliseconds first; the TTL of \<open>SET\<close> is the client's duration in nanoseconds. The field \<open>view\<close> is an observation, not a command: it
  reads the keyspace of a server state as plain maps, so that the documented effect of a
  command is one equation on the view. The locale \<open>redis_server\<close> collects these equations,
  for keys of the family that the command is used with. A server written with association
  lists, \<open>ref_redis\<close>, satisfies them.
\<close>

text \<open>A string key holds a value and, with a TTL, the time in milliseconds at which it ends.\<close>

record keyspace =
  zset :: "string \<Rightarrow> (string \<rightharpoonup> int)"
  hash :: "string \<Rightarrow> (string \<rightharpoonup> string)"
  rlist :: "string \<Rightarrow> string list"
  strs :: "string \<rightharpoonup> string \<times> int option"
  pubs :: "(string \<times> string) list"

record 'r redis =
  view :: "'r \<Rightarrow> keyspace"
  ZADD :: "string \<Rightarrow> int \<Rightarrow> string \<Rightarrow> 'r \<Rightarrow> 'r"
  ZREM :: "string \<Rightarrow> string \<Rightarrow> 'r \<Rightarrow> 'r"
  ZPOPMIN :: "string \<Rightarrow> 'r \<Rightarrow> (string \<times> int) option \<times> 'r"
  ZRANGEBYSCORE :: "string \<Rightarrow> int \<Rightarrow> nat \<Rightarrow> nat \<Rightarrow> 'r \<Rightarrow> string list"
  ZCARD :: "string \<Rightarrow> 'r \<Rightarrow> int"
  HSET :: "string \<Rightarrow> string \<Rightarrow> string \<Rightarrow> 'r \<Rightarrow> 'r"
  HDEL :: "string \<Rightarrow> string \<Rightarrow> 'r \<Rightarrow> 'r"
  HGETALL :: "string \<Rightarrow> 'r \<Rightarrow> (string \<times> string) list"
  DEL :: "string \<Rightarrow> 'r \<Rightarrow> 'r"
  RPUSH :: "string \<Rightarrow> string \<Rightarrow> 'r \<Rightarrow> 'r"
  LLEN :: "string \<Rightarrow> 'r \<Rightarrow> int"
  SET :: "int \<Rightarrow> string \<Rightarrow> string \<Rightarrow> int \<Rightarrow> 'r \<Rightarrow> 'r"
  EXISTS :: "int \<Rightarrow> string \<Rightarrow> 'r \<Rightarrow> int"
  SCAN :: "nat \<Rightarrow> string \<Rightarrow> nat \<Rightarrow> 'r \<Rightarrow> string list \<times> nat"
  PUBLISH :: "string \<Rightarrow> string \<Rightarrow> 'r \<Rightarrow> 'r"

subsection \<open>Key families\<close>

definition zkey :: "string \<Rightarrow> bool" where
  "zkey k \<longleftrightarrow> prefix ''queue:'' k \<or> prefix ''delayed:'' k"

definition hkey :: "string \<Rightarrow> bool" where
  "hkey k \<longleftrightarrow> prefix ''inflight:'' k"

definition lkey :: "string \<Rightarrow> bool" where
  "lkey k \<longleftrightarrow> prefix ''dlq:'' k"

definition skey :: "string \<Rightarrow> bool" where
  "skey k \<longleftrightarrow> prefix ''hb:'' k"

text \<open>A string key is alive until its deadline.\<close>

definition key_alive :: "int \<Rightarrow> (string \<times> int option) option \<Rightarrow> bool" where
  "key_alive now v =
     (case v of None \<Rightarrow> False | Some (_, None) \<Rightarrow> True | Some (_, Some t) \<Rightarrow> now < t)"

text \<open>The iteration a client makes with \<open>SCAN\<close>: follow the cursor until it is 0 again.\<close>

fun scan_pages :: "'r redis \<Rightarrow> string \<Rightarrow> nat \<Rightarrow> nat \<Rightarrow> nat \<Rightarrow> 'r \<Rightarrow> string list option" where
  "scan_pages R pat cnt 0 c r = None"
| "scan_pages R pat cnt (Suc n) c r =
     (case SCAN R c pat cnt r of (ks, c') \<Rightarrow>
        if c' = 0 then Some ks else map_option (append ks) (scan_pages R pat cnt n c' r))"

subsection \<open>What the commands are documented to do\<close>

locale redis_server =
  fixes R :: "'r redis"
  assumes view_ZADD: "zkey k \<Longrightarrow> view R (ZADD R k s m r) =
      (view R r)\<lparr>zset := (zset (view R r))(k := (zset (view R r) k)(m \<mapsto> s))\<rparr>"
    and view_ZREM: "zkey k \<Longrightarrow> view R (ZREM R k m r) =
      (view R r)\<lparr>zset := (zset (view R r))(k := (zset (view R r) k)(m := None))\<rparr>"
    and finite_zset: "finite (dom (zset (view R r) k))"
    and ZPOPMIN_empty: "zkey k \<Longrightarrow> zset (view R r) k = Map.empty \<Longrightarrow>
      fst (ZPOPMIN R k r) = None \<and> view R (snd (ZPOPMIN R k r)) = view R r"
    and ZPOPMIN_min: "zkey k \<Longrightarrow> zset (view R r) k \<noteq> Map.empty \<Longrightarrow>
      \<exists>m s. fst (ZPOPMIN R k r) = Some (m, s) \<and> zset (view R r) k m = Some s \<and>
        (\<forall>m' s'. zset (view R r) k m' = Some s' \<longrightarrow> (s, m) \<le> (s', m')) \<and>
        view R (snd (ZPOPMIN R k r)) =
          (view R r)\<lparr>zset := (zset (view R r))(k := (zset (view R r) k)(m := None))\<rparr>"
    and ZRANGEBYSCORE_range: "zkey k \<Longrightarrow>
      \<exists>xs. distinct xs \<and> set xs = {m. \<exists>s\<le>mx. zset (view R r) k m = Some s} \<and>
        sorted (map (\<lambda>m. (the (zset (view R r) k m), m)) xs) \<and>
        ZRANGEBYSCORE R k mx off cnt r = take cnt (drop off xs)"
    and ZCARD_card: "zkey k \<Longrightarrow> ZCARD R k r = int (card (dom (zset (view R r) k)))"
    and view_HSET: "hkey k \<Longrightarrow> view R (HSET R k f v r) =
      (view R r)\<lparr>hash := (hash (view R r))(k := (hash (view R r) k)(f \<mapsto> v))\<rparr>"
    and view_HDEL: "hkey k \<Longrightarrow> view R (HDEL R k f r) =
      (view R r)\<lparr>hash := (hash (view R r))(k := (hash (view R r) k)(f := None))\<rparr>"
    and HGETALL_map: "hkey k \<Longrightarrow> distinct (map fst (HGETALL R k r)) \<and>
      map_of (HGETALL R k r) = hash (view R r) k"
    and view_DEL: "hkey k \<Longrightarrow> view R (DEL R k r) =
      (view R r)\<lparr>hash := (hash (view R r))(k := Map.empty)\<rparr>"
    and view_RPUSH: "lkey k \<Longrightarrow> view R (RPUSH R k v r) =
      (view R r)\<lparr>rlist := (rlist (view R r))(k := rlist (view R r) k @ [v])\<rparr>"
    and LLEN_length: "lkey k \<Longrightarrow> LLEN R k r = int (length (rlist (view R r) k))"
    and view_SET_strs: "skey k \<Longrightarrow> view R (SET R now k v ttl r) =
      (view R r)\<lparr>strs := strs (view R (SET R now k v ttl r))\<rparr>"
    and view_SET: "skey k \<Longrightarrow> 1000000 \<le> ttl \<Longrightarrow> view R (SET R now k v ttl r) =
      (view R r)\<lparr>strs := (strs (view R r))(k \<mapsto> (v, Some (now + ttl div 1000000)))\<rparr>"
    and EXISTS_alive: "skey k \<Longrightarrow>
      EXISTS R now k r = (if key_alive now (strs (view R r) k) then 1 else 0)"
    and SCAN_complete: "p \<in> {''queue:'', ''delayed:''} \<Longrightarrow> 0 < cnt \<Longrightarrow>
      \<exists>n ks. scan_pages R (p @ ''*'') cnt n 0 r = Some ks \<and>
        set ks = {k. prefix p k \<and> zset (view R r) k \<noteq> Map.empty}"
    and view_PUBLISH: "view R (PUBLISH R ch msg r) =
      (view R r)\<lparr>pubs := pubs (view R r) @ [(ch, msg)]\<rparr>"

subsection \<open>A server built from association lists\<close>

record ref_redis =
  rz :: "(string \<times> (string \<times> int) list) list"
  rh :: "(string \<times> (string \<times> string) list) list"
  rl :: "(string \<times> string list) list"
  rs :: "(string \<times> (string \<times> int option)) list"
  rp :: "(string \<times> string) list"

definition ref_empty :: ref_redis where
  "ref_empty = \<lparr>rz = [], rh = [], rl = [], rs = [], rp = []\<rparr>"

definition at_key :: "('k \<times> 'v list) list \<Rightarrow> 'k \<Rightarrow> 'v list" where
  "at_key m k = (case map_of m k of None \<Rightarrow> [] | Some xs \<Rightarrow> xs)"

text \<open>The members of a sorted set in the order of score and member.\<close>

definition zsorted :: "(string \<times> int) list \<Rightarrow> (string \<times> int) list" where
  "zsorted z = sort_key (\<lambda>(m, s). (s, m)) (AList.clearjunk z)"

definition ref_ZPOPMIN :: "string \<Rightarrow> ref_redis \<Rightarrow> (string \<times> int) option \<times> ref_redis" where
  "ref_ZPOPMIN k r =
     (case zsorted (at_key (rz r) k) of
        [] \<Rightarrow> (None, r)
      | (m, s) # _ \<Rightarrow>
          (Some (m, s), r\<lparr>rz := AList.update k (AList.delete m (at_key (rz r) k)) (rz r)\<rparr>))"

definition ref_SCAN :: "nat \<Rightarrow> string \<Rightarrow> nat \<Rightarrow> ref_redis \<Rightarrow> string list \<times> nat" where
  "ref_SCAN c pat cnt r =
     (let ks = filter (\<lambda>k. prefix (butlast pat) k \<and> at_key (rz r) k \<noteq> []) (remdups (map fst (rz r)))
      in (take cnt (drop c ks), if c + cnt < length ks then c + cnt else 0))"

definition ref_redis :: "ref_redis redis" where
  "ref_redis = \<lparr>
     view = (\<lambda>r. \<lparr>zset = (\<lambda>k. map_of (at_key (rz r) k)), hash = (\<lambda>k. map_of (at_key (rh r) k)),
                rlist = at_key (rl r), strs = map_of (rs r), pubs = rp r\<rparr>),
     ZADD = (\<lambda>k s m r. r\<lparr>rz := AList.update k (AList.update m s (at_key (rz r) k)) (rz r)\<rparr>),
     ZREM = (\<lambda>k m r. r\<lparr>rz := AList.update k (AList.delete m (at_key (rz r) k)) (rz r)\<rparr>),
     ZPOPMIN = ref_ZPOPMIN,
     ZRANGEBYSCORE = (\<lambda>k mx off cnt r.
        take cnt (drop off (map fst (filter (\<lambda>(m, s). s \<le> mx) (zsorted (at_key (rz r) k)))))),
     ZCARD = (\<lambda>k r. int (length (AList.clearjunk (at_key (rz r) k)))),
     HSET = (\<lambda>k f v r. r\<lparr>rh := AList.update k (AList.update f v (at_key (rh r) k)) (rh r)\<rparr>),
     HDEL = (\<lambda>k f r. r\<lparr>rh := AList.update k (AList.delete f (at_key (rh r) k)) (rh r)\<rparr>),
     HGETALL = (\<lambda>k r. AList.clearjunk (at_key (rh r) k)),
     DEL = (\<lambda>k r. r\<lparr>rh := AList.update k [] (rh r)\<rparr>),
     RPUSH = (\<lambda>k v r. r\<lparr>rl := AList.update k (at_key (rl r) k @ [v]) (rl r)\<rparr>),
     LLEN = (\<lambda>k r. int (length (at_key (rl r) k))),
     SET = (\<lambda>now k v ttl r.
        r\<lparr>rs := AList.update k (v, if ttl \<le> 0 then None else Some (now + max 1 (ttl div 1000000))) (rs r)\<rparr>),
     EXISTS = (\<lambda>now k r. if key_alive now (map_of (rs r) k) then 1 else 0),
     SCAN = ref_SCAN,
     PUBLISH = (\<lambda>ch msg r. r\<lparr>rp := rp r @ [(ch, msg)]\<rparr>)\<rparr>"

lemma at_key_update [simp]:
  "at_key (AList.update k v m) k' = (if k' = k then v else at_key m k')"
  by (simp add: at_key_def update_conv')

lemma at_key_Nil [simp]: "at_key [] k = []"
  by (simp add: at_key_def)

lemma set_zsorted: "set (zsorted z) = set (AList.clearjunk z)"
  by (simp add: zsorted_def)

lemma distinct_zsorted: "distinct (map fst (zsorted z))"
proof -
  have "mset (map fst (zsorted z)) = mset (map fst (AList.clearjunk z))"
    by (simp add: zsorted_def)
  then show ?thesis
    by (simp only: mset_eq_imp_distinct_iff [of "map fst (zsorted z)"] distinct_clearjunk)
qed

lemma map_of_zsorted [simp]: "map_of (zsorted z) = map_of z"
proof -
  have "map_of (zsorted z) = map_of (AList.clearjunk z)"
    by (simp add: map_of_inject_set distinct_zsorted set_zsorted)
  then show ?thesis by (simp add: map_of_clearjunk)
qed

lemma zsorted_empty [simp]: "zsorted [] = []"
  by (simp add: zsorted_def)

lemma zsorted_sorted: "sorted (map (\<lambda>(m, s). (s, m)) (zsorted z))"
  by (simp add: zsorted_def)

lemma zsorted_iff: "(m, s) \<in> set (zsorted z) \<longleftrightarrow> map_of z m = Some s"
  using map_of_eq_Some_iff [OF distinct_zsorted, of z m s] by simp

lemma zsorted_Nil: "zsorted z = [] \<longleftrightarrow> map_of z = Map.empty"
proof -
  have "zsorted z = [] \<longleftrightarrow> map_of (zsorted z) = Map.empty" by (cases "zsorted z") auto
  then show ?thesis by simp
qed

text \<open>The members with a score up to a bound, as \<open>ZRANGEBYSCORE\<close> returns them.\<close>

lemma zsorted_range:
  fixes z mx
  defines "xs \<equiv> map fst (filter (\<lambda>(m, s). s \<le> mx) (zsorted z))"
  shows "distinct xs" and "set xs = {m. \<exists>s\<le>mx. map_of z m = Some s}"
    and "sorted (map (\<lambda>m. (the (map_of z m), m)) xs)"
proof -
  show "distinct xs"
    unfolding xs_def by (rule distinct_map_filter [OF distinct_zsorted])
  show "set xs = {m. \<exists>s\<le>mx. map_of z m = Some s}"
    by (force simp: xs_def zsorted_iff)
  have "map (\<lambda>m. (the (map_of z m), m)) xs =
      map (\<lambda>(m, s). (s, m)) (filter (\<lambda>(m, s). s \<le> mx) (zsorted z))"
    unfolding xs_def map_map by (rule map_cong) (auto simp: zsorted_iff)
  then show "sorted (map (\<lambda>m. (the (map_of z m), m)) xs)"
    using sorted_filter [OF zsorted_sorted [of z]] by simp
qed

lemma scan_pages_ref:
  fixes pat cnt r
  defines "ks \<equiv> filter (\<lambda>k. prefix (butlast pat) k \<and> at_key (rz r) k \<noteq> []) (remdups (map fst (rz r)))"
  assumes "0 < cnt"
  shows "length ks - c < n \<Longrightarrow> scan_pages ref_redis pat cnt n c r = Some (drop c ks)"
proof (induction n arbitrary: c)
  case (Suc n)
  have page: "SCAN ref_redis c pat cnt r =
      (take cnt (drop c ks), if c + cnt < length ks then c + cnt else 0)"
    by (simp add: ref_redis_def ref_SCAN_def ks_def)
  show ?case
  proof (cases "c + cnt < length ks")
    case True
    with Suc.prems assms have "length ks - (c + cnt) < n" by simp
    then have "scan_pages ref_redis pat cnt n (c + cnt) r = Some (drop cnt (drop c ks))"
      by (simp add: Suc.IH add.commute)
    moreover have "take cnt (drop c ks) @ drop cnt (drop c ks) = drop c ks"
      by (rule append_take_drop_id)
    ultimately show ?thesis using True assms(2) by (simp add: page del: drop_drop)
  qed (use page in simp)
qed simp

lemma at_key_nonempty: "at_key m k \<noteq> [] \<Longrightarrow> k \<in> fst ` set m"
  by (auto simp: at_key_def map_of_eq_None_iff split: option.splits)
    (metis map_of_SomeD fst_conv image_eqI)

lemma ref_SCAN_complete:
  assumes "0 < cnt"
  shows "\<exists>n ks. scan_pages ref_redis (p @ ''*'') cnt n 0 r = Some ks \<and>
    set ks = {k. prefix p k \<and> map_of (at_key (rz r) k) \<noteq> Map.empty}"
proof -
  let ?ks = "filter (\<lambda>k. prefix p k \<and> at_key (rz r) k \<noteq> []) (remdups (map fst (rz r)))"
  have "scan_pages ref_redis (p @ ''*'') cnt (Suc (length ?ks)) 0 r = Some ?ks"
    using scan_pages_ref [OF assms, where pat = "p @ ''*''" and c = 0 and r = r
        and n = "Suc (length ?ks)"] by (simp del: scan_pages.simps)
  moreover have "set ?ks = {k. prefix p k \<and> map_of (at_key (rz r) k) \<noteq> Map.empty}"
    by (auto dest: at_key_nonempty)
  ultimately show ?thesis by blast
qed

lemma ref_ZPOPMIN_min:
  assumes "map_of (at_key (rz r) k) \<noteq> Map.empty"
  shows "\<exists>m s. ref_ZPOPMIN k r =
      (Some (m, s), r\<lparr>rz := AList.update k (AList.delete m (at_key (rz r) k)) (rz r)\<rparr>) \<and>
    map_of (at_key (rz r) k) m = Some s \<and>
    (\<forall>m' s'. map_of (at_key (rz r) k) m' = Some s' \<longrightarrow> (s, m) \<le> (s', m'))"
proof -
  from assms obtain m s zs where z: "zsorted (at_key (rz r) k) = (m, s) # zs"
    by (metis zsorted_Nil neq_Nil_conv prod.exhaust)
  have "(s, m) \<le> (s', m')" if "map_of (at_key (rz r) k) m' = Some s'" for m' s'
  proof -
    from that have "(m', s') \<in> set ((m, s) # zs)" by (simp flip: zsorted_iff z)
    with zsorted_sorted [of "at_key (rz r) k"] show ?thesis by (fastforce simp: z)
  qed
  moreover have "map_of (at_key (rz r) k) m = Some s" by (simp flip: zsorted_iff add: z)
  ultimately show ?thesis by (intro exI [of _ m] exI [of _ s]) (simp add: ref_ZPOPMIN_def z)
qed

lemma card_dom_clearjunk: "card (dom (map_of z)) = length (AList.clearjunk z)"
proof -
  have "dom (map_of z) = set (map fst (AList.clearjunk z))"
    using dom_map_of_conv_image_fst [of "AList.clearjunk z"] by (simp add: map_of_clearjunk)
  then show ?thesis using distinct_card [OF distinct_clearjunk [of z]] by simp
qed

interpretation refr: redis_server ref_redis
proof (unfold_locales, goal_cases)
  case (4 k r)
  then show ?case by (simp add: ref_redis_def ref_ZPOPMIN_def zsorted_Nil [symmetric])
next
  case (5 k r)
  then have "map_of (at_key (rz r) k) \<noteq> Map.empty" by (simp add: ref_redis_def)
  from ref_ZPOPMIN_min [OF this] show ?case
    by (elim exE conjE, intro exI conjI) (auto simp: ref_redis_def delete_conv' fun_eq_iff)
next
  case (6 k mx r off cnt)
  then show ?case
    using zsorted_range [where z = "at_key (rz r) k" and mx = mx]
    by (intro exI [of _ "map fst (filter (\<lambda>(m, s). s \<le> mx) (zsorted (at_key (rz r) k)))"])
      (simp add: ref_redis_def)
next
  case (7 k r)
  then show ?case by (simp add: ref_redis_def card_dom_clearjunk)
next
  case (17 p cnt r)
  then show ?case using ref_SCAN_complete [of cnt p r] by (simp add: ref_redis_def)
qed (simp_all add: ref_redis_def finite_dom_map_of update_conv' delete_conv' fun_eq_iff
      map_of_clearjunk)

end
