(* ===== verification/World.thy ===== *)
theory World
  imports Task Redis
begin

section \<open>The state the processes share\<close>

text \<open>
  The rows of the tables of \<open>migrations/0001_init.sql\<close> as the structs of
  \<open>internal/store/store.go\<close> carry them, and the world every operation of the program
  reads and writes: the Redis server, the PostgreSQL tables, the clock, and what the network
  will do to the next calls of either service. A network schedule that is used up delivers
  every further call without delay, so that a schedule is any finite pattern of faults and
  delays.
\<close>

record worker_row =
  WkID :: string
  Hostname :: string
  WkStatus :: string
  LastHeartbeat :: time

record task_event =
  EvID :: int
  EvTaskID :: uuid
  EventType :: string
  EvMessage :: string
  EvCreatedAt :: time

record dead_letter =
  DlID :: int
  DlTaskID :: uuid
  Reason :: string
  DlPayload :: string
  FailedAt :: time

text \<open>The sequences of the two \<open>BIGSERIAL\<close> columns are part of the database.\<close>

record tables =
  tasks :: "task list"
  workers :: "worker_row list"
  task_events :: "task_event list"
  events_seq :: int
  dead_letters :: "dead_letter list"
  dl_seq :: int

record 'r world =
  rds :: 'r
  rnet :: "fault list"
  db :: tables
  pgnet :: "fault list"
  clk :: time

fun next_fault :: "fault list \<Rightarrow> fault \<times> fault list" where
  "next_fault [] = (\<lparr>latency = 0, outcome = Delivered\<rparr>, [])"
| "next_fault (f # fs) = (f, fs)"

text \<open>One round trip to Redis: the server runs \<open>f\<close> on its state.\<close>

definition rcall :: "('r \<Rightarrow> 'a \<times> 'r) \<Rightarrow> 'r world \<Rightarrow> (err + 'a) \<times> 'r world" where
  "rcall f w =
     (case next_fault (rnet w) of (ft, fs) \<Rightarrow>
        (let w' = w\<lparr>rnet := fs, clk := clk w + int (latency ft)\<rparr>
         in case outcome ft of
              Delivered \<Rightarrow> (Inr (fst (f (rds w))), w'\<lparr>rds := snd (f (rds w))\<rparr>)
            | LostRequest e \<Rightarrow> (Inl (Err e), w')
            | LostReply e \<Rightarrow> (Inl (Err e), w'\<lparr>rds := snd (f (rds w))\<rparr>)))"

text \<open>
  One round trip to PostgreSQL: the server runs one statement, which fails with an error of
  its own or returns a value and the new tables.
\<close>

definition pgcall :: "(tables \<Rightarrow> (err + 'a) \<times> tables) \<Rightarrow> 'r world \<Rightarrow> (err + 'a) \<times> 'r world" where
  "pgcall f w =
     (case next_fault (pgnet w) of (ft, fs) \<Rightarrow>
        (let w' = w\<lparr>pgnet := fs, clk := clk w + int (latency ft)\<rparr>
         in case outcome ft of
              Delivered \<Rightarrow> (fst (f (db w)), w'\<lparr>db := snd (f (db w))\<rparr>)
            | LostRequest e \<Rightarrow> (Inl (Err e), w')
            | LostReply e \<Rightarrow> (Inl (Err e), w'\<lparr>db := snd (f (db w))\<rparr>)))"

text \<open>A network that delivers every call, after any delays.\<close>

definition rok :: "'r world \<Rightarrow> bool" where
  "rok w \<longleftrightarrow> list_all delivered (rnet w)"

definition pok :: "'r world \<Rightarrow> bool" where
  "pok w \<longleftrightarrow> list_all delivered (pgnet w)"

subsection \<open>Frames\<close>

lemma rcall_frame [simp, frame]:
  "db (snd (rcall f w)) = db w" "pgnet (snd (rcall f w)) = pgnet w"
  by (simp_all add: rcall_def Let_def split: prod.splits outcome.splits)

lemma pgcall_frame [simp, frame]:
  "rds (snd (pgcall f w)) = rds w" "rnet (snd (pgcall f w)) = rnet w"
  by (simp_all add: pgcall_def Let_def split: prod.splits outcome.splits)

lemma rcall_clk: "clk w \<le> clk (snd (rcall f w))"
  by (simp add: rcall_def Let_def split: prod.splits outcome.splits)

lemma pgcall_clk: "clk w \<le> clk (snd (pgcall f w))"
  by (simp add: pgcall_def Let_def split: prod.splits outcome.splits)

lemma pok_rcall [simp]: "pok (snd (rcall f w)) = pok w"
  by (simp add: pok_def)

lemma rok_pgcall [simp]: "rok (snd (pgcall f w)) = rok w"
  by (simp add: rok_def)

text \<open>A call whose reply arrived ran exactly once; after an error it ran once or not at all.\<close>

lemma rcall_Inr: "rcall f w = (Inr a, w') \<Longrightarrow> a = fst (f (rds w)) \<and> rds w' = snd (f (rds w))"
  by (auto simp: rcall_def Let_def split: prod.splits outcome.splits)

lemma rcall_rds: "rds (snd (rcall f w)) = rds w \<or> rds (snd (rcall f w)) = snd (f (rds w))"
  by (simp add: rcall_def Let_def split: prod.splits outcome.splits)

lemma rcall_keeps: "Q (rds w) \<Longrightarrow> Q (snd (f (rds w))) \<Longrightarrow> Q (rds (snd (rcall f w)))"
  using rcall_rds [of f w] by auto

lemma rcall_read [simp]: "rds (snd (rcall (\<lambda>r. (g r, r)) w)) = rds w"
  using rcall_rds [of "\<lambda>r. (g r, r)" w] by simp

lemma rcall_keepsD:
  "rcall f w = (a, w1) \<Longrightarrow> Q (rds w) \<Longrightarrow> Q (snd (f (rds w))) \<Longrightarrow> Q (rds w1)"
  using rcall_keeps [of Q w f] by simp

lemma rcall_readD: "rcall (\<lambda>r. (g r, r)) w = (a, w1) \<Longrightarrow> rds w1 = rds w"
  using rcall_read [of g w] by simp

lemma rcall_readInr:
  "rcall (\<lambda>r. (g r, r)) w = (Inr a, w1) \<Longrightarrow> a = g (rds w) \<and> rds w1 = rds w"
  using rcall_Inr [of "\<lambda>r. (g r, r)" w a w1] by simp

lemma rcall_frameD: "rcall f w = (a, w1) \<Longrightarrow> db w1 = db w \<and> pgnet w1 = pgnet w"
  using rcall_frame [of f w] by simp

lemma pgcall_frameD: "pgcall f w = (a, w1) \<Longrightarrow> rds w1 = rds w \<and> rnet w1 = rnet w"
  using pgcall_frame [of f w] by simp

lemma pgcall_Inr: "pgcall f w = (Inr a, w') \<Longrightarrow> fst (f (db w)) = Inr a \<and> db w' = snd (f (db w))"
  by (auto simp: pgcall_def Let_def split: prod.splits outcome.splits)

lemma pgcall_db: "db (snd (pgcall f w)) = db w \<or> db (snd (pgcall f w)) = snd (f (db w))"
  by (simp add: pgcall_def Let_def split: prod.splits outcome.splits)

lemma pgcall_keeps: "P (db w) \<Longrightarrow> P (snd (f (db w))) \<Longrightarrow> P (db (snd (pgcall f w)))"
  using pgcall_db [of f w] by auto

lemma pgcall_keepsD:
  "pgcall f w = (a, w1) \<Longrightarrow> P (db w) \<Longrightarrow> P (snd (f (db w))) \<Longrightarrow> P (db w1)"
  using pgcall_keeps [of P w f] by simp

lemma pgcall_read [simp]: "db (snd (pgcall (\<lambda>T. (g T, T)) w)) = db w"
  using pgcall_db [of "\<lambda>T. (g T, T)" w] by simp

lemma pgcall_readD: "pgcall (\<lambda>T. (g T, T)) w = (a, w1) \<Longrightarrow> db w1 = db w"
  using pgcall_read [of g w] by simp

subsection \<open>Calls over a network that delivers\<close>

lemma next_fault_ok:
  "list_all delivered fs \<Longrightarrow> outcome (fst (next_fault fs)) = Delivered"
  "list_all delivered fs \<Longrightarrow> list_all delivered (snd (next_fault fs))"
  by (cases fs; simp add: delivered_def)+

lemma rcall_ok:
  assumes "rok w"
  shows "fst (rcall f w) = Inr (fst (f (rds w)))" "rds (snd (rcall f w)) = snd (f (rds w))"
    "rok (snd (rcall f w))"
  using next_fault_ok [OF assms [unfolded rok_def]]
  by (cases "next_fault (rnet w)"; simp add: rcall_def Let_def rok_def)+

lemma pgcall_ok:
  assumes "pok w"
  shows "fst (pgcall f w) = fst (f (db w))" "db (snd (pgcall f w)) = snd (f (db w))"
    "pok (snd (pgcall f w))"
  using next_fault_ok [OF assms [unfolded pok_def]]
  by (cases "next_fault (pgnet w)"; simp add: pgcall_def Let_def pok_def)+

lemma rcall_okD: "rcall f w = (a, w1) \<Longrightarrow> rok w \<Longrightarrow> rok w1"
  using rcall_ok(3) [of w f] by simp

lemma pgcall_okD: "pgcall f w = (a, w1) \<Longrightarrow> pok w \<Longrightarrow> pok w1"
  using pgcall_ok(3) [of w f] by simp

lemma rcall_okInl: "rok w \<Longrightarrow> rcall f w \<noteq> (Inl e, w1)"
  using rcall_ok(1) [of w f] by auto

lemmas calls_ok [simp] = rcall_ok pgcall_ok

end
