(* ===== verification/Envelope.thy ===== *)
theory Envelope
  imports Task
begin

section \<open>Envelopes and their text form\<close>

text \<open>
  The struct \<open>Envelope\<close> of \<open>internal/queue/queue.go\<close> and what the queue relies on when
  it turns one into a Redis member and back: the JSON codec, the text form of a UUID, and
  what \<open>cjson.decode(member).id\<close> returns inside the lease script. The locale
  \<open>envelope_codec\<close> is this contract.
\<close>

record envelope =
  EnvID :: uuid
  EnvType :: string
  EnvPriority :: int
  EnvAttempts :: int
  EnvMaxAttempts :: int
  EnvPayload :: string
  EnqueuedAt :: int

text \<open>
  \<open>raw_ok\<close> is the test that a raw message is valid JSON (an absent one is written as
  \<open>null\<close>), \<open>raw_compact\<close> the form in which the encoder copies it, and \<open>text_ok\<close>
  the test that a string is valid UTF-8, which the encoder then writes unchanged.
\<close>

record codec =
  UUID_String :: "uuid \<Rightarrow> string"
  UUID_Parse :: "string \<Rightarrow> uuid option"
  marshal :: "envelope \<Rightarrow> string option"
  unmarshal :: "string \<Rightarrow> envelope option"
  marshal_dead :: "envelope \<Rightarrow> string \<Rightarrow> int \<Rightarrow> string option"
  marshal_event :: "event \<Rightarrow> string option"
  cjson_id :: "string \<Rightarrow> string option"
  raw_ok :: "string \<Rightarrow> bool"
  raw_compact :: "string \<Rightarrow> string"
  text_ok :: "string \<Rightarrow> bool"

definition env_wf :: "codec \<Rightarrow> envelope \<Rightarrow> bool" where
  "env_wf C e \<longleftrightarrow> int64_range (EnvPriority e) \<and> int64_range (EnvAttempts e) \<and>
     int64_range (EnvMaxAttempts e) \<and> int64_range (EnqueuedAt e) \<and>
     text_ok C (EnvType e) \<and> raw_ok C (EnvPayload e)"

text \<open>What remains of an envelope after it went through its text form.\<close>

definition compacted :: "codec \<Rightarrow> envelope \<Rightarrow> envelope" where
  "compacted C e = e\<lparr>EnvPayload := raw_compact C (EnvPayload e)\<rparr>"

text \<open>A Redis member that the encoder wrote, and the envelope it reads back as.\<close>

definition written :: "codec \<Rightarrow> string \<Rightarrow> envelope \<Rightarrow> bool" where
  "written C m e \<longleftrightarrow> (\<exists>e0. env_wf C e0 \<and> marshal C e0 = Some m \<and> e = compacted C e0)"

lemma compacted_simps [simp]:
  "EnvID (compacted C e) = EnvID e" "EnvType (compacted C e) = EnvType e"
  "EnvPriority (compacted C e) = EnvPriority e" "EnvAttempts (compacted C e) = EnvAttempts e"
  "EnvMaxAttempts (compacted C e) = EnvMaxAttempts e" "EnqueuedAt (compacted C e) = EnqueuedAt e"
  by (simp_all add: compacted_def)

locale envelope_codec =
  fixes C :: codec
  assumes uuid_parse: "UUID_Parse C (UUID_String C a) = Some a"
    and marshal_ok: "marshal C e \<noteq> None \<longleftrightarrow> raw_ok C (EnvPayload e)"
    and unmarshal_marshal: "env_wf C e \<Longrightarrow> marshal C e = Some s \<Longrightarrow>
      unmarshal C s = Some (compacted C e)"
    and raw_compact_ok: "raw_ok C p \<Longrightarrow> raw_ok C (raw_compact C p)"
    and marshal_compacted: "raw_ok C (EnvPayload e) \<Longrightarrow> marshal C (compacted C e) = marshal C e"
    and marshal_dead_ok: "marshal_dead C e reason ms \<noteq> None \<longleftrightarrow> raw_ok C (EnvPayload e)"
    and cjson_id_marshal: "env_wf C e \<Longrightarrow> marshal C e = Some s \<Longrightarrow>
      cjson_id C s = Some (UUID_String C (EnvID e))"
begin

lemma uuid_inj [simp]: "UUID_String C a = UUID_String C b \<longleftrightarrow> a = b"
  by (metis uuid_parse option.inject)

lemma compacted_wf: "env_wf C e \<Longrightarrow> env_wf C (compacted C e)"
  by (simp add: env_wf_def compacted_def raw_compact_ok)

lemma marshal_wf:
  assumes "env_wf C e"
  obtains s where "marshal C e = Some s" and "written C s (compacted C e)"
  using assms marshal_ok [of e] by (auto simp: env_wf_def written_def)

lemma writtenD:
  assumes "written C m e"
  shows "unmarshal C m = Some e" and "cjson_id C m = Some (UUID_String C (EnvID e))"
    and "env_wf C e"
  using assms by (auto simp: written_def unmarshal_marshal cjson_id_marshal compacted_wf)

text \<open>Members and the envelopes they read back as determine each other.\<close>

lemma written_marshal: "written C m e \<Longrightarrow> marshal C e = Some m"
  by (auto simp: written_def env_wf_def marshal_compacted)

lemma written_inj: "written C m e \<Longrightarrow> written C m e' \<longleftrightarrow> e' = e"
  by (metis writtenD(1) option.inject)

lemma written_unique: "written C m e \<Longrightarrow> written C m' e \<longleftrightarrow> m' = m"
  by (metis written_marshal option.inject)

lemma written_compacted: "written C m e \<Longrightarrow> compacted C e = e"
  using writtenD [of m e] written_marshal [of m e] unmarshal_marshal [of e m] by simp

end

end
