(* ===== verification/Queue.thy ===== *)
theory Queue
  imports World Envelope
begin

section \<open>The Redis-backed queue (internal/queue/queue.go)\<close>

text \<open>
  The key layout, the priority score, and one definition per operation of the facade
  \<open>Queue\<close>, each over the Redis interface \<open>R\<close> and the codec \<open>C\<close>. An operation
  returns Go's result or error together with the world after its round trips.
\<close>

subsection \<open>Keys and score\<close>

definition EventsChannel :: string where "EventsChannel = ''events:tasks''"

definition QueueKey :: "string \<Rightarrow> string" where "QueueKey typ = ''queue:'' @ typ"
definition DelayedKey :: "string \<Rightarrow> string" where "DelayedKey typ = ''delayed:'' @ typ"
definition InflightKey :: "string \<Rightarrow> string" where "InflightKey worker = ''inflight:'' @ worker"
definition HeartbeatKey :: "string \<Rightarrow> string" where "HeartbeatKey worker = ''hb:'' @ worker"
definition DLQKey :: "string \<Rightarrow> string" where "DLQKey typ = ''dlq:'' @ typ"

definition priorityScore :: "int \<Rightarrow> int \<Rightarrow> int" where
  "priorityScore priority enqueueMs =
     (let priority = (if priority < 0 then 0 else priority);
          priority = (if priority > 9 then 9 else priority)
      in f64 (f64 (f64 priority * 10000000000000) + f64 enqueueMs))"

subsection \<open>Operations\<close>

definition Enqueue ::
  "'r redis \<Rightarrow> codec \<Rightarrow> envelope \<Rightarrow> 'r world \<Rightarrow> (err + unit) \<times> 'r world" where
  "Enqueue R C env w =
     (let env = (if EnqueuedAt env = 0 then env\<lparr>EnqueuedAt := UnixMilli (clk w)\<rparr> else env)
      in case marshal C env of
           None \<Rightarrow> (Inl (Err ''json: marshal''), w)
         | Some body \<Rightarrow>
             let score = priorityScore (EnvPriority env) (EnqueuedAt env)
             in rcall (\<lambda>r. ((), ZADD R (QueueKey (EnvType env)) score body r)) w)"

definition EnqueueDelayed ::
  "'r redis \<Rightarrow> codec \<Rightarrow> envelope \<Rightarrow> time \<Rightarrow> 'r world \<Rightarrow> (err + unit) \<times> 'r world" where
  "EnqueueDelayed R C env at w =
     (case marshal C env of
        None \<Rightarrow> (Inl (Err ''json: marshal''), w)
      | Some body \<Rightarrow>
          rcall (\<lambda>r. ((), ZADD R (DelayedKey (EnvType env)) (f64 (UnixMilli at)) body r)) w)"

text \<open>
  The Lua script of \<open>Lease\<close>, which the server runs as one step. An \<open>Inl\<close> is an error
  the script raises, here when the member does not decode to an object with an \<open>id\<close>; what
  the script did before stays done. The script does not read its argument, the lease TTL.
\<close>

definition leaseScript ::
  "'r redis \<Rightarrow> codec \<Rightarrow> string \<Rightarrow> string \<Rightarrow> 'r \<Rightarrow> (string + string option) \<times> 'r" where
  "leaseScript R C key1 key2 r =
     (case ZPOPMIN R key1 r of
        (None, r1) \<Rightarrow> (Inr None, r1)
      | (Some (member, score), r1) \<Rightarrow>
          (case cjson_id C member of
             None \<Rightarrow> (Inl ''lease script: no id'', r1)
           | Some decoded_id \<Rightarrow> (Inr (Some member), HSET R key2 decoded_id member r1)))"

definition Lease ::
  "'r redis \<Rightarrow> codec \<Rightarrow> string \<Rightarrow> string \<Rightarrow> 'r world \<Rightarrow> (err + envelope) \<times> 'r world" where
  "Lease R C typ worker w =
     (case rcall (leaseScript R C (QueueKey typ) (InflightKey worker)) w of
        (Inl e, w1) \<Rightarrow> (Inl e, w1)
      | (Inr (Inl msg), w1) \<Rightarrow> (Inl (Err msg), w1)
      | (Inr (Inr None), w1) \<Rightarrow> (Inl ErrEmpty, w1)
      | (Inr (Inr (Some s)), w1) \<Rightarrow>
          (case unmarshal C s of
             None \<Rightarrow> (Inl (Err ''decode envelope: invalid JSON''), w1)
           | Some env \<Rightarrow> (Inr env, w1)))"

fun LeaseAny ::
  "'r redis \<Rightarrow> codec \<Rightarrow> string list \<Rightarrow> string \<Rightarrow> 'r world \<Rightarrow> (err + envelope) \<times> 'r world" where
  "LeaseAny R C [] worker w = (Inl ErrEmpty, w)"
| "LeaseAny R C (t # ts) worker w =
     (case Lease R C t worker w of
        (Inr env, w1) \<Rightarrow> (Inr env, w1)
      | (Inl e, w1) \<Rightarrow> if e \<noteq> ErrEmpty then (Inl e, w1) else LeaseAny R C ts worker w1)"

definition Ack ::
  "'r redis \<Rightarrow> codec \<Rightarrow> string \<Rightarrow> uuid \<Rightarrow> 'r world \<Rightarrow> (err + unit) \<times> 'r world" where
  "Ack R C worker i w = rcall (\<lambda>r. ((), HDEL R (InflightKey worker) (UUID_String C i) r)) w"

definition Nack ::
  "'r redis \<Rightarrow> codec \<Rightarrow> string \<Rightarrow> uuid \<Rightarrow> 'r world \<Rightarrow> (err + unit) \<times> 'r world" where
  "Nack R C worker i w = rcall (\<lambda>r. ((), HDEL R (InflightKey worker) (UUID_String C i) r)) w"

definition DeadLetter ::
  "'r redis \<Rightarrow> codec \<Rightarrow> envelope \<Rightarrow> string \<Rightarrow> 'r world \<Rightarrow> (err + unit) \<times> 'r world" where
  "DeadLetter R C env reason w =
     (case marshal_dead C env reason (UnixMilli (clk w)) of
        None \<Rightarrow> (Inl (Err ''json: marshal''), w)
      | Some body \<Rightarrow> rcall (\<lambda>r. ((), RPUSH R (DLQKey (EnvType env)) body r)) w)"

definition Heartbeat ::
  "'r redis \<Rightarrow> string \<Rightarrow> int \<Rightarrow> 'r world \<Rightarrow> (err + unit) \<times> 'r world" where
  "Heartbeat R worker ttl w =
     (let ms = UnixMilli (clk w)
      in rcall (\<lambda>r. ((), SET R ms (HeartbeatKey worker) (show_int ms) ttl r)) w)"

definition IsAlive :: "'r redis \<Rightarrow> string \<Rightarrow> 'r world \<Rightarrow> (err + bool) \<times> 'r world" where
  "IsAlive R worker w =
     (case rcall (\<lambda>r. (EXISTS R (UnixMilli (clk w)) (HeartbeatKey worker) r, r)) w of
        (Inl e, w1) \<Rightarrow> (Inl e, w1)
      | (Inr n, w1) \<Rightarrow> (Inr (0 < n), w1))"

definition ReclaimInflight ::
  "'r redis \<Rightarrow> codec \<Rightarrow> string \<Rightarrow> 'r world \<Rightarrow> (err + envelope list) \<times> 'r world" where
  "ReclaimInflight R C worker w =
     (let key = InflightKey worker
      in case rcall (\<lambda>r. (HGETALL R key r, r)) w of
           (Inl e, w1) \<Rightarrow> (Inl e, w1)
         | (Inr all, w1) \<Rightarrow>
             let envs = List.map_filter (\<lambda>(f, v). unmarshal C v) all;
                 w2 = (if all \<noteq> [] then snd (rcall (\<lambda>r. ((), DEL R key r)) w1) else w1)
             in (Inr envs, w2))"

text \<open>The two commands \<open>PromoteDelayed\<close> queues for a member it can decode and encode.\<close>

definition promote_cmd ::
  "'r redis \<Rightarrow> codec \<Rightarrow> string \<Rightarrow> int \<Rightarrow> string \<Rightarrow> ('r \<Rightarrow> 'r) option" where
  "promote_cmd R C typ nowMs m =
     (case unmarshal C m of
        None \<Rightarrow> None
      | Some env \<Rightarrow>
          let env = env\<lparr>EnqueuedAt := nowMs\<rparr>
          in (case marshal C env of
                None \<Rightarrow> None
              | Some body \<Rightarrow> Some (\<lambda>r. ZADD R (QueueKey (EnvType env))
                  (priorityScore (EnvPriority env) nowMs) body (ZREM R (DelayedKey typ) m r))))"

definition PromoteDelayed ::
  "'r redis \<Rightarrow> codec \<Rightarrow> string \<Rightarrow> time \<Rightarrow> 'r world \<Rightarrow> (err + nat) \<times> 'r world" where
  "PromoteDelayed R C typ now w =
     (let nowMs = UnixMilli now
      in case rcall (\<lambda>r. (ZRANGEBYSCORE R (DelayedKey typ) (f64 nowMs) 0 256 r, r)) w of
           (Inl e, w1) \<Rightarrow> (Inl e, w1)
         | (Inr members, w1) \<Rightarrow>
             if members = [] then (Inr 0, w1)
             else
               (let pipe = List.map_filter (promote_cmd R C typ nowMs) members
                in if List.null pipe then (Inr (length members), w1)
                   else (case rcall (\<lambda>r. ((), fold (\<lambda>c. c) pipe r)) w1 of
                           (Inl e, w2) \<Rightarrow> (Inl e, w2)
                         | (Inr _, w2) \<Rightarrow> (Inr (length members), w2))))"

definition QueueDepth :: "'r redis \<Rightarrow> string \<Rightarrow> 'r world \<Rightarrow> (err + int) \<times> 'r world" where
  "QueueDepth R typ w = rcall (\<lambda>r. (ZCARD R (QueueKey typ) r, r)) w"

definition DelayedDepth :: "'r redis \<Rightarrow> string \<Rightarrow> 'r world \<Rightarrow> (err + int) \<times> 'r world" where
  "DelayedDepth R typ w = rcall (\<lambda>r. (ZCARD R (DelayedKey typ) r, r)) w"

definition DLQDepth :: "'r redis \<Rightarrow> string \<Rightarrow> 'r world \<Rightarrow> (err + int) \<times> 'r world" where
  "DLQDepth R typ w = rcall (\<lambda>r. (LLEN R (DLQKey typ) r, r)) w"

text \<open>
  The scan loop asks for pages of 100 keys until the cursor is 0 again. It ends when the
  server says so, hence the fuel: \<open>None\<close> means that the loop is still running.
\<close>

fun scan_loop ::
  "'r redis \<Rightarrow> string \<Rightarrow> nat \<Rightarrow> nat \<Rightarrow> 'r world \<Rightarrow> ((err + string list) \<times> 'r world) option" where
  "scan_loop R pat 0 cursor w = None"
| "scan_loop R pat (Suc n) cursor w =
     (case rcall (\<lambda>r. (SCAN R cursor pat 100 r, r)) w of
        (Inl e, w1) \<Rightarrow> Some (Inl e, w1)
      | (Inr (ks, c), w1) \<Rightarrow>
          if c = 0 then Some (Inr ks, w1)
          else (case scan_loop R pat n c w1 of
                  None \<Rightarrow> None
                | Some (Inl e, w2) \<Rightarrow> Some (Inl e, w2)
                | Some (Inr ks', w2) \<Rightarrow> Some (Inr (ks @ ks'), w2)))"

definition TrimPrefix :: "string \<Rightarrow> string \<Rightarrow> string" where
  "TrimPrefix s p = (if prefix p s then drop (length p) s else s)"

definition ListTypes ::
  "'r redis \<Rightarrow> nat \<Rightarrow> 'r world \<Rightarrow> ((err + string list) \<times> 'r world) option" where
  "ListTypes R fuel w =
     (case scan_loop R ''queue:*'' fuel 0 w of
        None \<Rightarrow> None
      | Some (Inl e, w1) \<Rightarrow> Some (Inl e, w1)
      | Some (Inr ks, w1) \<Rightarrow> Some (Inr (remdups (map (\<lambda>k. TrimPrefix k ''queue:'') ks)), w1))"

definition Publish ::
  "'r redis \<Rightarrow> codec \<Rightarrow> event \<Rightarrow> 'r world \<Rightarrow> (err + unit) \<times> 'r world" where
  "Publish R C payload w =
     (case marshal_event C payload of
        None \<Rightarrow> (Inl (Err ''json: marshal''), w)
      | Some body \<Rightarrow> rcall (\<lambda>r. ((), PUBLISH R EventsChannel body r)) w)"

subsection \<open>The key layout\<close>

lemmas key_defs = QueueKey_def DelayedKey_def InflightKey_def HeartbeatKey_def DLQKey_def

lemma key_families [simp, keys]:
  "zkey (QueueKey t)" "zkey (DelayedKey t)" "hkey (InflightKey w)" "lkey (DLQKey t)"
  "skey (HeartbeatKey w)"
  by (simp_all add: key_defs zkey_def hkey_def lkey_def skey_def)

lemma key_eq [simp, keys]:
  "QueueKey a = QueueKey b \<longleftrightarrow> a = b" "DelayedKey a = DelayedKey b \<longleftrightarrow> a = b"
  "InflightKey a = InflightKey b \<longleftrightarrow> a = b" "HeartbeatKey a = HeartbeatKey b \<longleftrightarrow> a = b"
  "DLQKey a = DLQKey b \<longleftrightarrow> a = b" "QueueKey a \<noteq> DelayedKey b" "DelayedKey a \<noteq> QueueKey b"
  by (simp_all add: key_defs)

subsection \<open>What the queue operations leave alone\<close>

lemma Lease_snd:
  "snd (Lease R C t wk w) = snd (rcall (leaseScript R C (QueueKey t) (InflightKey wk)) w)"
  by (simp add: Lease_def split: prod.splits sum.splits option.splits)

lemma queue_frame [simp, frame]:
  "db (snd (Enqueue R C env w)) = db w" "pgnet (snd (Enqueue R C env w)) = pgnet w"
  "db (snd (EnqueueDelayed R C env at w)) = db w" "pgnet (snd (EnqueueDelayed R C env at w)) = pgnet w"
  "db (snd (Lease R C t wk w)) = db w" "pgnet (snd (Lease R C t wk w)) = pgnet w"
  "db (snd (Ack R C wk i w)) = db w" "pgnet (snd (Ack R C wk i w)) = pgnet w"
  "db (snd (Nack R C wk i w)) = db w" "pgnet (snd (Nack R C wk i w)) = pgnet w"
  "db (snd (DeadLetter R C env reason w)) = db w" "pgnet (snd (DeadLetter R C env reason w)) = pgnet w"
  "db (snd (Heartbeat R wk ttl w)) = db w" "pgnet (snd (Heartbeat R wk ttl w)) = pgnet w"
  "db (snd (Publish R C ev w)) = db w" "pgnet (snd (Publish R C ev w)) = pgnet w"
  by (simp_all add: Enqueue_def EnqueueDelayed_def Lease_snd Ack_def Nack_def DeadLetter_def
      Heartbeat_def Publish_def Let_def split: option.splits)

lemma queue_frame2 [simp, frame]:
  "db (snd (IsAlive R wk w)) = db w" "pgnet (snd (IsAlive R wk w)) = pgnet w"
  "db (snd (ReclaimInflight R C wk w)) = db w" "pgnet (snd (ReclaimInflight R C wk w)) = pgnet w"
  "db (snd (PromoteDelayed R C t now w)) = db w" "pgnet (snd (PromoteDelayed R C t now w)) = pgnet w"
  by (auto simp: IsAlive_def ReclaimInflight_def PromoteDelayed_def Let_def
      dest!: rcall_frameD split: prod.splits sum.splits)

lemma LeaseAny_frame [simp, frame]:
  "db (snd (LeaseAny R C ts wk w)) = db w" "pgnet (snd (LeaseAny R C ts wk w)) = pgnet w"
proof (induction ts arbitrary: w)
  case (Cons t ts)
  have L: "db w1 = db w \<and> pgnet w1 = pgnet w" if "Lease R C t wk w = (res, w1)" for res w w1
    using that queue_frame(5,6) [of R C t wk w] by simp
  { case 1 show ?case using Cons(1) by (auto dest: L split: prod.splits sum.splits) }
  { case 2 show ?case using Cons(2) by (auto dest: L split: prod.splits sum.splits) }
qed simp_all

lemma queue_rok [simp]:
  "rok w \<Longrightarrow> rok (snd (Enqueue R C env w))" "rok w \<Longrightarrow> rok (snd (EnqueueDelayed R C env at w))"
  "rok w \<Longrightarrow> rok (snd (Lease R C t wk w))" "rok w \<Longrightarrow> rok (snd (Ack R C wk i w))"
  "rok w \<Longrightarrow> rok (snd (Nack R C wk i w))" "rok w \<Longrightarrow> rok (snd (DeadLetter R C env reason w))"
  "rok w \<Longrightarrow> rok (snd (Heartbeat R wk ttl w))" "rok w \<Longrightarrow> rok (snd (Publish R C ev w))"
  by (simp_all add: Enqueue_def EnqueueDelayed_def Lease_snd Ack_def Nack_def DeadLetter_def
      Heartbeat_def Publish_def Let_def split: option.splits)

lemma queue_rok2 [simp]:
  "rok w \<Longrightarrow> rok (snd (IsAlive R wk w))" "rok w \<Longrightarrow> rok (snd (ReclaimInflight R C wk w))"
  "rok w \<Longrightarrow> rok (snd (PromoteDelayed R C t now w))"
  by (auto simp: IsAlive_def ReclaimInflight_def PromoteDelayed_def Let_def
      dest!: rcall_okD split: prod.splits sum.splits)

lemma LeaseAny_rok [simp]: "rok w \<Longrightarrow> rok (snd (LeaseAny R C ts wk w))"
proof (induction ts arbitrary: w)
  case (Cons t ts)
  have L: "rok w1" if "Lease R C t wk w = (res, w1)" for res w1
    using that Cons.prems queue_rok(3) [of w R C t wk] by simp
  with Cons.IH show ?case by (auto dest: L split: prod.splits sum.splits)
qed simp

lemma queue_pok [simp]:
  "pok (snd (Enqueue R C env w)) = pok w" "pok (snd (EnqueueDelayed R C env at w)) = pok w"
  "pok (snd (LeaseAny R C ts wk w)) = pok w" "pok (snd (Ack R C wk i w)) = pok w"
  "pok (snd (Nack R C wk i w)) = pok w" "pok (snd (DeadLetter R C env reason w)) = pok w"
  "pok (snd (Heartbeat R wk ttl w)) = pok w" "pok (snd (Publish R C ev w)) = pok w"
  "pok (snd (IsAlive R wk w)) = pok w" "pok (snd (ReclaimInflight R C wk w)) = pok w"
  "pok (snd (PromoteDelayed R C t now w)) = pok w"
  by (simp_all add: pok_def)

text \<open>No operation turns the clock back.\<close>

lemma rcall_clkD: "rcall f w = (a, w1) \<Longrightarrow> clk w \<le> clk w1"
  using rcall_clk [of w f] by simp

lemma queue_clk:
  "clk w \<le> clk (snd (Enqueue R C env w))" "clk w \<le> clk (snd (EnqueueDelayed R C env at w))"
  "clk w \<le> clk (snd (Lease R C t wk w))" "clk w \<le> clk (snd (Ack R C wk i w))"
  "clk w \<le> clk (snd (Nack R C wk i w))" "clk w \<le> clk (snd (DeadLetter R C env reason w))"
  "clk w \<le> clk (snd (Heartbeat R wk ttl w))" "clk w \<le> clk (snd (Publish R C ev w))"
  by (simp_all add: Enqueue_def EnqueueDelayed_def Lease_snd Ack_def Nack_def DeadLetter_def
      Heartbeat_def Publish_def Let_def rcall_clk split: option.splits)

lemma queue_clk2:
  "clk w \<le> clk (snd (IsAlive R wk w))" "clk w \<le> clk (snd (ReclaimInflight R C wk w))"
  "clk w \<le> clk (snd (PromoteDelayed R C t now w))"
  by (auto simp: IsAlive_def ReclaimInflight_def PromoteDelayed_def Let_def dest!: rcall_clkD
      intro: order_trans [OF _ rcall_clk] split: prod.splits sum.splits)

subsection \<open>Priority score\<close>

definition clamp_priority :: "int \<Rightarrow> int" where
  "clamp_priority p = max 0 (min 9 p)"

lemma priorityScore_exact:
  assumes "0 \<le> ms" and "ms < 10 ^ 13"
  shows "priorityScore p ms = clamp_priority p * 10 ^ 13 + ms"
proof -
  define c where "c = clamp_priority p"
  have c: "0 \<le> c" "c \<le> 9" by (auto simp: c_def clamp_priority_def)
  have eq: "(let q = (if p < 0 then 0 else p); q = (if 9 < q then 9 else q) in q) = c"
    by (simp add: c_def clamp_priority_def Let_def)
  have "f64 c = c" and "f64 (c * 10 ^ 13) = c * 10 ^ 13" and "f64 ms = ms"
    and "f64 (c * 10 ^ 13 + ms) = c * 10 ^ 13 + ms"
    using c assms by (auto intro!: f64_small)
  with eq show ?thesis unfolding priorityScore_def c_def [symmetric] Let_def by simp
qed

subsection \<open>What the queue's structures hold\<close>

abbreviation ready :: "'r redis \<Rightarrow> 'r world \<Rightarrow> string \<Rightarrow> (string \<rightharpoonup> int)" where
  "ready R w t \<equiv> zset (view R (rds w)) (QueueKey t)"

abbreviation delayed :: "'r redis \<Rightarrow> 'r world \<Rightarrow> string \<Rightarrow> (string \<rightharpoonup> int)" where
  "delayed R w t \<equiv> zset (view R (rds w)) (DelayedKey t)"

abbreviation inflight :: "'r redis \<Rightarrow> 'r world \<Rightarrow> string \<Rightarrow> (string \<rightharpoonup> string)" where
  "inflight R w wk \<equiv> hash (view R (rds w)) (InflightKey wk)"

abbreviation dlq :: "'r redis \<Rightarrow> 'r world \<Rightarrow> string \<Rightarrow> string list" where
  "dlq R w t \<equiv> rlist (view R (rds w)) (DLQKey t)"

text \<open>
  The invariant of the Redis structures: every ready member is the text of an envelope of its
  queue's type with the score that the envelope gives it, every delayed member is the text
  of an envelope of that type, every in-flight field is the id of the envelope it holds; and
  every such envelope satisfies \<open>P\<close>.
\<close>

definition queue_inv :: "'r redis \<Rightarrow> codec \<Rightarrow> (envelope \<Rightarrow> bool) \<Rightarrow> 'r \<Rightarrow> bool" where
  "queue_inv R C P r \<longleftrightarrow>
     (\<forall>t m s. zset (view R r) (QueueKey t) m = Some s \<longrightarrow>
        (\<exists>e. written C m e \<and> EnvType e = t \<and> P e \<and>
             s = priorityScore (EnvPriority e) (EnqueuedAt e))) \<and>
     (\<forall>t m s. zset (view R r) (DelayedKey t) m = Some s \<longrightarrow>
        (\<exists>e. written C m e \<and> EnvType e = t \<and> P e)) \<and>
     (\<forall>wk f v. hash (view R r) (InflightKey wk) f = Some v \<longrightarrow>
        (\<exists>e. written C v e \<and> P e \<and> f = UUID_String C (EnvID e)))"

text \<open>The envelope that \<open>PromoteDelayed\<close> enqueues for a delayed member it decodes.\<close>

definition promoted :: "codec \<Rightarrow> int \<Rightarrow> string \<Rightarrow> envelope" where
  "promoted C nowMs m = (the (unmarshal C m))\<lparr>EnqueuedAt := nowMs\<rparr>"

text \<open>A condition on envelopes that does not look at payload and enqueue time.\<close>

definition task_cond :: "(envelope \<Rightarrow> bool) \<Rightarrow> bool" where
  "task_cond P \<longleftrightarrow> (\<forall>e p. P (e\<lparr>EnvPayload := p\<rparr>) = P e) \<and>
     (\<forall>e n. P (e\<lparr>EnqueuedAt := n\<rparr>) = P e)"

locale task_queue = redis_server R + envelope_codec C for R :: "'r redis" and C :: codec
begin

lemmas view_laws [simp] = view_ZADD view_ZREM view_HSET view_HDEL view_DEL view_RPUSH
  view_SET view_PUBLISH

lemma ready_decodes:
  "queue_inv R C P r \<Longrightarrow> zset (view R r) (QueueKey t) m = Some s \<Longrightarrow>
   \<exists>e. written C m e \<and> EnvType e = t \<and> P e \<and>
     s = priorityScore (EnvPriority e) (EnqueuedAt e)"
  by (simp add: queue_inv_def)

lemma delayed_decodes:
  "queue_inv R C P r \<Longrightarrow> zset (view R r) (DelayedKey t) m = Some s \<Longrightarrow>
   \<exists>e. written C m e \<and> EnvType e = t \<and> P e"
  by (simp add: queue_inv_def)

lemma inflight_decodes:
  "queue_inv R C P r \<Longrightarrow> hash (view R r) (InflightKey wk) f = Some v \<Longrightarrow>
   \<exists>e. written C v e \<and> P e \<and> f = UUID_String C (EnvID e)"
  by (simp add: queue_inv_def)

text \<open>Every command the code sends keeps the invariant.\<close>

lemma inv_ZADD_ready:
  assumes "queue_inv R C P r" and "written C body e" and "P e"
  shows "queue_inv R C P
    (ZADD R (QueueKey (EnvType e)) (priorityScore (EnvPriority e) (EnqueuedAt e)) body r)"
  using assms by (auto simp: queue_inv_def)

lemma inv_ZADD_delayed:
  assumes "queue_inv R C P r" and "written C body e" and "P e"
  shows "queue_inv R C P (ZADD R (DelayedKey (EnvType e)) s body r)"
  using assms by (auto simp: queue_inv_def)

lemma inv_ZREM: "queue_inv R C P r \<Longrightarrow> queue_inv R C P (ZREM R (DelayedKey t) m r)"
  by (auto simp: queue_inv_def)

lemma inv_HSET:
  assumes "queue_inv R C P r" and "written C v e" and "P e"
  shows "queue_inv R C P (HSET R (InflightKey wk) (UUID_String C (EnvID e)) v r)"
  using assms by (auto simp: queue_inv_def)

lemma inv_HDEL: "queue_inv R C P r \<Longrightarrow> queue_inv R C P (HDEL R (InflightKey wk) f r)"
  by (auto simp: queue_inv_def)

lemma inv_DEL: "queue_inv R C P r \<Longrightarrow> queue_inv R C P (DEL R (InflightKey wk) r)"
  by (auto simp: queue_inv_def)

lemma inv_RPUSH: "queue_inv R C P r \<Longrightarrow> queue_inv R C P (RPUSH R (DLQKey t) v r)"
  by (auto simp: queue_inv_def)

lemma inv_SET: "queue_inv R C P r \<Longrightarrow> queue_inv R C P (SET R now (HeartbeatKey wk) v ttl r)"
  by (subst queue_inv_def, subst (1 2 3) view_SET_strs) (auto simp: queue_inv_def)

lemma inv_PUBLISH: "queue_inv R C P r \<Longrightarrow> queue_inv R C P (PUBLISH R ch v r)"
  by (auto simp: queue_inv_def)

lemma ZPOPMIN_cases:
  obtains (empty) r1 where "zset (view R r) (QueueKey t) = Map.empty"
      "ZPOPMIN R (QueueKey t) r = (None, r1)" "view R r1 = view R r"
  | (popped) m s r1 where "ZPOPMIN R (QueueKey t) r = (Some (m, s), r1)"
      "zset (view R r) (QueueKey t) m = Some s"
      "\<forall>m' s'. zset (view R r) (QueueKey t) m' = Some s' \<longrightarrow> (s, m) \<le> (s', m')"
      "view R r1 = (view R r)\<lparr>zset := (zset (view R r))
         (QueueKey t := (zset (view R r) (QueueKey t))(m := None))\<rparr>"
proof (cases "zset (view R r) (QueueKey t) = Map.empty")
  case True
  show ?thesis
    using ZPOPMIN_empty [of "QueueKey t" r] True empty by (metis key_families(1) prod.collapse)
next
  case False
  show ?thesis
    using ZPOPMIN_min [of "QueueKey t" r] False popped by (metis key_families(1) prod.collapse)
qed

lemma inv_leaseScript:
  assumes "queue_inv R C P r"
  shows "queue_inv R C P (snd (leaseScript R C (QueueKey t) (InflightKey wk) r))"
proof (cases rule: ZPOPMIN_cases [of r t])
  case (empty r1)
  with assms show ?thesis by (simp add: leaseScript_def queue_inv_def)
next
  case (popped m s r1)
  with assms obtain e where e: "written C m e" "P e" by (blast dest: ready_decodes)
  have "queue_inv R C P r1" using assms popped by (auto simp: queue_inv_def)
  with e popped(1) show ?thesis
    by (simp add: leaseScript_def writtenD inv_HSET)
qed

lemma inv_promote:
  assumes "queue_inv R C P r" and "task_cond P" and "int64_range nowMs"
    and "promote_cmd R C t nowMs m = Some c" and "zset (view R r0) (DelayedKey t) m = Some s"
    and "queue_inv R C P r0"
  shows "queue_inv R C P (c r)"
proof -
  from assms(5,6) obtain e where w: "written C m e" and "P e" by (blast dest: delayed_decodes)
  note e = writtenD(1) [OF w] this(2)
  let ?e = "e\<lparr>EnqueuedAt := nowMs\<rparr>"
  from writtenD(3) [OF w] assms(3) have "env_wf C ?e" by (simp add: env_wf_def)
  then obtain body where b: "marshal C ?e = Some body" "written C body (compacted C ?e)"
    by (rule marshal_wf)
  have "P (compacted C ?e)" using e(2) assms(2) by (simp add: task_cond_def compacted_def)
  with b(2) assms(1) have "queue_inv R C P (ZADD R (QueueKey (EnvType e))
      (priorityScore (EnvPriority e) nowMs) body (ZREM R (DelayedKey t) m r))"
    using inv_ZADD_ready [OF inv_ZREM] by fastforce
  with assms(4) e b(1) show ?thesis by (auto simp: promote_cmd_def)
qed

text \<open>Every operation keeps the invariant, whatever the network does.\<close>

lemma Enqueue_inv:
  assumes "queue_inv R C P (rds w)" and "task_cond P" and "P env" and "env_wf C env"
    and "int64_range (UnixMilli (clk w))"
  shows "queue_inv R C P (rds (snd (Enqueue R C env w)))"
proof -
  define env1 where "env1 = (if EnqueuedAt env = 0 then env\<lparr>EnqueuedAt := UnixMilli (clk w)\<rparr> else env)"
  have "env_wf C env1" using assms(4,5) by (simp add: env1_def env_wf_def)
  then obtain body where b: "marshal C env1 = Some body" "written C body (compacted C env1)"
    by (rule marshal_wf)
  have "P (compacted C env1)" using assms(2,3) by (simp add: task_cond_def compacted_def env1_def)
  with b(2) assms(1) have "queue_inv R C P (ZADD R (QueueKey (EnvType env1))
      (priorityScore (EnvPriority env1) (EnqueuedAt env1)) body (rds w))"
    using inv_ZADD_ready by fastforce
  with assms(1) b(1) show ?thesis
    unfolding Enqueue_def Let_def env1_def [symmetric] by (simp add: rcall_keeps)
qed

lemma EnqueueDelayed_inv:
  assumes "queue_inv R C P (rds w)" and "task_cond P" and "P env" and "env_wf C env"
  shows "queue_inv R C P (rds (snd (EnqueueDelayed R C env at w)))"
proof -
  from assms(4) obtain body
    where b: "marshal C env = Some body" "written C body (compacted C env)"
    by (rule marshal_wf)
  have "P (compacted C env)" using assms(2,3) by (simp add: task_cond_def compacted_def)
  with b(2) assms(1)
  have "queue_inv R C P (ZADD R (DelayedKey (EnvType env)) (f64 (UnixMilli at)) body (rds w))"
    using inv_ZADD_delayed by fastforce
  with assms(1) b(1) show ?thesis by (simp add: EnqueueDelayed_def rcall_keeps)
qed

lemma Lease_inv: "queue_inv R C P (rds w) \<Longrightarrow> queue_inv R C P (rds (snd (Lease R C t wk w)))"
  by (simp add: Lease_snd rcall_keeps inv_leaseScript)

lemma LeaseAny_inv:
  "queue_inv R C P (rds w) \<Longrightarrow> queue_inv R C P (rds (snd (LeaseAny R C ts wk w)))"
proof (induction ts arbitrary: w)
  case (Cons t ts)
  have "queue_inv R C P (rds (snd (Lease R C t wk w)))" using Cons.prems by (rule Lease_inv)
  with Cons.IH show ?case by (auto split: prod.splits sum.splits)
qed simp

lemma Ack_inv: "queue_inv R C P (rds w) \<Longrightarrow> queue_inv R C P (rds (snd (Ack R C wk i w)))"
  by (simp add: Ack_def rcall_keeps inv_HDEL)

lemma Nack_inv: "queue_inv R C P (rds w) \<Longrightarrow> queue_inv R C P (rds (snd (Nack R C wk i w)))"
  by (simp add: Nack_def rcall_keeps inv_HDEL)

lemma DeadLetter_inv:
  "queue_inv R C P (rds w) \<Longrightarrow> queue_inv R C P (rds (snd (DeadLetter R C env reason w)))"
  by (simp add: DeadLetter_def rcall_keeps inv_RPUSH split: option.splits)

lemma Heartbeat_inv:
  "queue_inv R C P (rds w) \<Longrightarrow> queue_inv R C P (rds (snd (Heartbeat R wk ttl w)))"
  by (simp add: Heartbeat_def Let_def rcall_keeps inv_SET)

lemma Publish_inv: "queue_inv R C P (rds w) \<Longrightarrow> queue_inv R C P (rds (snd (Publish R C ev w)))"
  by (simp add: Publish_def rcall_keeps inv_PUBLISH split: option.splits)

lemma IsAlive_rds [simp]: "rds (snd (IsAlive R wk w)) = rds w"
  by (auto simp: IsAlive_def dest: rcall_readD split: prod.splits sum.splits)

lemma ReclaimInflight_inv:
  "queue_inv R C P (rds w) \<Longrightarrow> queue_inv R C P (rds (snd (ReclaimInflight R C wk w)))"
  by (auto simp: ReclaimInflight_def Let_def rcall_keeps inv_DEL dest: rcall_readD
      split: prod.splits sum.splits)

lemma fold_promote_inv:
  assumes "queue_inv R C P r0" and "task_cond P" and "int64_range nowMs"
    and "\<forall>m\<in>set ms. \<exists>s. zset (view R r0) (DelayedKey t) m = Some s"
  shows "queue_inv R C P r \<Longrightarrow>
    queue_inv R C P (fold (\<lambda>c. c) (List.map_filter (promote_cmd R C t nowMs) ms) r)"
  using assms(4)
proof (induction ms arbitrary: r)
  case (Cons m ms)
  then obtain s where "zset (view R r0) (DelayedKey t) m = Some s" by auto
  with Cons assms(1-3) show ?case
    by (auto simp: map_filter_simps split: option.splits intro: inv_promote)
qed (simp add: map_filter_simps)

lemma range_in_zset:
  "zkey k \<Longrightarrow> m \<in> set (ZRANGEBYSCORE R k mx off cnt r) \<Longrightarrow>
   \<exists>s\<le>mx. zset (view R r) k m = Some s"
proof -
  assume "zkey k" and m: "m \<in> set (ZRANGEBYSCORE R k mx off cnt r)"
  from ZRANGEBYSCORE_range [OF this(1), of mx r off cnt] obtain xs
    where "set xs = {m. \<exists>s\<le>mx. zset (view R r) k m = Some s}"
      and "ZRANGEBYSCORE R k mx off cnt r = take cnt (drop off xs)" by blast
  with m show ?thesis by (auto dest: in_set_takeD in_set_dropD)
qed

lemma PromoteDelayed_inv:
  assumes "queue_inv R C P (rds w)" and "task_cond P" and "int64_range (UnixMilli now)"
  shows "queue_inv R C P (rds (snd (PromoteDelayed R C t now w)))"
proof -
  have *: "queue_inv R C P (rds w2)"
    if "rcall (\<lambda>r. (ZRANGEBYSCORE R (DelayedKey t) (f64 (UnixMilli now)) 0 256 r, r)) w = (Inr ms, w1)"
      and "rcall (\<lambda>r. ((), fold (\<lambda>c. c)
        (List.map_filter (promote_cmd R C t (UnixMilli now)) ms) r)) w1 = (res, w2)" for ms res w1 w2
  proof -
    from that(1) have w1: "rds w1 = rds w"
      and "ms = ZRANGEBYSCORE R (DelayedKey t) (f64 (UnixMilli now)) 0 256 (rds w)"
      by (auto dest: rcall_readInr)
    then have "\<forall>m\<in>set ms. \<exists>s. zset (view R (rds w)) (DelayedKey t) m = Some s"
      by (blast dest: range_in_zset [rotated] intro: key_families)
    from fold_promote_inv [OF assms this assms(1)] w1 assms(1) show ?thesis
      using rcall_keepsD [OF that(2), of "queue_inv R C P"] by simp
  qed
  show ?thesis
    using assms(1) by (auto simp: PromoteDelayed_def Let_def dest: rcall_readD *
        split: prod.splits sum.splits)
qed

lemma Enqueue_view:
  fixes env w
  defines "env1 \<equiv> (if EnqueuedAt env = 0 then env\<lparr>EnqueuedAt := UnixMilli (clk w)\<rparr> else env)"
  assumes "rok w" and "marshal C env1 = Some body"
  shows "fst (Enqueue R C env w) = Inr ()"
    and "view R (rds (snd (Enqueue R C env w))) = (view R (rds w))\<lparr>zset :=
      (zset (view R (rds w)))(QueueKey (EnvType env) := (ready R w (EnvType env))
        (body \<mapsto> priorityScore (EnvPriority env) (EnqueuedAt env1)))\<rparr>"
  using assms by (auto simp: Enqueue_def Let_def split: if_splits)

lemma EnqueueDelayed_view:
  assumes "rok w" and "marshal C env = Some body"
  shows "fst (EnqueueDelayed R C env at w) = Inr ()"
    and "view R (rds (snd (EnqueueDelayed R C env at w))) = (view R (rds w))\<lparr>zset :=
      (zset (view R (rds w)))(DelayedKey (EnvType env) := (delayed R w (EnvType env))
        (body \<mapsto> f64 (UnixMilli at)))\<rparr>"
  using assms by (simp_all add: EnqueueDelayed_def)

lemma Ack_view:
  assumes "rok w"
  shows "fst (Ack R C wk i w) = Inr ()"
    and "view R (rds (snd (Ack R C wk i w))) = (view R (rds w))\<lparr>hash :=
      (hash (view R (rds w)))(InflightKey wk := (inflight R w wk)(UUID_String C i := None))\<rparr>"
  using assms by (simp_all add: Ack_def)

lemma Nack_view:
  assumes "rok w"
  shows "fst (Nack R C wk i w) = Inr ()"
    and "view R (rds (snd (Nack R C wk i w))) = (view R (rds w))\<lparr>hash :=
      (hash (view R (rds w)))(InflightKey wk := (inflight R w wk)(UUID_String C i := None))\<rparr>"
  using assms by (simp_all add: Nack_def)

lemma Lease_empty:
  assumes "rok w" and "ready R w t = Map.empty"
  shows "fst (Lease R C t wk w) = Inl ErrEmpty"
    and "view R (rds (snd (Lease R C t wk w))) = view R (rds w)"
proof -
  obtain r1 where p: "ZPOPMIN R (QueueKey t) (rds w) = (None, r1)" "view R r1 = view R (rds w)"
    using assms(2) by (cases rule: ZPOPMIN_cases [of "rds w" t]) auto
  then have "leaseScript R C (QueueKey t) (InflightKey wk) (rds w) = (Inr None, r1)"
    by (simp add: leaseScript_def)
  then have l: "fst (rcall (leaseScript R C (QueueKey t) (InflightKey wk)) w) = Inr (Inr None)"
    and v: "rds (snd (rcall (leaseScript R C (QueueKey t) (InflightKey wk)) w)) = r1"
    using assms(1) by simp_all
  show "fst (Lease R C t wk w) = Inl ErrEmpty"
    using l by (auto simp: Lease_def split: prod.splits)
  show "view R (rds (snd (Lease R C t wk w))) = view R (rds w)"
    using v p(2) by (simp add: Lease_snd)
qed

text \<open>What one run of the lease script does to the keyspace when there is work.\<close>

lemma leaseScript_pops:
  assumes "queue_inv R C P r" and "zset (view R r) (QueueKey t) \<noteq> Map.empty"
  shows "\<exists>m s e. zset (view R r) (QueueKey t) m = Some s \<and>
    (\<forall>m' s'. zset (view R r) (QueueKey t) m' = Some s' \<longrightarrow> (s, m) \<le> (s', m')) \<and>
    written C m e \<and> EnvType e = t \<and> P e \<and>
    s = priorityScore (EnvPriority e) (EnqueuedAt e) \<and>
    fst (leaseScript R C (QueueKey t) (InflightKey wk) r) = Inr (Some m) \<and>
    view R (snd (leaseScript R C (QueueKey t) (InflightKey wk) r)) = (view R r)\<lparr>
      zset := (zset (view R r))(QueueKey t := (zset (view R r) (QueueKey t))(m := None)),
      hash := (hash (view R r))(InflightKey wk :=
        (hash (view R r) (InflightKey wk))(UUID_String C (EnvID e) \<mapsto> m))\<rparr>"
proof (cases rule: ZPOPMIN_cases [of r t])
  case (empty r1)
  with assms(2) show ?thesis by simp
next
  case (popped m s r1)
  from ready_decodes [OF assms(1) popped(2)] obtain e
    where e: "written C m e" "EnvType e = t" "P e"
      "s = priorityScore (EnvPriority e) (EnqueuedAt e)" by blast
  with popped show ?thesis
    by (intro exI [of _ m] exI [of _ s] exI [of _ e])
      (simp add: leaseScript_def writtenD)
qed

lemma Lease_pops:
  assumes "rok w" and "queue_inv R C P (rds w)" and "ready R w t \<noteq> Map.empty"
  shows "\<exists>m s e. ready R w t m = Some s \<and>
    (\<forall>m' s'. ready R w t m' = Some s' \<longrightarrow> (s, m) \<le> (s', m')) \<and>
    written C m e \<and> EnvType e = t \<and> P e \<and>
    s = priorityScore (EnvPriority e) (EnqueuedAt e) \<and>
    fst (Lease R C t wk w) = Inr e \<and>
    view R (rds (snd (Lease R C t wk w))) = (view R (rds w))\<lparr>
      zset := (zset (view R (rds w)))(QueueKey t := (ready R w t)(m := None)),
      hash := (hash (view R (rds w)))(InflightKey wk :=
        (inflight R w wk)(UUID_String C (EnvID e) \<mapsto> m))\<rparr>"
proof -
  let ?f = "leaseScript R C (QueueKey t) (InflightKey wk)"
  have r: "fst (rcall ?f w) = Inr (fst (?f (rds w)))" "rds (snd (rcall ?f w)) = snd (?f (rds w))"
    using assms(1) by simp_all
  have "fst (Lease R C t wk w) = Inr e"
    if "fst (?f (rds w)) = Inr (Some m)" "written C m e" for m e
    using that r(1) by (auto simp: Lease_def writtenD split: prod.splits)
  with leaseScript_pops [OF assms(2,3), of wk] show ?thesis
    unfolding Lease_snd r(2) by blast
qed

text \<open>
  Whatever the network does, a lease takes no member out of Redis: it stays in the ready queue
  or is in flight for the worker.
\<close>

lemma Lease_keeps_members:
  assumes "queue_inv R C P (rds w)" and "ready R w t m = Some s"
  shows "ready R (snd (Lease R C t wk w)) t m = Some s \<or>
    (\<exists>e. written C m e \<and>
       inflight R (snd (Lease R C t wk w)) wk (UUID_String C (EnvID e)) = Some m)"
proof -
  from assms(2) have "ready R w t \<noteq> Map.empty" by auto
  from leaseScript_pops [OF assms(1) this, of wk] obtain m' e'
    where "written C m' e'"
    "view R (snd (leaseScript R C (QueueKey t) (InflightKey wk) (rds w))) = (view R (rds w))\<lparr>
      zset := (zset (view R (rds w)))(QueueKey t := (ready R w t)(m' := None)),
      hash := (hash (view R (rds w)))(InflightKey wk :=
        (inflight R w wk)(UUID_String C (EnvID e') \<mapsto> m'))\<rparr>" by blast
  with assms(2) show ?thesis
    using rcall_rds [of "leaseScript R C (QueueKey t) (InflightKey wk)" w]
    by (cases "m = m'") (auto simp: Lease_snd)
qed

lemma LeaseAny_empty:
  assumes "rok w" and "\<forall>t\<in>set ts. ready R w t = Map.empty"
  shows "fst (LeaseAny R C ts wk w) = Inl ErrEmpty \<and>
    view R (rds (snd (LeaseAny R C ts wk w))) = view R (rds w)"
  using assms
proof (induction ts arbitrary: w)
  case (Cons t ts)
  then have "ready R w t = Map.empty" by simp
  from Lease_empty [OF Cons.prems(1) this, of wk] Cons.prems queue_rok(3) [OF Cons.prems(1), of R C t wk]
  have "fst (LeaseAny R C ts wk (snd (Lease R C t wk w))) = Inl ErrEmpty \<and>
      view R (rds (snd (LeaseAny R C ts wk (snd (Lease R C t wk w))))) = view R (rds w)"
    using Cons.IH [of "snd (Lease R C t wk w)"] by simp
  with Lease_empty(1) [OF Cons.prems(1) \<open>ready R w t = Map.empty\<close>, of wk] show ?case
    by (cases "Lease R C t wk w") auto
qed simp

text \<open>The first type with work is served, after empty attempts on the types before it.\<close>

lemma LeaseAny_first:
  assumes "rok w" and "\<forall>t\<in>set ts. ready R w t = Map.empty" and "ready R w t \<noteq> Map.empty"
    and "queue_inv R C P (rds w)"
  shows "\<exists>w1. rok w1 \<and> view R (rds w1) = view R (rds w) \<and>
    LeaseAny R C (ts @ t # us) wk w = Lease R C t wk w1"
  using assms
proof (induction ts arbitrary: w)
  case Nil
  from Lease_pops [OF Nil(1,4,3), of wk] obtain e where "fst (Lease R C t wk w) = Inr e" by blast
  then show ?case using Nil(1) by (intro exI [of _ w]) (cases "Lease R C t wk w", auto)
next
  case (Cons t' ts)
  let ?w = "snd (Lease R C t' wk w)"
  from Cons.prems have e: "ready R w t' = Map.empty" by simp
  note L = Lease_empty [OF Cons.prems(1) e, of wk]
  have "queue_inv R C P (rds ?w)" using Cons.prems(4) by (rule Lease_inv)
  with Cons.IH [of ?w] Cons.prems L(2) obtain w1 where
    "rok w1" "view R (rds w1) = view R (rds w)" "LeaseAny R C (ts @ t # us) wk ?w = Lease R C t wk w1"
    by auto
  with L(1) show ?case by (intro exI [of _ w1]) (cases "Lease R C t' wk w", auto)
qed

lemma DeadLetter_view:
  assumes "rok w" and "marshal_dead C env reason (UnixMilli (clk w)) = Some body"
  shows "fst (DeadLetter R C env reason w) = Inr ()"
    and "view R (rds (snd (DeadLetter R C env reason w))) = (view R (rds w))\<lparr>rlist :=
      (rlist (view R (rds w)))(DLQKey (EnvType env) := dlq R w (EnvType env) @ [body])\<rparr>"
  using assms by (simp_all add: DeadLetter_def)

text \<open>Reclaiming takes every envelope of the worker and leaves its hash empty.\<close>

lemma ReclaimInflight_view:
  assumes "rok w" and "queue_inv R C P (rds w)"
  shows "\<exists>envs. fst (ReclaimInflight R C wk w) = Inr envs \<and>
      set envs = {e. \<exists>f v. inflight R w wk f = Some v \<and> unmarshal C v = Some e} \<and>
      distinct (map EnvID envs)"
    and "view R (rds (snd (ReclaimInflight R C wk w))) = (view R (rds w))\<lparr>hash :=
      (hash (view R (rds w)))(InflightKey wk := Map.empty)\<rparr>"
proof -
  let ?all = "HGETALL R (InflightKey wk) (rds w)"
  let ?get = "rcall (\<lambda>r. (HGETALL R (InflightKey wk) r, r)) w"
  have all: "distinct (map fst ?all)" "map_of ?all = inflight R w wk"
    using HGETALL_map [of "InflightKey wk" "rds w"] by simp_all
  have get: "fst ?get = Inr ?all" "rds (snd ?get) = rds w" "rok (snd ?get)"
    using assms(1) by simp_all
  let ?envs = "List.map_filter (\<lambda>(f, v). unmarshal C v) ?all"
  have mem: "(f, v) \<in> set ?all \<longleftrightarrow> inflight R w wk f = Some v" for f v
    using map_of_eq_Some_iff [OF all(1), of f v] all(2) by simp
  have "set ?envs = {e. \<exists>f v. inflight R w wk f = Some v \<and> unmarshal C v = Some e}"
    unfolding set_map_filter mem [symmetric] by force
  moreover have "distinct (map EnvID ?envs)"
  proof -
    have "map (\<lambda>e. UUID_String C (EnvID e)) ?envs = map fst ?all"
      if "\<forall>(f, v)\<in>set fvs. \<exists>e. written C v e \<and> f = UUID_String C (EnvID e)"
        "fvs = ?all" for fvs
      using that(1) unfolding that(2) [symmetric]
      by (induction fvs) (auto simp: map_filter_simps writtenD)
    then have "map (\<lambda>e. UUID_String C (EnvID e)) ?envs = map fst ?all"
      using inflight_decodes [OF assms(2)] by (fastforce simp: mem)
    then have "distinct (map (UUID_String C) (map EnvID ?envs))"
      using all(1) by (simp add: comp_def)
    then show ?thesis by (rule distinct_map [THEN iffD1, THEN conjunct1])
  qed
  moreover have "fst (ReclaimInflight R C wk w) = Inr ?envs"
    using get(1) by (auto simp: ReclaimInflight_def Let_def split: prod.splits)
  ultimately show "\<exists>envs. fst (ReclaimInflight R C wk w) = Inr envs \<and>
      set envs = {e. \<exists>f v. inflight R w wk f = Some v \<and> unmarshal C v = Some e} \<and>
      distinct (map EnvID envs)" by blast
  show "view R (rds (snd (ReclaimInflight R C wk w))) = (view R (rds w))\<lparr>hash :=
      (hash (view R (rds w)))(InflightKey wk := Map.empty)\<rparr>"
  proof (cases "?all = []")
    case True
    with all(2) have "inflight R w wk = Map.empty" by simp
    then have "(hash (view R (rds w)))(InflightKey wk := Map.empty) = hash (view R (rds w))"
      by (rule fun_upd_idem)
    with True get show ?thesis
      by (cases ?get) (simp add: ReclaimInflight_def Let_def)
  next
    case False
    with get show ?thesis by (cases ?get) (simp add: ReclaimInflight_def Let_def)
  qed
qed

text \<open>A heartbeat keeps the worker alive for its TTL, and no longer.\<close>

lemma Heartbeat_view:
  assumes "rok w" and "1000000 \<le> ttl"
  shows "fst (Heartbeat R wk ttl w) = Inr ()"
    and "view R (rds (snd (Heartbeat R wk ttl w))) = (view R (rds w))\<lparr>strs := (strs (view R (rds w)))
      (HeartbeatKey wk \<mapsto> (show_int (UnixMilli (clk w)), Some (UnixMilli (clk w) + ttl div 1000000)))\<rparr>"
  using assms by (simp_all add: Heartbeat_def Let_def)

lemma IsAlive_result:
  assumes "rok w"
  shows "fst (IsAlive R wk w) =
    Inr (key_alive (UnixMilli (clk w)) (strs (view R (rds w)) (HeartbeatKey wk)))"
proof -
  have "fst (rcall (\<lambda>r. (EXISTS R (UnixMilli (clk w)) (HeartbeatKey wk) r, r)) w) =
      Inr (EXISTS R (UnixMilli (clk w)) (HeartbeatKey wk) (rds w))"
    using assms by simp
  then show ?thesis by (auto simp: IsAlive_def EXISTS_alive split: prod.splits if_splits)
qed

text \<open>Promotion: what becomes of one due member, and of all of them.\<close>

lemma fold_promote_view:
  assumes "\<forall>m\<in>set ms. \<exists>e. written C m e \<and> EnvType e = t" and "int64_range nowMs"
  shows "view R (fold (\<lambda>c. c) (List.map_filter (promote_cmd R C t nowMs) ms) r) = (view R r)\<lparr>zset :=
    (zset (view R r))(DelayedKey t := zset (view R r) (DelayedKey t) |` (- set ms),
      QueueKey t := (zset (view R r) (QueueKey t))
        (map (\<lambda>m. the (marshal C (promoted C nowMs m))) ms [\<mapsto>]
         map (\<lambda>m. priorityScore (EnvPriority (promoted C nowMs m)) nowMs) ms))\<rparr>"
  using assms(1)
proof (induction ms arbitrary: r)
  case Nil
  have "(zset (view R r))(DelayedKey t := zset (view R r) (DelayedKey t)) = zset (view R r)"
    by (rule fun_upd_triv)
  then show ?case by (simp add: map_filter_simps restrict_map_def)
next
  case (Cons m ms)
  then obtain e where w: "written C m e" and "EnvType e = t" by auto
  note e = writtenD(1) [OF w] this(2)
  have "env_wf C (e\<lparr>EnqueuedAt := nowMs\<rparr>)"
    using assms(2) writtenD(3) [OF w] by (simp add: env_wf_def)
  then obtain body where b: "marshal C (e\<lparr>EnqueuedAt := nowMs\<rparr>) = Some body" by (rule marshal_wf)
  have c: "promote_cmd R C t nowMs m = Some (\<lambda>r. ZADD R (QueueKey t)
      (priorityScore (EnvPriority e) nowMs) body (ZREM R (DelayedKey t) m r))"
    using e b by (simp add: promote_cmd_def)
  have p: "the (marshal C (promoted C nowMs m)) = body" "EnvPriority (promoted C nowMs m) = EnvPriority e"
    using e b by (simp_all add: promoted_def)
  have d: "(z(m := None)) |` (- set ms) = z |` (- set (m # ms))" for z :: "string \<rightharpoonup> int"
    by (auto simp: restrict_map_def fun_eq_iff)
  define r1 where "r1 = ZADD R (QueueKey t) (priorityScore (EnvPriority e) nowMs) body
      (ZREM R (DelayedKey t) m r)"
  have v: "view R r1 = (view R r)\<lparr>zset := (zset (view R r))
      (DelayedKey t := (zset (view R r) (DelayedKey t))(m := None), QueueKey t :=
        (zset (view R r) (QueueKey t))(body \<mapsto> priorityScore (EnvPriority e) nowMs))\<rparr>"
    by (simp add: r1_def)
  have "fold (\<lambda>c. c) (List.map_filter (promote_cmd R C t nowMs) (m # ms)) r =
      fold (\<lambda>c. c) (List.map_filter (promote_cmd R C t nowMs) ms) r1"
    by (simp add: map_filter_simps c r1_def)
  moreover have "view R (fold (\<lambda>c. c) (List.map_filter (promote_cmd R C t nowMs) ms) r1) =
    (view R r1)\<lparr>zset := (zset (view R r1))
      (DelayedKey t := zset (view R r1) (DelayedKey t) |` (- set ms),
      QueueKey t := (zset (view R r1) (QueueKey t))
        (map (\<lambda>m. the (marshal C (promoted C nowMs m))) ms [\<mapsto>]
         map (\<lambda>m. priorityScore (EnvPriority (promoted C nowMs m)) nowMs) ms))\<rparr>"
    by (rule Cons.IH) (use Cons.prems in simp)
  moreover have "zset (view R r1) (DelayedKey t) = (zset (view R r) (DelayedKey t))(m := None)"
    and "zset (view R r1) (QueueKey t) =
      (zset (view R r) (QueueKey t))(body \<mapsto> priorityScore (EnvPriority e) nowMs)"
    by (simp_all add: v)
  moreover have "(view R r1)\<lparr>zset := (zset (view R r1))(DelayedKey t := a, QueueKey t := b)\<rparr> =
      (view R r)\<lparr>zset := (zset (view R r))(DelayedKey t := a, QueueKey t := b)\<rparr>" for a b
    by (simp add: v fun_eq_iff)
  ultimately show ?case by (simp only: p d map_upds_Cons list.map)
qed

text \<open>The members \<open>PromoteDelayed\<close> asks for: the earliest 256 of those that are due.\<close>

lemma due_members:
  obtains ms where "ZRANGEBYSCORE R (DelayedKey t) mx 0 256 r = ms" and "distinct ms"
    and "set ms \<subseteq> {m. \<exists>s\<le>mx. zset (view R r) (DelayedKey t) m = Some s}"
    and "length ms = min 256 (card {m. \<exists>s\<le>mx. zset (view R r) (DelayedKey t) m = Some s})"
    and "\<forall>m\<in>set ms. \<forall>m' s'. zset (view R r) (DelayedKey t) m' = Some s' \<and> m' \<notin> set ms \<and> s' \<le> mx \<longrightarrow>
      (the (zset (view R r) (DelayedKey t) m), m) \<le> (s', m')"
proof -
  let ?z = "zset (view R r) (DelayedKey t)"
  from ZRANGEBYSCORE_range [of "DelayedKey t" mx r 0 256] obtain xs
    where xs: "distinct xs" "set xs = {m. \<exists>s\<le>mx. ?z m = Some s}"
      "sorted (map (\<lambda>m. (the (?z m), m)) xs)"
      "ZRANGEBYSCORE R (DelayedKey t) mx 0 256 r = take 256 xs" by auto
  have "(the (?z m), m) \<le> (the (?z m'), m')"
    if "m \<in> set (take 256 xs)" "m' \<in> set xs" "m' \<notin> set (take 256 xs)" for m m'
  proof -
    have "m' \<in> set (drop 256 xs)"
      using that(2,3) append_take_drop_id [of 256 xs] by (metis Un_iff set_append)
    with xs(3) that(1) show ?thesis
      using sorted_append [of "map (\<lambda>m. (the (?z m), m)) (take 256 xs)"
          "map (\<lambda>m. (the (?z m), m)) (drop 256 xs)"]
      by (simp add: take_map drop_map flip: map_append) 
  qed
  then have early: "\<forall>m\<in>set (take 256 xs). \<forall>m' s'. ?z m' = Some s' \<and> m' \<notin> set (take 256 xs) \<and>
      s' \<le> mx \<longrightarrow> (the (?z m), m) \<le> (s', m')"
    using xs(2) by fastforce
  show ?thesis
  proof (rule that [OF xs(4)])
    show "distinct (take 256 xs)" using xs(1) by simp
    show "set (take 256 xs) \<subseteq> {m. \<exists>s\<le>mx. ?z m = Some s}"
      using set_take_subset [of 256 xs] xs(2) by simp
    show "length (take 256 xs) = min 256 (card {m. \<exists>s\<le>mx. ?z m = Some s})"
      using distinct_card [OF xs(1)] xs(2) by simp
  qed (rule early)
qed

lemma PromoteDelayed_view:
  fixes w t now
  defines "due \<equiv> {m. \<exists>s\<le>f64 (UnixMilli now). delayed R w t m = Some s}"
  assumes "rok w" and "queue_inv R C P (rds w)" and "int64_range (UnixMilli now)"
  shows "\<exists>ms. distinct ms \<and> set ms \<subseteq> due \<and> length ms = min 256 (card due) \<and>
    (\<forall>m\<in>set ms. \<forall>m' s'. delayed R w t m' = Some s' \<and> m' \<notin> set ms \<and> m' \<in> due \<longrightarrow>
       (the (delayed R w t m), m) \<le> (s', m')) \<and>
    fst (PromoteDelayed R C t now w) = Inr (length ms) \<and>
    view R (rds (snd (PromoteDelayed R C t now w))) = (view R (rds w))\<lparr>zset :=
      (zset (view R (rds w)))(DelayedKey t := delayed R w t |` (- set ms),
        QueueKey t := (ready R w t)
          (map (\<lambda>m. the (marshal C (promoted C (UnixMilli now) m))) ms [\<mapsto>]
           map (\<lambda>m. priorityScore (EnvPriority (promoted C (UnixMilli now) m)) (UnixMilli now)) ms))\<rparr>"
proof -
  let ?n = "UnixMilli now"
  obtain ms where ms: "ZRANGEBYSCORE R (DelayedKey t) (f64 ?n) 0 256 (rds w) = ms" "distinct ms"
      "set ms \<subseteq> due" "length ms = min 256 (card due)"
      and early: "\<forall>m\<in>set ms. \<forall>m' s'. delayed R w t m' = Some s' \<and> m' \<notin> set ms \<and> s' \<le> f64 ?n \<longrightarrow>
        (the (delayed R w t m), m) \<le> (s', m')"
    unfolding due_def by (rule due_members [of t "f64 ?n" "rds w"])
  let ?get = "rcall (\<lambda>r. (ZRANGEBYSCORE R (DelayedKey t) (f64 ?n) 0 256 r, r)) w"
  have get: "fst ?get = Inr ms" "rds (snd ?get) = rds w" "rok (snd ?get)"
    using assms(2) ms(1) by simp_all
  have dec: "\<forall>m\<in>set ms. \<exists>e. written C m e \<and> EnvType e = t"
    using ms(3) delayed_decodes [OF assms(3)] by (fastforce simp: due_def)
  have some: "promote_cmd R C t ?n m \<noteq> None" if "m \<in> set ms" for m
  proof -
    from dec that obtain e where e: "written C m e" by blast
    then have "env_wf C (e\<lparr>EnqueuedAt := ?n\<rparr>)"
      using assms(4) writtenD(3) [OF e] by (simp add: env_wf_def)
    with writtenD(1) [OF e] show ?thesis by (auto simp: promote_cmd_def elim: marshal_wf)
  qed
  have null: "List.map_filter (promote_cmd R C t ?n) ms = [] \<longleftrightarrow> ms = []"
    using some unfolding set_empty [symmetric] set_map_filter by fastforce
  have run: "fst (PromoteDelayed R C t now w) = Inr (length ms)"
    "rds (snd (PromoteDelayed R C t now w)) =
       fold (\<lambda>c. c) (List.map_filter (promote_cmd R C t ?n) ms) (rds w)"
    using get null
    by (cases ?get, cases "ms = []"; auto simp: PromoteDelayed_def Let_def map_filter_simps rcall_okInl
        split: prod.splits sum.splits dest: rcall_Inr)+
  have "\<forall>m\<in>set ms. \<forall>m' s'. delayed R w t m' = Some s' \<and> m' \<notin> set ms \<and> m' \<in> due \<longrightarrow>
      (the (delayed R w t m), m) \<le> (s', m')"
  proof (intro ballI allI impI, elim conjE)
    fix m m' s'
    assume "m \<in> set ms" "delayed R w t m' = Some s'" "m' \<notin> set ms" "m' \<in> due"
    moreover from this have "s' \<le> f64 ?n" by (auto simp: due_def)
    ultimately show "(the (delayed R w t m), m) \<le> (s', m')" using early by blast
  qed
  with ms(2-4) run(1) fold_promote_view [OF dec assms(4), of "rds w"] show ?thesis
    unfolding run(2) by blast
qed

lemma scan_loop_pages:
  assumes "rok w" and "scan_pages R pat 100 n c (rds w) = Some ks"
  shows "\<exists>w1. scan_loop R pat n c w = Some (Inr ks, w1) \<and> rds w1 = rds w"
  using assms
proof (induction n arbitrary: c ks w)
  case (Suc n)
  let ?get = "rcall (\<lambda>r. (SCAN R c pat 100 r, r)) w"
  obtain page c' where p: "SCAN R c pat 100 (rds w) = (page, c')" by fastforce
  have get: "fst ?get = Inr (page, c')" "rds (snd ?get) = rds w" "rok (snd ?get)"
    using Suc.prems(1) p by simp_all
  show ?case
  proof (cases "c' = 0")
    case True
    with Suc.prems(2) p get show ?thesis by (cases ?get) simp
  next
    case False
    with Suc.prems(2) p obtain ks' where ks: "ks = page @ ks'"
      "scan_pages R pat 100 n c' (rds (snd ?get)) = Some ks'"
      unfolding get(2) by auto
    from Suc.IH [OF get(3) ks(2)] False get ks(1) show ?thesis
      by (cases ?get) auto
  qed
qed simp

text \<open>With enough fuel the type listing returns, and it lists exactly the types with ready work.\<close>

lemma ListTypes_complete:
  assumes "rok w"
  shows "\<exists>fuel types w1. ListTypes R fuel w = Some (Inr types, w1) \<and> distinct types \<and>
    rds w1 = rds w \<and> set types = {t. ready R w t \<noteq> Map.empty}"
proof -
  have "\<exists>n ks. scan_pages R (''queue:'' @ ''*'') 100 n 0 (rds w) = Some ks \<and>
      set ks = {k. prefix ''queue:'' k \<and> zset (view R (rds w)) k \<noteq> Map.empty}"
    by (rule SCAN_complete) simp_all
  then obtain n ks where "scan_pages R (''queue:'' @ ''*'') 100 n 0 (rds w) = Some ks"
    and ks: "set ks = {k. prefix ''queue:'' k \<and> zset (view R (rds w)) k \<noteq> Map.empty}" by blast
  from scan_loop_pages [OF assms this(1)] obtain w1
    where l: "scan_loop R ''queue:*'' n 0 w = Some (Inr ks, w1)" and w1: "rds w1 = rds w"
    by auto
  let ?types = "remdups (map (\<lambda>k. TrimPrefix k ''queue:'') ks)"
  have "set ?types = {t. ready R w t \<noteq> Map.empty}"
  proof -
    have "t \<in> set ?types \<longleftrightarrow> QueueKey t \<in> set ks" for t
      using ks by (force simp: TrimPrefix_def QueueKey_def prefix_def image_iff)
    then show ?thesis using ks by (auto simp: QueueKey_def)
  qed
  with l w1 show ?thesis
    by (intro exI [of _ n] exI [of _ ?types] exI [of _ w1]) (simp add: ListTypes_def)
qed

end

end
