(* ===== verification/Json.thy ===== *)
theory Json
  imports Envelope
begin

section \<open>JSON text: what encoding/json does for the queue\<close>

text \<open>
  The pushdown scanner of \<open>encoding/json\<close> that both checks a text and drives the copying
  of a \<open>json.RawMessage\<close>, the quoting of strings, and the encoding and decoding of the
  struct \<open>Envelope\<close> by its field tags. The codec built from them satisfies the contract
  \<open>envelope_codec\<close>, for any text form of UUIDs that can be read back and needs no
  escapes. Task types are ASCII here; bytes from 128 on occur inside raw messages only, where
  the encoder copies them.
\<close>

abbreviation dq :: char where "dq \<equiv> CHR 0x22"
abbreviation bs :: char where "bs \<equiv> CHR 0x5C"

subsection \<open>The scanner\<close>

datatype sstate = BeginValue | BeginValueOrEmpty | BeginStringOrEmpty | BeginString
  | EndValue | EndTop | InString | InStringEsc | InStringEscU nat
  | Neg | NumInt | NumZero | Dot | Dot0 | ExpE | ExpSign | Exp0
  | LitT | LitTr | LitTru | LitF | LitFa | LitFal | LitFals | LitN | LitNu | LitNul

datatype pstate = ObjectKey | ObjectValue | ArrayValue

type_synonym conf = "sstate \<times> pstate list"

definition is_space :: "char \<Rightarrow> bool" where
  "is_space c \<longleftrightarrow> c \<in> {CHR '' '', CHR 0x09, CHR 0x0D, CHR 0x0A}"

definition is_hex :: "char \<Rightarrow> bool" where
  "is_hex c \<longleftrightarrow> is_digit c \<or> c \<in> set ''abcdefABCDEF''"

definition pop :: "pstate list \<Rightarrow> conf" where
  "pop ps = (if ps = [] then EndTop else EndValue, ps)"

definition end_value :: "pstate list \<Rightarrow> char \<Rightarrow> conf option" where
  "end_value stk c =
     (case stk of
        [] \<Rightarrow> if is_space c then Some (EndTop, []) else None
      | p # ps \<Rightarrow>
          if is_space c then Some (EndValue, stk)
          else (case p of
                  ObjectKey \<Rightarrow> if c = CHR '':'' then Some (BeginValue, ObjectValue # ps) else None
                | ObjectValue \<Rightarrow>
                    if c = CHR '','' then Some (BeginString, ObjectKey # ps)
                    else if c = CHR ''}'' then Some (pop ps) else None
                | ArrayValue \<Rightarrow>
                    if c = CHR '','' then Some (BeginValue, stk)
                    else if c = CHR '']'' then Some (pop ps) else None))"

definition begin_value :: "pstate list \<Rightarrow> char \<Rightarrow> conf option" where
  "begin_value stk c =
     (if is_space c then Some (BeginValue, stk)
      else if c = CHR ''{'' then Some (BeginStringOrEmpty, ObjectKey # stk)
      else if c = CHR ''['' then Some (BeginValueOrEmpty, ArrayValue # stk)
      else if c = dq then Some (InString, stk)
      else if c = CHR ''-'' then Some (Neg, stk)
      else if c = CHR ''0'' then Some (NumZero, stk)
      else if c = CHR ''t'' then Some (LitT, stk)
      else if c = CHR ''f'' then Some (LitF, stk)
      else if c = CHR ''n'' then Some (LitN, stk)
      else if is_digit c then Some (NumInt, stk)
      else None)"

definition begin_string :: "pstate list \<Rightarrow> char \<Rightarrow> conf option" where
  "begin_string stk c =
     (if is_space c then Some (BeginString, stk)
      else if c = dq then Some (InString, stk) else None)"

definition num0 :: "pstate list \<Rightarrow> char \<Rightarrow> conf option" where
  "num0 stk c =
     (if c = CHR ''.'' then Some (Dot, stk)
      else if c = CHR ''e'' \<or> c = CHR ''E'' then Some (ExpE, stk)
      else end_value stk c)"

definition exp_sign :: "pstate list \<Rightarrow> char \<Rightarrow> conf option" where
  "exp_sign stk c = (if is_digit c then Some (Exp0, stk) else None)"

fun step :: "conf \<Rightarrow> char \<Rightarrow> conf option" where
  "step (BeginValueOrEmpty, stk) c =
     (if is_space c then Some (BeginValueOrEmpty, stk)
      else if c = CHR '']'' then end_value stk c else begin_value stk c)"
| "step (BeginValue, stk) c = begin_value stk c"
| "step (BeginStringOrEmpty, stk) c =
     (if is_space c then Some (BeginStringOrEmpty, stk)
      else if c = CHR ''}'' then end_value (ObjectValue # tl stk) c else begin_string stk c)"
| "step (BeginString, stk) c = begin_string stk c"
| "step (EndValue, stk) c = end_value stk c"
| "step (EndTop, stk) c = (if is_space c then Some (EndTop, stk) else None)"
| "step (InString, stk) c =
     (if c = dq then Some (EndValue, stk)
      else if c = bs then Some (InStringEsc, stk)
      else if (of_char c :: nat) < 32 then None else Some (InString, stk))"
| "step (InStringEsc, stk) c =
     (if c \<in> set ''bfnrt/'' \<or> c = bs \<or> c = dq then Some (InString, stk)
      else if c = CHR ''u'' then Some (InStringEscU 3, stk) else None)"
| "step (InStringEscU n, stk) c =
     (if is_hex c then Some (case n of 0 \<Rightarrow> InString | Suc k \<Rightarrow> InStringEscU k, stk) else None)"
| "step (Neg, stk) c =
     (if c = CHR ''0'' then Some (NumZero, stk)
      else if is_digit c then Some (NumInt, stk) else None)"
| "step (NumInt, stk) c = (if is_digit c then Some (NumInt, stk) else num0 stk c)"
| "step (NumZero, stk) c = num0 stk c"
| "step (Dot, stk) c = (if is_digit c then Some (Dot0, stk) else None)"
| "step (Dot0, stk) c =
     (if is_digit c then Some (Dot0, stk)
      else if c = CHR ''e'' \<or> c = CHR ''E'' then Some (ExpE, stk) else end_value stk c)"
| "step (ExpE, stk) c =
     (if c = CHR ''+'' \<or> c = CHR ''-'' then Some (ExpSign, stk) else exp_sign stk c)"
| "step (ExpSign, stk) c = exp_sign stk c"
| "step (Exp0, stk) c = (if is_digit c then Some (Exp0, stk) else end_value stk c)"
| "step (LitT, stk) c = (if c = CHR ''r'' then Some (LitTr, stk) else None)"
| "step (LitTr, stk) c = (if c = CHR ''u'' then Some (LitTru, stk) else None)"
| "step (LitTru, stk) c = (if c = CHR ''e'' then Some (EndValue, stk) else None)"
| "step (LitF, stk) c = (if c = CHR ''a'' then Some (LitFa, stk) else None)"
| "step (LitFa, stk) c = (if c = CHR ''l'' then Some (LitFal, stk) else None)"
| "step (LitFal, stk) c = (if c = CHR ''s'' then Some (LitFals, stk) else None)"
| "step (LitFals, stk) c = (if c = CHR ''e'' then Some (EndValue, stk) else None)"
| "step (LitN, stk) c = (if c = CHR ''u'' then Some (LitNu, stk) else None)"
| "step (LitNu, stk) c = (if c = CHR ''l'' then Some (LitNul, stk) else None)"
| "step (LitNul, stk) c = (if c = CHR ''l'' then Some (EndValue, stk) else None)"

text \<open>The states in which the text may end: one complete value has been read.\<close>

definition num_final :: "sstate \<Rightarrow> bool" where
  "num_final st \<longleftrightarrow> st \<in> {NumInt, NumZero, Dot0, Exp0}"

definition final :: "conf \<Rightarrow> bool" where
  "final cf \<longleftrightarrow> snd cf = [] \<and> (fst cf \<in> {EndTop, EndValue} \<or> num_final (fst cf))"

definition hex_digit :: "nat \<Rightarrow> char" where
  "hex_digit n = ''0123456789abcdef'' ! n"

definition html_escape :: "char \<Rightarrow> string" where
  "html_escape c =
     (if c \<in> set ''<>&'' then [bs, CHR ''u'', CHR ''0'', CHR ''0'',
        hex_digit (of_char c div 16), hex_digit (of_char c mod 16)] else [c])"

text \<open>Copying a raw message: white space outside strings goes, three characters are escaped.\<close>

fun compact :: "conf \<Rightarrow> string \<Rightarrow> string option" where
  "compact cf [] = (if final cf then Some [] else None)"
| "compact cf (c # s) =
     (case step cf c of
        None \<Rightarrow> None
      | Some cf' \<Rightarrow>
          map_option (append (if is_space c \<and> fst cf \<noteq> InString then [] else html_escape c))
            (compact cf' s))"

abbreviation start :: conf where "start \<equiv> (BeginValue, [])"

subsection \<open>Strings, integers, members\<close>

definition esc_char :: "char \<Rightarrow> string" where
  "esc_char c =
     (if c = dq \<or> c = bs then [bs, c]
      else if c = CHR 0x08 then [bs, CHR ''b'']
      else if c = CHR 0x0C then [bs, CHR ''f'']
      else if c = CHR 0x0A then [bs, CHR ''n'']
      else if c = CHR 0x0D then [bs, CHR ''r'']
      else if c = CHR 0x09 then [bs, CHR ''t'']
      else if (of_char c :: nat) < 32 \<or> c \<in> set ''<>&'' then
        [bs, CHR ''u'', CHR ''0'', CHR ''0'', hex_digit (of_char c div 16), hex_digit (of_char c mod 16)]
      else [c])"

definition quote :: "string \<Rightarrow> string" where
  "quote s = dq # concat (map esc_char s) @ [dq]"

definition hex_val :: "char \<Rightarrow> nat" where
  "hex_val c =
     (let n = of_char c
      in if is_digit c then n - 48 else if 97 \<le> n then n - 87 else n - 55)"

text \<open>The bytes of a code point below 65536 in UTF-8.\<close>

definition utf8 :: "nat \<Rightarrow> string" where
  "utf8 n =
     (if n < 128 then [char_of n]
      else if n < 2048 then [char_of (192 + n div 64), char_of (128 + n mod 64)]
      else [char_of (224 + n div 4096), char_of (128 + n div 64 mod 64), char_of (128 + n mod 64)])"

text \<open>An escaped UTF-16 code unit; a pair of surrogates is one code point of four bytes.\<close>

definition code_unit :: "char \<Rightarrow> char \<Rightarrow> char \<Rightarrow> char \<Rightarrow> nat" where
  "code_unit h1 h2 h3 h4 = ((hex_val h1 * 16 + hex_val h2) * 16 + hex_val h3) * 16 + hex_val h4"

definition surrogate :: "nat \<Rightarrow> bool" where
  "surrogate n \<longleftrightarrow> 55296 \<le> n \<and> n < 57344"

definition utf8_pair :: "nat \<Rightarrow> nat \<Rightarrow> string" where
  "utf8_pair n k =
     (let p = 65536 + (n - 55296) * 1024 + (k - 56320)
      in [char_of (240 + p div 262144), char_of (128 + p div 4096 mod 64), char_of (128 + p div 64 mod 64),
          char_of (128 + p mod 64)])"

fun unescape :: "string \<Rightarrow> string option" where
  "unescape [] = Some []"
| "unescape (c # s) =
     (if c = bs then
        (case s of
           [] \<Rightarrow> None
         | d # s1 \<Rightarrow>
             if d = CHR ''u'' then
               (case s1 of
                  h1 # h2 # h3 # h4 # s2 \<Rightarrow>
                    (let n = code_unit h1 h2 h3 h4
                     in if surrogate n then
                          (case s2 of
                             b # v # g1 # g2 # g3 # g4 # s3 \<Rightarrow>
                               (let k = code_unit g1 g2 g3 g4
                                in if b = bs \<and> v = CHR ''u'' \<and> n < 56320 \<and> 56320 \<le> k \<and> surrogate k
                                   then map_option (append (utf8_pair n k)) (unescape s3)
                                   else map_option (append (utf8 65533)) (unescape s2))
                           | _ \<Rightarrow> map_option (append (utf8 65533)) (unescape s2))
                        else map_option (append (utf8 n)) (unescape s2))
                | _ \<Rightarrow> None)
             else
               map_option (Cons
                 (if d = CHR ''b'' then CHR 0x08 else if d = CHR ''f'' then CHR 0x0C
                  else if d = CHR ''n'' then CHR 0x0A else if d = CHR ''r'' then CHR 0x0D
                  else if d = CHR ''t'' then CHR 0x09 else d)) (unescape s1))
      else map_option (Cons c) (unescape s))"

text \<open>A string literal with its quotes; \<open>None\<close> for any other value.\<close>

definition unquote :: "string \<Rightarrow> string option" where
  "unquote s =
     (case s of
        c # s1 \<Rightarrow> if c = dq \<and> s1 \<noteq> [] \<and> last s1 = dq then unescape (butlast s1) else None
      | [] \<Rightarrow> None)"

text \<open>\<open>strconv.ParseInt\<close> of a number literal, base 10 and 64 bits.\<close>

definition ParseInt :: "string \<Rightarrow> int option" where
  "ParseInt s =
     (let (neg, ds) = (case s of c # s1 \<Rightarrow> if c = CHR ''-'' then (True, s1) else (False, s)
                       | [] \<Rightarrow> (False, s));
          n = (if neg then - int (read_nat ds) else int (read_nat ds))
      in if ds \<noteq> [] \<and> list_all is_digit ds \<and> int64_range n then Some n else None)"

text \<open>Read one value off the front of a text, up to the byte that cannot belong to it.\<close>

fun take_value :: "conf \<Rightarrow> string \<Rightarrow> (string \<times> string) option" where
  "take_value cf [] = (if final cf then Some ([], []) else None)"
| "take_value cf (c # s) =
     (case step cf c of
        None \<Rightarrow> if final cf then Some ([], c # s) else None
      | Some cf' \<Rightarrow>
          if final cf \<and> fst cf' = EndTop then Some ([], c # s)
          else map_option (apfst (Cons c)) (take_value cf' s))"

definition skip_space :: "string \<Rightarrow> string" where
  "skip_space s = dropWhile is_space s"

text \<open>The members of an object after its brace, as pairs of key literal and value text.\<close>

fun members :: "nat \<Rightarrow> string \<Rightarrow> (string \<times> string) list option" where
  "members 0 s = None"
| "members (Suc n) s =
     (case take_value start (skip_space s) of
        None \<Rightarrow> None
      | Some (k, s1) \<Rightarrow>
          (case skip_space s1 of
             [] \<Rightarrow> None
           | c1 # s2 \<Rightarrow>
               if c1 \<noteq> CHR '':'' then None
               else (case take_value start (skip_space s2) of
                       None \<Rightarrow> None
                     | Some (v, s3) \<Rightarrow>
                         (case skip_space s3 of
                            [] \<Rightarrow> None
                          | c2 # s4 \<Rightarrow>
                              if c2 = CHR '','' then map_option (Cons (k, v)) (members n s4)
                              else if c2 = CHR ''}'' \<and> skip_space s4 = [] then Some [(k, v)]
                              else None))))"

definition object_members :: "string \<Rightarrow> (string \<times> string) list option" where
  "object_members s =
     (case skip_space s of
        c # s1 \<Rightarrow>
          if c \<noteq> CHR ''{'' then None
          else (case skip_space s1 of
                  d # s2 \<Rightarrow>
                    if d = CHR ''}'' \<and> skip_space s2 = [] then Some [] else members (length s) s1
                | [] \<Rightarrow> None)
      | [] \<Rightarrow> None)"

subsection \<open>The struct \<open>Envelope\<close> and its field tags\<close>

fun fields_text :: "(string \<times> string) list \<Rightarrow> string" where
  "fields_text [] = []"
| "fields_text ((k, v) # fs) =
     k @ CHR '':'' # v @ (if fs = [] then [] else CHR '','' # fields_text fs)"

definition object_text :: "(string \<times> string) list \<Rightarrow> string" where
  "object_text fs = CHR ''{'' # fields_text fs @ ''}''"

definition json_raw_ok :: "string \<Rightarrow> bool" where
  "json_raw_ok p \<longleftrightarrow> p = [] \<or> compact start p \<noteq> None"

definition json_raw_compact :: "string \<Rightarrow> string" where
  "json_raw_compact p =
     (if p = [] then ''null'' else case compact start p of None \<Rightarrow> p | Some t \<Rightarrow> t)"

definition env_fields :: "(uuid \<Rightarrow> string) \<Rightarrow> envelope \<Rightarrow> (string \<times> string) list" where
  "env_fields str e =
     [(quote ''id'', quote (str (EnvID e))), (quote ''type'', quote (EnvType e)),
      (quote ''priority'', show_int (EnvPriority e)), (quote ''attempts'', show_int (EnvAttempts e)),
      (quote ''max_attempts'', show_int (EnvMaxAttempts e)),
      (quote ''payload'', json_raw_compact (EnvPayload e)),
      (quote ''enqueued_at'', show_int (EnqueuedAt e))]"

definition json_marshal :: "(uuid \<Rightarrow> string) \<Rightarrow> envelope \<Rightarrow> string option" where
  "json_marshal str e =
     (if json_raw_ok (EnvPayload e) then Some (object_text (env_fields str e)) else None)"

definition json_marshal_dead ::
  "(uuid \<Rightarrow> string) \<Rightarrow> envelope \<Rightarrow> string \<Rightarrow> int \<Rightarrow> string option" where
  "json_marshal_dead str e reason ms =
     (if json_raw_ok (EnvPayload e)
      then Some (object_text (env_fields str e @
        [(quote ''reason'', quote reason), (quote ''failed_at'', show_int ms)]))
      else None)"

text \<open>The event; the text of its time stamp is an argument.\<close>

definition json_marshal_event ::
  "(uuid \<Rightarrow> string) \<Rightarrow> (time \<Rightarrow> string option) \<Rightarrow> event \<Rightarrow> string option" where
  "json_marshal_event str fmt ev =
     (case fmt (Timestamp ev) of
        None \<Rightarrow> None
      | Some ts \<Rightarrow> Some (object_text
          ([(quote ''task_id'', quote (str (TaskID ev))), (quote ''type'', quote (EvType ev)),
            (quote ''status'', quote (EvStatus ev))] @
           (if EvWorkerID ev = [] then [] else [(quote ''worker_id'', quote (EvWorkerID ev))]) @
           (if Message ev = [] then [] else [(quote ''message'', quote (Message ev))]) @
           [(quote ''timestamp'', quote ts)])))"

definition zero_envelope :: envelope where
  "zero_envelope = \<lparr>EnvID = uuid_Nil, EnvType = [], EnvPriority = 0, EnvAttempts = 0,
     EnvMaxAttempts = 0, EnvPayload = [], EnqueuedAt = 0\<rparr>"

definition to_lower :: "char \<Rightarrow> char" where
  "to_lower c = (if 65 \<le> (of_char c :: nat) \<and> (of_char c :: nat) \<le> 90
     then char_of (of_char c + 32 :: nat) else c)"

text \<open>
  Storing one member of the object into the struct: names match in any case, unknown names
  are ignored, \<open>null\<close> leaves a field as it is, a value of the wrong kind is an error.
\<close>

definition store_field ::
  "(string \<Rightarrow> uuid option) \<Rightarrow> string \<times> string \<Rightarrow> envelope option \<Rightarrow> envelope option" where
  "store_field rd kv eo =
     (case eo of
        None \<Rightarrow> None
      | Some e \<Rightarrow>
          (case unquote (fst kv) of
             None \<Rightarrow> None
           | Some name \<Rightarrow>
               let n = map to_lower name; v = snd kv
               in if n = ''payload'' then Some (e\<lparr>EnvPayload := v\<rparr>)
                  else if v = ''null'' then Some e
                  else if n = ''id'' then
                    map_option (\<lambda>i. e\<lparr>EnvID := i\<rparr>) (Option.bind (unquote v) rd)
                  else if n = ''type'' then map_option (\<lambda>t. e\<lparr>EnvType := t\<rparr>) (unquote v)
                  else if n = ''priority'' then map_option (\<lambda>x. e\<lparr>EnvPriority := x\<rparr>) (ParseInt v)
                  else if n = ''attempts'' then map_option (\<lambda>x. e\<lparr>EnvAttempts := x\<rparr>) (ParseInt v)
                  else if n = ''max_attempts'' then
                    map_option (\<lambda>x. e\<lparr>EnvMaxAttempts := x\<rparr>) (ParseInt v)
                  else if n = ''enqueued_at'' then
                    map_option (\<lambda>x. e\<lparr>EnqueuedAt := x\<rparr>) (ParseInt v)
                  else Some e))"

definition json_unmarshal :: "(string \<Rightarrow> uuid option) \<Rightarrow> string \<Rightarrow> envelope option" where
  "json_unmarshal rd s =
     (if compact start s = Some ''null'' then Some zero_envelope
      else case object_members s of
             None \<Rightarrow> None
           | Some ms \<Rightarrow> fold (store_field rd) ms (Some zero_envelope))"

definition json_id :: "string \<Rightarrow> string option" where
  "json_id s = Option.bind (object_members s) (\<lambda>ms. Option.bind (map_of ms (quote ''id'')) unquote)"

definition json_codec ::
  "(uuid \<Rightarrow> string) \<Rightarrow> (string \<Rightarrow> uuid option) \<Rightarrow> (time \<Rightarrow> string option) \<Rightarrow> codec" where
  "json_codec str rd fmt = \<lparr>UUID_String = str, UUID_Parse = rd,
     marshal = json_marshal str, unmarshal = json_unmarshal rd,
     marshal_dead = json_marshal_dead str, marshal_event = json_marshal_event str fmt,
     cjson_id = json_id, raw_ok = json_raw_ok, raw_compact = json_raw_compact,
     text_ok = list_all (\<lambda>c. (of_char c :: nat) < 128)\<rparr>"

text \<open>The canonical text of a UUID: 32 hexadecimal digits in groups of 8, 4, 4, 4 and 12.\<close>

fun hexw :: "nat \<Rightarrow> nat \<Rightarrow> string" where
  "hexw 0 n = []"
| "hexw (Suc k) n = hexw k (n div 16) @ [hex_digit (n mod 16)]"

definition unhex :: "string \<Rightarrow> nat" where
  "unhex s = foldl (\<lambda>n c. 16 * n + hex_val c) 0 s"

definition uuid_text :: "uuid \<Rightarrow> string" where
  "uuid_text u =
     (let h = hexw 32 (unat u)
      in take 8 h @ ''-'' @ take 4 (drop 8 h) @ ''-'' @ take 4 (drop 12 h) @ ''-'' @
         take 4 (drop 16 h) @ ''-'' @ drop 20 h)"

definition uuid_read :: "string \<Rightarrow> uuid option" where
  "uuid_read s =
     (let u = word_of_nat (unhex (filter (\<lambda>c. c \<noteq> CHR ''-'') s))
      in if uuid_text u = s then Some u else None)"

subsection \<open>Compacting twice changes nothing\<close>

text \<open>
  Scanning the compacted text stays in step with scanning the original: where the original
  has just skipped white space after a value, the compacted text is still in the state in
  which that value ended.
\<close>

definition insync :: "conf \<Rightarrow> conf \<Rightarrow> bool" where
  "insync cf cf0 \<longleftrightarrow> cf0 = cf \<or>
     (fst cf \<in> {EndValue, EndTop} \<and> snd cf0 = snd cf \<and>
      (num_final (fst cf0) \<or> fst cf0 = EndValue))"

lemma step_num_final:
  assumes "num_final st" and "end_value stk c = Some cf'"
  shows "step (st, stk) c = Some cf'"
proof -
  have "\<not> is_digit c" "c \<noteq> CHR ''.''" "c \<noteq> CHR ''e''" "c \<noteq> CHR ''E''"
    using assms(2)
    by (auto simp: end_value_def is_digit_def is_space_def split: list.splits pstate.splits if_splits)
  with assms show ?thesis by (auto simp: num_final_def num0_def)
qed

lemma step_EndTop: "step (EndTop, stk) c = Some cf' \<Longrightarrow> is_space c \<and> cf' = (EndTop, stk)"
  by (simp split: if_splits)

lemma step_space:
  assumes "step (st, stk) c = Some cf'" and "is_space c" and "st \<noteq> InString"
  shows "insync cf' (st, stk)"
proof -
  from assms(2) consider "c = CHR '' ''" | "c = CHR 0x09" | "c = CHR 0x0D" | "c = CHR 0x0A"
    by (auto simp: is_space_def)
  then show ?thesis
    using assms
    by cases (cases st; cases stk;
      auto simp: insync_def end_value_def begin_value_def begin_string_def num0_def exp_sign_def
        num_final_def is_digit_def is_hex_def is_space_def split: if_splits)+
qed

lemma insync_final: "insync cf cf0 \<Longrightarrow> final cf \<Longrightarrow> final cf0"
  by (auto simp: insync_def final_def)

lemma insync_step:
  assumes "insync cf cf0" and "step cf c = Some cf'" and "\<not> is_space c"
  shows "step cf0 c = Some cf'"
proof (cases "cf0 = cf")
  case False
  obtain st stk where cf: "cf = (st, stk)" by (cases cf)
  define st0 where "st0 = fst cf0"
  have cf0: "cf0 = (st0, stk)" and st: "st = EndValue \<or> st = EndTop"
    and st0: "num_final st0 \<or> st0 = EndValue"
    using assms(1) False unfolding insync_def cf st0_def prod_eq_iff by auto
  have "st \<noteq> EndTop" using assms(2,3) step_EndTop [of stk c cf'] unfolding cf by blast
  with st assms(2) have "end_value stk c = Some cf'" by (simp add: cf)
  with st0 show ?thesis by (auto simp: cf0 step_num_final)
qed (use assms in simp)

lemma insync_InString: "insync (InString, stk) cf0 \<longleftrightarrow> cf0 = (InString, stk)"
  by (auto simp: insync_def)

lemma step_html:
  assumes "step cf c = Some cf'" and "c \<in> set ''<>&''"
  shows "\<exists>stk. cf = (InString, stk) \<and> cf' = (InString, stk)"
proof -
  have "\<not> is_digit c" "\<not> is_hex c" "\<not> is_space c"
    using assms(2) by (auto simp: is_digit_def is_hex_def is_space_def)
  with assms show ?thesis
    by (cases cf; cases "fst cf"; cases "snd cf")
      (auto simp: end_value_def begin_value_def begin_string_def num0_def exp_sign_def
        split: if_splits pstate.splits)
qed

lemma html_escape_simps:
  "html_escape CHR ''<'' = [bs, CHR ''u'', CHR ''0'', CHR ''0'', CHR ''3'', CHR ''c'']"
  "html_escape CHR ''>'' = [bs, CHR ''u'', CHR ''0'', CHR ''0'', CHR ''3'', CHR ''e'']"
  "html_escape CHR ''&'' = [bs, CHR ''u'', CHR ''0'', CHR ''0'', CHR ''2'', CHR ''6'']"
  by (simp_all add: html_escape_def hex_digit_def)

lemma html_escape_id: "c \<notin> set ''<>&'' \<Longrightarrow> html_escape c = [c]"
  by (simp add: html_escape_def)

text \<open>A text that the copying leaves as it is.\<close>

fun plain :: "conf \<Rightarrow> string \<Rightarrow> bool" where
  "plain cf [] = final cf"
| "plain cf (c # s) =
     (case step cf c of
        None \<Rightarrow> False
      | Some cf' \<Rightarrow> \<not> (is_space c \<and> fst cf \<noteq> InString) \<and> c \<notin> set ''<>&'' \<and> plain cf' s)"

lemma plain_compact: "plain cf t \<Longrightarrow> compact cf t = Some t"
  by (induction cf t rule: plain.induct) (auto simp: html_escape_id split: option.splits)

lemma hex_plain: "is_hex x \<Longrightarrow> \<not> is_space x \<and> x \<noteq> CHR ''<'' \<and> x \<noteq> CHR ''>'' \<and> x \<noteq> CHR ''&''"
  by (auto simp: is_hex_def is_digit_def is_space_def)

lemma plain_escU:
  assumes "is_hex a" "is_hex b" "is_hex c" "is_hex d"
  shows "plain (InString, stk) (bs # CHR ''u'' # a # b # c # d # t) = plain (InString, stk) t"
  using assms hex_plain [of a] hex_plain [of b] hex_plain [of c] hex_plain [of d]
  by (simp add: eval_nat_numeral is_space_def)

lemma hex_facts:
  "is_hex CHR ''0''" "is_hex CHR ''1''" "is_hex CHR ''2''" "is_hex CHR ''3''" "is_hex CHR ''6''"
  "is_hex CHR ''c''" "is_hex CHR ''e''"
  by (simp_all add: is_hex_def is_digit_def)

lemma plain_html:
  assumes "c \<in> set ''<>&''"
  shows "plain (InString, stk) (html_escape c @ t) = plain (InString, stk) t"
proof -
  from assms consider "c = CHR ''<''" | "c = CHR ''>''" | "c = CHR ''&''" by auto
  then show ?thesis
    by cases (simp_all only: html_escape_simps append_Cons append_Nil plain_escU hex_facts)
qed

lemma compact_plain:
  "compact cf s = Some t \<Longrightarrow> insync cf cf0 \<Longrightarrow> plain cf0 t"
proof (induction cf s arbitrary: cf0 t rule: compact.induct)
  case (1 cf)
  then show ?case by (auto simp: insync_final split: if_splits)
next
  case (2 cf c s)
  then obtain cf' u where st: "step cf c = Some cf'" and u: "compact cf' s = Some u"
    and t: "t = (if is_space c \<and> fst cf \<noteq> InString then [] else html_escape c) @ u"
    by (auto split: option.splits)
  note IH = "2.IH" [OF st u]
  consider (skip) "is_space c" "fst cf \<noteq> InString" | (html) "c \<in> set ''<>&''"
    | (str) "is_space c" "fst cf = InString" | (copy) "\<not> is_space c" "c \<notin> set ''<>&''"
    by blast
  then show ?case
  proof cases
    case skip
    then have "insync cf' cf0"
      using step_space [of "fst cf" "snd cf" c cf'] st "2.prems"(2)
      by (cases cf) (auto simp: insync_def num_final_def)
    with IH skip t show ?thesis by simp
  next
    case html
    then obtain stk where "cf = (InString, stk)" "cf' = (InString, stk)"
      using st step_html by blast
    with IH html t "2.prems"(2) show ?thesis by (simp add: insync_InString plain_html)
  next
    case str
    then have "cf0 = cf" "html_escape c = [c]" "c \<notin> set ''<>&''"
      using "2.prems"(2) by (auto simp: insync_def is_space_def html_escape_def)
    with IH [of cf'] str t st show ?thesis by (simp add: insync_def)
  next
    case copy
    then have "step cf0 c = Some cf'" using insync_step "2.prems"(2) st by blast
    with IH [of cf'] copy t show ?thesis by (simp add: insync_def html_escape_id)
  qed
qed

subsection \<open>Reading a value back\<close>

lemma final_EndTop:
  assumes "final cf" and "step cf c = Some cf'" and "fst cf' = EndTop"
  shows "is_space c"
  using assms
  by (cases cf) (auto simp: final_def num_final_def num0_def end_value_def split: if_splits)

lemma final_stop:
  assumes "final cf" and "b \<in> set '',:}''"
  shows "step cf b = None"
  using assms
  by (cases cf) (auto simp: final_def num_final_def num0_def end_value_def is_space_def is_digit_def)

lemma take_value_plain:
  assumes "b \<in> set '',:}''"
  shows "plain cf t \<Longrightarrow> take_value cf (t @ b # rest) = Some (t, b # rest)"
proof (induction cf t rule: plain.induct)
  case (1 cf)
  then show ?case using assms by (simp add: final_stop)
next
  case (2 cf c s)
  from "2.prems" obtain cf' where st: "step cf c = Some cf'" and p: "plain cf' s"
    and sp: "\<not> (is_space c \<and> fst cf \<noteq> InString)" by (cases "step cf c") simp_all
  have "fst cf \<noteq> InString" if "final cf" using that by (auto simp: final_def num_final_def)
  then have "\<not> (final cf \<and> fst cf' = EndTop)" using sp final_EndTop [OF _ st] by blast
  with "2.IH" [OF st p] st show ?case by simp
qed

lemma plain_nospace: "plain start (c # t) \<Longrightarrow> \<not> is_space c"
  by (auto split: option.splits)

lemma skip_space_plain: "plain start t \<Longrightarrow> skip_space (t @ s) = t @ s"
  using plain_nospace by (cases t) (simp_all add: skip_space_def final_def num_final_def del: plain.simps(2))

subsection \<open>The texts the encoder writes\<close>


subsection \<open>The texts the encoder writes\<close>

lemma ctrl_esc:
  assumes "(of_char c :: nat) < 32"
  shows "hex_digit (of_char c div 16) \<in> {CHR ''0'', CHR ''1''}"
proof -
  from assms have "(of_char c :: nat) div 16 = 0 \<or> (of_char c :: nat) div 16 = 1" by auto
  then show ?thesis by (auto simp: hex_digit_def)
qed

lemma hex_digit_hex: "n < 16 \<Longrightarrow> is_hex (hex_digit n)"
proof -
  assume "n < 16"
  then have "n \<in> set [0..<16]" by simp
  then show ?thesis
    by (auto simp: hex_digit_def is_hex_def is_digit_def upt_conv_Cons)
qed

lemma hex_val_digit: "n < 16 \<Longrightarrow> hex_val (hex_digit n) = n"
proof -
  assume "n < 16"
  then have "n \<in> set [0..<16]" by simp
  then show ?thesis
    by (auto simp: hex_digit_def hex_val_def is_digit_def upt_conv_Cons)
qed

text \<open>The shapes an escaped character has.\<close>

lemma esc_char_cases:
  obtains (short) d where "esc_char c = [bs, d]" "d \<in> set ''bfnrt'' \<or> d = bs \<or> d = dq"
      "\<And>s. unescape (bs # d # s) = map_option (Cons c) (unescape s)"
  | (hex) "esc_char c = [bs, CHR ''u'', CHR ''0'', CHR ''0'',
        hex_digit (of_char c div 16), hex_digit (of_char c mod 16)]" "(of_char c :: nat) < 128"
  | (copy) "esc_char c = [c]" "c \<noteq> dq" "c \<noteq> bs" "32 \<le> (of_char c :: nat)" "c \<notin> set ''<>&''"
proof -
  let ?S = "{dq, bs, CHR 0x08, CHR 0x0C, CHR 0x0A, CHR 0x0D, CHR 0x09}"
  show ?thesis
  proof (cases "c \<in> ?S")
    case True
    then show ?thesis
      unfolding insert_iff empty_iff
    proof (elim disjE FalseE)
      assume "c = dq"
      then show ?thesis by (intro short [of "dq"]) (simp_all add: esc_char_def)
    next
      assume "c = bs"
      then show ?thesis by (intro short [of "bs"]) (simp_all add: esc_char_def)
    next
      assume "c = CHR 0x08"
      then show ?thesis by (intro short [of "CHR ''b''"]) (simp_all add: esc_char_def)
    next
      assume "c = CHR 0x0C"
      then show ?thesis by (intro short [of "CHR ''f''"]) (simp_all add: esc_char_def)
    next
      assume "c = CHR 0x0A"
      then show ?thesis by (intro short [of "CHR ''n''"]) (simp_all add: esc_char_def)
    next
      assume "c = CHR 0x0D"
      then show ?thesis by (intro short [of "CHR ''r''"]) (simp_all add: esc_char_def)
    next
      assume "c = CHR 0x09"
      then show ?thesis by (intro short [of "CHR ''t''"]) (simp_all add: esc_char_def)
    qed
  next
    case False
    show ?thesis
    proof (cases "(of_char c :: nat) < 32 \<or> c \<in> set ''<>&''")
      case True
      then have "(of_char c :: nat) < 128" by auto
      with True False show ?thesis by (intro hex) (simp_all add: esc_char_def)
    next
      case nohex: False
      with False show ?thesis by (intro copy) (simp_all add: esc_char_def)
    qed
  qed
qed

lemma plain_esc_char: "plain (InString, stk) (esc_char c @ t) = plain (InString, stk) t"
proof (cases rule: esc_char_cases [of c])
  case (short d)
  then show ?thesis by (auto simp: is_space_def)
next
  case hex
  then have "is_hex (hex_digit (of_char c div 16))" "is_hex (hex_digit (of_char c mod 16))"
    by (simp_all add: hex_digit_hex)
  with hex(1) show ?thesis by (simp only: plain_escU hex_facts append_Cons append_Nil)
next
  case copy
  then show ?thesis by (simp add: is_space_def)
qed

lemma plain_quote: "plain start (quote s)"
proof -
  have "plain (InString, []) (concat (map esc_char s) @ [dq])"
    by (induction s) (simp_all add: plain_esc_char final_def del: plain.simps(2), simp add: final_def is_space_def)
  then show ?thesis by (simp add: quote_def begin_value_def is_space_def)
qed

lemma unescape_esc_char:
  "unescape (esc_char c @ s) = map_option (Cons c) (unescape s)"
proof (cases rule: esc_char_cases [of c])
  case hex
  have "(of_char c :: nat) div 16 * 16 + of_char c mod 16 = of_char c" by simp
  moreover have "hex_val CHR ''0'' = 0" by (simp add: hex_val_def is_digit_def)
  ultimately show ?thesis
    using hex by (cases "unescape s") (simp_all add: hex_val_digit utf8_def code_unit_def surrogate_def)
qed simp_all

lemma unquote_quote: "unquote (quote s) = Some s"
proof -
  have "unescape (concat (map esc_char s)) = Some s"
    by (induction s) (simp_all add: unescape_esc_char)
  then show ?thesis by (simp add: unquote_def quote_def)
qed

subsection \<open>Integers\<close>

lemma digit_plain: "is_digit c \<Longrightarrow> \<not> is_space c \<and> c \<notin> set ''<>&'' \<and> c \<notin> set ''-[]{}tfn'' \<and> c \<noteq> dq"
  by (auto simp: is_digit_def is_space_def)

lemma plain_digits: "list_all is_digit ds \<Longrightarrow> plain (NumInt, []) ds"
  by (induction ds) (auto simp: final_def num_final_def dest: digit_plain)

lemma plain_show_nat:
  "plain start (show_nat n)" "0 < n \<Longrightarrow> plain (Neg, []) (show_nat n)"
proof -
  obtain d ds where n: "show_nat n = d # ds" by (cases "show_nat n") auto
  have d: "is_digit d" "list_all is_digit ds" using digits_show_nat [of n] by (simp_all add: n)
  note p = digit_plain [OF d(1)] plain_digits [OF d(2)]
  have pos: "plain start (show_nat n) \<and> plain (Neg, []) (show_nat n)" if "0 < n"
    using hd_show_nat [OF that] d(1) p by (simp add: n begin_value_def)
  show "plain start (show_nat n)"
  proof (cases "n = 0")
    case True
    have "char_of (48 :: nat) = CHR ''0''" by code_simp
    with True have "show_nat n = ''0''" by (simp add: show_nat_digit)
    then show ?thesis by (simp add: begin_value_def is_space_def final_def num_final_def)
  qed (use pos in simp)
  show "plain (Neg, []) (show_nat n)" if "0 < n" using pos that by simp
qed

lemma plain_show_int: "plain start (show_int x)"
  using plain_show_nat by (simp add: show_int_def begin_value_def is_space_def)

lemma ParseInt_show_int: "int64_range x \<Longrightarrow> ParseInt (show_int x) = Some x"
proof -
  assume x: "int64_range x"
  show ?thesis
  proof (cases "x < 0")
    case True
    then show ?thesis
      using x by (simp add: show_int_def ParseInt_def read_show_nat digits_show_nat)
  next
    case False
    obtain d ds where n: "show_nat (nat x) = d # ds" by (cases "show_nat (nat x)") auto
    have "is_digit d" using digits_show_nat [of "nat x"] by (simp add: n)
    then have "d \<noteq> CHR ''-''" by (auto simp: is_digit_def)
    with False x n show ?thesis
      using read_show_nat [of "nat x"] digits_show_nat [of "nat x"]
      by (simp add: show_int_def ParseInt_def)
  qed
qed

lemma show_int_not_null: "show_int x \<noteq> ''null''"
proof
  assume "show_int x = ''null''"
  moreover have "hd (show_nat n) \<noteq> CHR ''n''" for n
    using digits_show_nat [of n] by (cases "show_nat n") (auto simp: is_digit_def)
  ultimately show False by (auto simp: show_int_def split: if_splits) (metis list.sel(1))
qed

subsection \<open>The codec keeps its contract\<close>

lemma skip_space_sep: "c \<in> set '':,}'' \<Longrightarrow> skip_space (c # s) = c # s"
  by (auto simp: skip_space_def is_space_def)

lemma members_fields:
  assumes "\<forall>(k, v)\<in>set fs. plain start k \<and> plain start v"
  shows "fs \<noteq> [] \<Longrightarrow> length fs \<le> n \<Longrightarrow> members n (fields_text fs @ ''}'') = Some fs"
  using assms
proof (induction fs arbitrary: n)
  case (Cons f fs)
  obtain k v where f: "f = (k, v)" by fastforce
  obtain n' where n: "n = Suc n'" using Cons.prems(2) by (cases n) auto
  from Cons.prems(3) f have p: "plain start k" "plain start v" by auto
  show ?case
  proof (cases "fs = []")
    case True
    then show ?thesis
      by (simp add: f n p skip_space_plain take_value_plain skip_space_sep del: plain.simps(2))
        (simp add: skip_space_def)
  next
    case False
    with Cons.IH [of n'] Cons.prems n have "members n' (fields_text fs @ ''}'') = Some fs" by simp
    with False show ?thesis
      by (simp add: f n p skip_space_plain take_value_plain skip_space_sep)
  qed
qed simp

lemma object_members_text:
  assumes "\<forall>(k, v)\<in>set fs. plain start k \<and> plain start v" and "fs \<noteq> []"
  shows "object_members (object_text fs) = Some fs"
proof -
  obtain k v fs' where fs: "fs = (k, v) # fs'" using assms(2) by (cases fs) auto
  have k: "plain start k" using assms(1) by (simp add: fs)
  obtain c k' where c: "k = c # k'" using k by (cases k) (auto simp: final_def num_final_def)
  have "\<not> is_space c" using k plain_nospace by (simp add: c del: plain.simps)
  moreover have "c \<noteq> CHR ''}''"
    using k by (auto simp: c begin_value_def is_space_def is_digit_def)
  moreover have "length fs \<le> length (object_text fs)"
  proof -
    have "length fs \<le> length (fields_text fs)" by (induction fs rule: fields_text.induct) auto
    then show ?thesis by (simp add: object_text_def)
  qed
  moreover obtain xs where "fields_text fs @ ''}'' = c # xs" by (simp add: fs c)
  moreover have "\<not> is_space CHR ''{''" by (simp add: is_space_def)
  ultimately show ?thesis
    using members_fields [OF assms, of "length (object_text fs)"]
    by (simp add: object_members_def object_text_def skip_space_def del: members.simps)
qed

lemma object_not_null: "compact start (object_text fs) \<noteq> Some ''null''"
proof -
  have "html_escape CHR ''{'' = ''{''" by (simp add: html_escape_def)
  then show ?thesis
    by (auto simp: object_text_def is_space_def begin_value_def split: option.splits)
qed

lemma plain_raw: "json_raw_ok p \<Longrightarrow> plain start (json_raw_compact p)"
proof (cases "p = []")
  case True
  then show ?thesis
    by (simp add: json_raw_compact_def begin_value_def is_space_def final_def)
next
  case False
  assume "json_raw_ok p"
  with False obtain t where "compact start p = Some t" by (auto simp: json_raw_ok_def)
  then show ?thesis using False compact_plain by (simp add: json_raw_compact_def insync_def)
qed

lemma env_fields_plain:
  "json_raw_ok (EnvPayload e) \<Longrightarrow> \<forall>(k, v)\<in>set (env_fields str e). plain start k \<and> plain start v"
  by (simp add: env_fields_def plain_quote plain_show_int plain_raw)

lemma object_members_env:
  "json_raw_ok (EnvPayload e) \<Longrightarrow> object_members (object_text (env_fields str e)) = Some (env_fields str e)"
  by (rule object_members_text [OF env_fields_plain]) (simp_all add: env_fields_def)

lemma quote_not_null: "quote s \<noteq> ''null''"
  by (simp add: quote_def)

lemma to_lower_names:
  "map to_lower ''id'' = ''id''" "map to_lower ''type'' = ''type''"
  "map to_lower ''priority'' = ''priority''" "map to_lower ''attempts'' = ''attempts''"
  "map to_lower ''max_attempts'' = ''max_attempts''" "map to_lower ''payload'' = ''payload''"
  "map to_lower ''enqueued_at'' = ''enqueued_at''"
  by (simp_all add: to_lower_def)

lemma fold_store_env:
  assumes "rd (str (EnvID e)) = Some (EnvID e)" and "int64_range (EnvPriority e)"
    and "int64_range (EnvAttempts e)" and "int64_range (EnvMaxAttempts e)"
    and "int64_range (EnqueuedAt e)"
  shows "fold (store_field rd) (env_fields str e) (Some zero_envelope) =
    Some (e\<lparr>EnvPayload := json_raw_compact (EnvPayload e)\<rparr>)"
  using assms
  by (simp add: env_fields_def store_field_def unquote_quote to_lower_names quote_not_null
      ParseInt_show_int show_int_not_null zero_envelope_def del: list.map)

lemma env_codec:
  assumes "\<And>u. rd (str u) = Some u"
  shows "envelope_codec (json_codec str rd fmt)"
proof (unfold_locales, goal_cases)
  case (3 e s)
  then show ?case
    using fold_store_env [of rd str e, OF assms]
    by (auto simp: json_codec_def json_marshal_def json_unmarshal_def env_wf_def object_members_env
        object_not_null compacted_def split: if_splits)
next
  case (4 p)
  then have "plain start (json_raw_compact p)" by (simp add: json_codec_def plain_raw)
  then have "compact start (json_raw_compact p) = Some (json_raw_compact p)" by (rule plain_compact)
  then show ?case by (simp add: json_codec_def json_raw_ok_def)
next
  case (5 e)
  then have "json_raw_ok (EnvPayload e)" by (simp add: json_codec_def)
  then have p: "plain start (json_raw_compact (EnvPayload e))" by (rule plain_raw)
  have "json_raw_compact q = q \<and> json_raw_ok q" if "compact start q = Some q" "q \<noteq> []" for q
    using that by (simp add: json_raw_compact_def json_raw_ok_def)
  moreover have "json_raw_compact (EnvPayload e) \<noteq> []" using p by (auto simp: final_def num_final_def)
  ultimately have "json_raw_compact (json_raw_compact (EnvPayload e)) = json_raw_compact (EnvPayload e)"
    "json_raw_ok (json_raw_compact (EnvPayload e))"
    using plain_compact [OF p] by blast+
  with 5 show ?case
    by (simp add: json_codec_def json_marshal_def env_fields_def compacted_def)
next
  case (7 e s)
  have "map_of (env_fields str e) (quote ''id'') = Some (quote (str (EnvID e)))"
    by (simp add: env_fields_def)
  with 7 show ?case
    by (auto simp: json_codec_def json_marshal_def json_id_def object_members_env unquote_quote
        split: if_splits)
qed (simp_all add: json_codec_def assms json_marshal_def json_marshal_dead_def)

text \<open>UUIDs in their canonical text can be read back.\<close>

lemma unhex_hexw: "unhex (hexw k n) = n mod 16 ^ k"
proof (induction k arbitrary: n)
  case (Suc k)
  have "n div 16 mod 16 ^ k * 16 + n mod 16 = n mod 16 ^ Suc k"
    by (simp add: mod_mult2_eq mult.commute)
  with Suc show ?case by (simp add: unhex_def hex_val_digit)
qed (simp add: unhex_def)

lemma hexw_chars: "c \<in> set (hexw k n) \<Longrightarrow> c \<noteq> CHR ''-''"
proof (induction k arbitrary: n)
  case (Suc k)
  have "hex_digit (n mod 16) \<noteq> CHR ''-''"
    using hex_digit_hex [of "n mod 16"] by (auto simp: is_hex_def is_digit_def)
  with Suc show ?case by auto
qed simp

lemma filter_uuid_text: "filter (\<lambda>c. c \<noteq> CHR ''-'') (uuid_text u) = hexw 32 (unat u)"
proof -
  define h where "h = hexw 32 (unat u)"
  have f: "filter (\<lambda>c. c \<noteq> CHR ''-'') xs = xs" if "set xs \<subseteq> set h" for xs
    using that hexw_chars by (auto simp: h_def filter_id_conv)
  have sub: "set (take n h) \<subseteq> set h" "set (drop n h) \<subseteq> set h" "set (take m (drop n h)) \<subseteq> set h" for m n
    by (auto dest: in_set_takeD in_set_dropD)
  have "take 8 h @ take 4 (drop 8 h) @ take 4 (drop 12 h) @ take 4 (drop 16 h) @ drop 20 h = h"
    by (simp flip: append_assoc take_add)
  then show ?thesis
    by (simp add: uuid_text_def Let_def f sub flip: h_def)
qed

lemma uuid_read_text: "uuid_read (uuid_text u) = Some u"
proof -
  have "unat u < 16 ^ 32"
    by (rule order.strict_trans2 [OF unsigned_less]) simp
  then show ?thesis
    by (simp add: uuid_read_def filter_uuid_text unhex_hexw)
qed

interpretation json: envelope_codec "json_codec uuid_text uuid_read fmt" for fmt
  by (rule env_codec) (rule uuid_read_text)

end
