(* ===== verification/Queue_Spec.thy ===== *)
theory Queue_Spec
  imports Queue Json
begin

section \<open>What the queue promises\<close>

text \<open>
  The queue of \<open>internal/queue/queue.go\<close> over a Redis server and the JSON codec of
  Go's \<open>encoding/json\<close>: the interpretation of the interface \<open>task_queue\<close>, the step
  relation of all queue operations, a small concrete world for the witnesses, and the
  properties of the queue.
\<close>

interpretation rq: task_queue ref_redis "json_codec uuid_text uuid_read fmt" for fmt
  by unfold_locales

subsection \<open>Steps of the queue\<close>

text \<open>
  One call of a queue operation, over any network. The envelopes that the callers hand in
  are well-formed and satisfy the condition \<open>P\<close>; the clock fits into Go's integers.
\<close>

inductive queue_step :: "'r redis \<Rightarrow> codec \<Rightarrow> (envelope \<Rightarrow> bool) \<Rightarrow> 'r world \<Rightarrow> 'r world \<Rightarrow> bool"
  for R C P where
  enqueue: "P env \<Longrightarrow> env_wf C env \<Longrightarrow> int64_range (UnixMilli (clk w)) \<Longrightarrow>
    queue_step R C P w (snd (Enqueue R C env w))"
| enqueue_delayed: "P env \<Longrightarrow> env_wf C env \<Longrightarrow>
    queue_step R C P w (snd (EnqueueDelayed R C env at w))"
| lease: "queue_step R C P w (snd (Lease R C t wk w))"
| lease_any: "queue_step R C P w (snd (LeaseAny R C ts wk w))"
| ack: "queue_step R C P w (snd (Ack R C wk i w))"
| nack: "queue_step R C P w (snd (Nack R C wk i w))"
| dead_letter: "queue_step R C P w (snd (DeadLetter R C env reason w))"
| heartbeat: "queue_step R C P w (snd (Heartbeat R wk ttl w))"
| is_alive: "queue_step R C P w (snd (IsAlive R wk w))"
| reclaim: "queue_step R C P w (snd (ReclaimInflight R C wk w))"
| promote: "int64_range (UnixMilli now) \<Longrightarrow> queue_step R C P w (snd (PromoteDelayed R C t now w))"
| publish: "queue_step R C P w (snd (Publish R C ev w))"
| elapse: "0 \<le> d \<Longrightarrow> queue_step R C P w (w\<lparr>clk := clk w + d\<rparr>)"
| faults: "queue_step R C P w (w\<lparr>rnet := fs\<rparr>)"

inductive queue_steps :: "'r redis \<Rightarrow> codec \<Rightarrow> (envelope \<Rightarrow> bool) \<Rightarrow> 'r world \<Rightarrow> 'r world \<Rightarrow> bool"
  for R C P where
  stay: "queue_steps R C P w w"
| after: "queue_steps R C P w w1 \<Longrightarrow> queue_step R C P w1 w2 \<Longrightarrow> queue_steps R C P w w2"

context task_queue
begin

lemma queue_step_inv:
  assumes "queue_step R C P w w'" and "task_cond P" and "queue_inv R C P (rds w)"
  shows "queue_inv R C P (rds w')"
  using assms
  by (induction rule: queue_step.induct)
    (simp_all add: Enqueue_inv EnqueueDelayed_inv Lease_inv LeaseAny_inv Ack_inv Nack_inv
      DeadLetter_inv Heartbeat_inv ReclaimInflight_inv PromoteDelayed_inv Publish_inv)

lemma queue_steps_inv:
  assumes "queue_steps R C P w w'" and "task_cond P" and "queue_inv R C P (rds w)"
  shows "queue_inv R C P (rds w')"
  using assms by (induction rule: queue_steps.induct) (auto intro: queue_step_inv)

end

lemma scan_loop_fuel: "scan_loop R pat n c w = Some res \<Longrightarrow> n \<le> m \<Longrightarrow> scan_loop R pat m c w = Some res"
proof (induction n arbitrary: m c w res)
  case (Suc n)
  from Suc.prems(2) obtain m' where m: "m = Suc m'" "n \<le> m'" by (cases m) auto
  show ?case
  proof (cases "rcall (\<lambda>r. (SCAN R c pat 100 r, r)) w")
    case (Pair a w1)
    show ?thesis
    proof (cases a)
      case (Inr p)
      obtain ks c' where p: "p = (ks, c')" by fastforce
      show ?thesis
      proof (cases "scan_loop R pat n c' w1")
        case None
        with Suc.prems(1) Pair Inr p m show ?thesis by (simp split: if_splits)
      next
        case (Some res')
        with Suc.IH [OF Some m(2)] Suc.prems(1) Pair Inr p m show ?thesis by (simp split: if_splits)
      qed
    qed (use Suc.prems(1) Pair m in simp)
  qed
qed simp

lemma ListTypes_fuel: "ListTypes R n w = Some res \<Longrightarrow> n \<le> m \<Longrightarrow> ListTypes R m w = Some res"
  using scan_loop_fuel [of R "''queue:*''" n 0 w _ m]
  by (cases "scan_loop R ''queue:*'' n 0 w") (simp_all add: ListTypes_def)

lemma queue_inv_empty: "queue_inv ref_redis C P ref_empty"
  by (simp add: queue_inv_def ref_redis_def ref_empty_def at_key_def)

subsection \<open>A concrete world\<close>

text \<open>A fresh server, an e-mail task, and the server after that task was enqueued.\<close>

definition json_std :: codec where
  "json_std = json_codec uuid_text uuid_read (\<lambda>t. Some (show_int t))"

definition no_rows :: tables where
  "no_rows = \<lparr>tasks = [], workers = [], task_events = [], events_seq = 0, dead_letters = [],
     dl_seq = 0\<rparr>"

definition fresh_world :: "ref_redis world" where
  "fresh_world = \<lparr>rds = ref_empty, rnet = [], db = no_rows, pgnet = [],
     clk = 1700000000000000000\<rparr>"

definition email_env :: envelope where
  "email_env = \<lparr>EnvID = 7, EnvType = ''email'', EnvPriority = 5, EnvAttempts = 0,
     EnvMaxAttempts = 3, EnvPayload = ''{}'', EnqueuedAt = 1700000000000\<rparr>"

definition queued_world :: "ref_redis world" where
  "queued_world = snd (Enqueue ref_redis json_std email_env fresh_world)"

lemma std_queue: "task_queue ref_redis json_std"
  unfolding json_std_def by (rule rq.task_queue_axioms)

lemma email_wf: "env_wf json_std email_env"
  by code_simp

lemma fresh_facts: "rok fresh_world" "pok fresh_world" "rds fresh_world = ref_empty"
    "clk fresh_world = 1700000000000000000"
  by (simp_all add: fresh_world_def rok_def pok_def)

lemma queued_facts: "rok queued_world" "pok queued_world" "db queued_world = no_rows"
  unfolding queued_world_def by (simp_all add: fresh_facts) (simp add: fresh_world_def)

lemma queued_inv:
  assumes "task_cond P" and "P email_env"
  shows "queue_inv ref_redis json_std P (rds queued_world)"
  unfolding queued_world_def
proof (rule task_queue.Enqueue_inv [OF std_queue _ assms email_wf])
  show "queue_inv ref_redis json_std P (rds fresh_world)" by (simp add: fresh_facts queue_inv_empty)
  show "int64_range (UnixMilli (clk fresh_world))"
    by (simp add: fresh_facts UnixMilli_def int64_range_def)
qed

lemma email_compact: "compacted json_std email_env = email_env"
  by code_simp

lemma queued_view:
  obtains m where "written json_std m email_env"
    and "view ref_redis (rds queued_world) = (view ref_redis ref_empty)\<lparr>zset := (\<lambda>_. Map.empty)
      (QueueKey ''email'' := [m \<mapsto> priorityScore 5 1700000000000])\<rparr>"
proof -
  have std: "envelope_codec json_std" by (rule task_queue.axioms(2) [OF std_queue])
  from email_wf obtain m where m: "marshal json_std email_env = Some m"
    "written json_std m (compacted json_std email_env)" by (rule envelope_codec.marshal_wf [OF std])
  have e: "EnqueuedAt email_env = 1700000000000" "EnvType email_env = ''email''"
    "EnvPriority email_env = 5" by (simp_all add: email_env_def)
  have "zset (view ref_redis ref_empty) = (\<lambda>_. Map.empty)"
    by (simp add: ref_redis_def ref_empty_def at_key_def)
  with task_queue.Enqueue_view(2) [OF std_queue fresh_facts(1), of email_env m] m(1) e
  have "view ref_redis (rds queued_world) = (view ref_redis ref_empty)\<lparr>zset := (\<lambda>_. Map.empty)
      (QueueKey ''email'' := [m \<mapsto> priorityScore 5 1700000000000])\<rparr>"
    by (simp add: queued_world_def fresh_facts)
  with m(2) show ?thesis by (intro that) (simp_all only: email_compact)
qed

lemma queued_ready:
  obtains m where "written json_std m email_env"
    and "ready ref_redis queued_world ''email'' = [m \<mapsto> priorityScore 5 1700000000000]"
  by (rule queued_view) simp

lemma queued_other: "t \<noteq> ''email'' \<Longrightarrow> ready ref_redis queued_world t = Map.empty"
  by (rule queued_view) simp

lemma queued_members:
  "ready ref_redis queued_world ''email'' m = Some s \<Longrightarrow> written json_std m email_env"
  by (rule queued_ready) (simp split: if_splits)

lemma queued_nonempty: "ready ref_redis queued_world ''email'' \<noteq> Map.empty"
  by (rule queued_ready) simp

lemmas std_written = envelope_codec.writtenD [OF task_queue.axioms(2) [OF std_queue]]

subsection \<open>Properties\<close>

lemma score_lex:
  assumes "0 \<le> a" "a < 10 ^ 13" "0 \<le> b" "b < 10 ^ 13"
  shows "priorityScore p a \<le> priorityScore q b \<longleftrightarrow>
    clamp_priority p < clamp_priority q \<or> clamp_priority p = clamp_priority q \<and> a \<le> b"
  using assms by (auto simp: priorityScore_exact)

text \<open>
  C11. Until the year 2286 the float score of an envelope orders envelopes first by their
  priority, clamped to 0 .. 9, and then by enqueue time: no rounding of \<open>float64\<close> mixes two
  priorities or two milliseconds.
\<close>

theorem priorityScore_lexicographic:
  assumes "0 \<le> a" and "a < 10 ^ 13" and "0 \<le> b" and "b < 10 ^ 13"
  shows "priorityScore p a < priorityScore q b \<longleftrightarrow>
    clamp_priority p < clamp_priority q \<or> clamp_priority p = clamp_priority q \<and> a < b"
  using score_lex [OF assms(3,4,1,2), of q p] by auto

theorem priorityScore_lexicographic_witness:
  "priorityScore (- 4) 1700000000999 < priorityScore 1 1700000000000"
  using priorityScore_lexicographic [of 1700000000999 1700000000000 "- 4" 1]
  by (simp add: clamp_priority_def)





text \<open>
  C7. Every sequence of queue operations, with any network faults and delays between and
  during them, keeps the queue's invariant: members decode, sit under the key of their type,
  carry the score of their envelope, in-flight fields are the ids of what they hold, and a
  condition on tasks that the callers establish for what they enqueue holds for everything
  in Redis.
\<close>

theorem queue_invariant:
  assumes "task_queue R C" and "queue_steps R C P w w'" and "task_cond P"
    and "queue_inv R C P (rds w)"
  shows "queue_inv R C P (rds w')"
  using assms by (rule task_queue.queue_steps_inv)

theorem queue_invariant_witness:
  "queue_inv ref_redis json_std (\<lambda>e. EnvAttempts e < EnvMaxAttempts e)
     (rds (snd (Lease ref_redis json_std ''email'' ''w1'' queued_world)))"
proof (rule queue_invariant [OF std_queue])
  let ?P = "\<lambda>e. EnvAttempts e < EnvMaxAttempts e"
  show "queue_steps ref_redis json_std ?P queued_world
      (snd (Lease ref_redis json_std ''email'' ''w1'' queued_world))"
    by (rule queue_steps.after [OF queue_steps.stay queue_step.lease])
  show P: "task_cond ?P" by (simp add: task_cond_def)
  show "queue_inv ref_redis json_std ?P (rds queued_world)"
    by (rule queued_inv [OF P]) (simp add: email_env_def)
qed

lemma enqueue_lease_ack_parts:
  fixes R :: "'r redis" and C env wk w
  defines "env1 \<equiv> (if EnqueuedAt env = 0 then env\<lparr>EnqueuedAt := UnixMilli (clk w)\<rparr> else env)"
  defines "w1 \<equiv> snd (Enqueue R C env w)"
  defines "w2 \<equiv> snd (Lease R C (EnvType env) wk w1)"
  defines "w3 \<equiv> snd (Ack R C wk (EnvID env) w2)"
  assumes "task_queue R C" and "rok w" and "queue_inv R C (\<lambda>_. True) (rds w)"
    and "ready R w (EnvType env) = Map.empty" and "env_wf C env1"
  shows "fst (Enqueue R C env w) = Inr ()"
    and "fst (Lease R C (EnvType env) wk w1) = Inr (compacted C env1)"
    and "inflight R w2 wk (UUID_String C (EnvID env)) = marshal C env1"
    and "fst (Ack R C wk (EnvID env) w2) = Inr ()"
    and "view R (rds w3) = (view R (rds w))\<lparr>hash := (hash (view R (rds w)))
      (InflightKey wk := (inflight R w wk)(UUID_String C (EnvID env) := None))\<rparr>"
proof -
  note cod = task_queue.axioms(2) [OF assms(5)]
  from assms(9) obtain m where m: "marshal C env1 = Some m" "written C m (compacted C env1)"
    by (rule envelope_codec.marshal_wf [OF cod])
  note E = task_queue.Enqueue_view [OF assms(5,6) m(1) [unfolded env1_def]]
  from E(1) show "fst (Enqueue R C env w) = Inr ()" .
  have v1: "view R (rds w1) = (view R (rds w))\<lparr>zset := (zset (view R (rds w)))(QueueKey (EnvType env) :=
      [m \<mapsto> priorityScore (EnvPriority env) (EnqueuedAt env1)])\<rparr>"
    using E(2) assms(8) by (simp add: w1_def env1_def)
  have same: "EnvID env1 = EnvID env" "EnvType env1 = EnvType env" "EnvPriority env1 = EnvPriority env"
    by (simp_all add: env1_def)
  have "queue_inv R C (\<lambda>_. True) (rds w1)"
    using assms(7) m(2) same unfolding queue_inv_def v1
    by (auto simp: task_queue.inv_HSET intro!: exI [of _ "compacted C env1"])
  moreover have "rok w1" using assms(6) by (simp add: w1_def)
  moreover have "ready R w1 (EnvType env) \<noteq> Map.empty" by (simp add: v1)
  ultimately obtain m' s e where l: "ready R w1 (EnvType env) m' = Some s" "written C m' e"
    "fst (Lease R C (EnvType env) wk w1) = Inr e"
    "view R (rds w2) = (view R (rds w1))\<lparr>
      zset := (zset (view R (rds w1)))(QueueKey (EnvType env) := (ready R w1 (EnvType env))(m' := None)),
      hash := (hash (view R (rds w1)))(InflightKey wk :=
        (inflight R w1 wk)(UUID_String C (EnvID e) \<mapsto> m'))\<rparr>"
    using task_queue.Lease_pops [OF assms(5), of w1 "\<lambda>_. True" "EnvType env" wk]
    unfolding w2_def by blast
  from l(1) have m': "m' = m" by (simp add: v1 split: if_splits)
  with l(2) have "unmarshal C m = Some e" by (simp add: envelope_codec.writtenD(1) [OF cod])
  with envelope_codec.writtenD(1) [OF cod m(2)] have e: "e = compacted C env1" by simp
  with l(3) show "fst (Lease R C (EnvType env) wk w1) = Inr (compacted C env1)" by simp
  have id: "EnvID e = EnvID env" by (simp add: e same)
  show "inflight R w2 wk (UUID_String C (EnvID env)) = marshal C env1"
    using m(1) by (simp add: l(4) m' id)
  have "rok w2" using \<open>rok w1\<close> by (simp add: w2_def)
  note A = task_queue.Ack_view [OF assms(5) this, of wk "EnvID env"]
  show "fst (Ack R C wk (EnvID env) w2) = Inr ()" by (rule A(1))
  have "(zset (view R (rds w)))(QueueKey (EnvType env) := Map.empty) = zset (view R (rds w))"
    using assms(8) by (rule fun_upd_idem)
  then show "view R (rds w3) = (view R (rds w))\<lparr>hash := (hash (view R (rds w)))
      (InflightKey wk := (inflight R w wk)(UUID_String C (EnvID env) := None))\<rparr>"
    unfolding w3_def A(2) l(4) m' id v1 by simp
qed

text \<open>
  Round trip: an envelope enqueued into an empty queue is what the next lease of its type
  returns (its enqueue time stamped if it had none, its payload compacted), it is in flight
  while it is leased, and after the acknowledgement nothing of it is left in Redis.
\<close>

theorem enqueue_lease_ack:
  assumes "task_queue R C" and "rok w" and "queue_inv R C (\<lambda>_. True) (rds w)"
    and "ready R w (EnvType env) = Map.empty"
    and "env_wf C (if EnqueuedAt env = 0 then env\<lparr>EnqueuedAt := UnixMilli (clk w)\<rparr> else env)"
  shows "let env1 = (if EnqueuedAt env = 0 then env\<lparr>EnqueuedAt := UnixMilli (clk w)\<rparr> else env);
      (r1, w1) = Enqueue R C env w;
      (r2, w2) = Lease R C (EnvType env) wk w1;
      (r3, w3) = Ack R C wk (EnvID env) w2
    in r1 = Inr () \<and> r2 = Inr (compacted C env1) \<and>
       inflight R w2 wk (UUID_String C (EnvID env)) = marshal C env1 \<and> r3 = Inr () \<and>
       view R (rds w3) = (view R (rds w))\<lparr>hash := (hash (view R (rds w)))
         (InflightKey wk := (inflight R w wk)(UUID_String C (EnvID env) := None))\<rparr>"
  using enqueue_lease_ack_parts(1) [OF assms] enqueue_lease_ack_parts(2-5) [where wk = wk, OF assms]
  by (auto simp only: Let_def case_prod_beta)

theorem enqueue_lease_ack_witness:
  "fst (Lease ref_redis json_std ''email'' ''w1'' queued_world) = Inr email_env"
proof -
  have e: "EnqueuedAt email_env \<noteq> 0" "EnvType email_env = ''email''" by (simp_all add: email_env_def)
  have "ready ref_redis fresh_world (EnvType email_env) = Map.empty"
    by (simp add: fresh_facts ref_redis_def ref_empty_def at_key_def)
  moreover have "queue_inv ref_redis json_std (\<lambda>_. True) (rds fresh_world)"
    by (simp add: fresh_facts queue_inv_empty)
  ultimately show ?thesis
    using enqueue_lease_ack [OF std_queue fresh_facts(1), of email_env "''w1''"] e email_wf
    by (simp add: queued_world_def email_compact case_prod_beta Let_def)
qed

text \<open>
  \<open>LeaseAny\<close> serves the types in the given order: when no earlier type has ready work,
  it behaves as a lease of the first type that has, made after attempts on the others that
  left Redis unchanged; when no type has work it returns \<open>ErrEmpty\<close> and changes nothing.
\<close>

theorem LeaseAny_order:
  assumes "task_queue R C" and "rok w" and "queue_inv R C P (rds w)"
    and "\<forall>t\<in>set ts. ready R w t = Map.empty"
  shows "fst (LeaseAny R C ts wk w) = Inl ErrEmpty \<and>
    view R (rds (snd (LeaseAny R C ts wk w))) = view R (rds w) \<and>
    (ready R w t \<noteq> Map.empty \<longrightarrow> (\<exists>w1. rok w1 \<and> view R (rds w1) = view R (rds w) \<and>
       LeaseAny R C (ts @ t # us) wk w = Lease R C t wk w1))"
  using task_queue.LeaseAny_empty [OF assms(1,2,4), of wk]
    task_queue.LeaseAny_first [OF assms(1,2,4) _ assms(3)] by blast

theorem LeaseAny_order_witness:
  "\<exists>w1. LeaseAny ref_redis json_std [''sleep'', ''email'', ''echo''] ''w1'' queued_world =
     Lease ref_redis json_std ''email'' ''w1'' w1"
proof -
  have "\<forall>t\<in>set [''sleep'']. ready ref_redis queued_world t = Map.empty"
    by (simp add: queued_other)
  from LeaseAny_order [OF std_queue queued_facts(1) queued_inv this, of "\<lambda>_. True" "''w1''" "''email''" "[''echo'']"]
    queued_nonempty
  show ?thesis by (auto simp: task_cond_def)
qed

text \<open>
  C15. \<open>ReclaimInflight\<close> returns exactly the envelopes in flight for the worker, no id twice,
  and leaves the worker's in-flight hash empty and the rest of Redis as it was.
\<close>

theorem ReclaimInflight_complete:
  assumes "task_queue R C" and "rok w" and "queue_inv R C P (rds w)"
  shows "\<exists>envs. fst (ReclaimInflight R C wk w) = Inr envs \<and>
    set envs = {e. \<exists>f v. inflight R w wk f = Some v \<and> unmarshal C v = Some e} \<and>
    distinct (map EnvID envs) \<and> card (dom (inflight R w wk)) = length envs \<and>
    view R (rds (snd (ReclaimInflight R C wk w))) = (view R (rds w))\<lparr>hash :=
      (hash (view R (rds w)))(InflightKey wk := Map.empty)\<rparr>"
proof -
  note cod = task_queue.axioms(2) [OF assms(1)]
  from task_queue.ReclaimInflight_view [OF assms, of wk] obtain envs
    where envs: "fst (ReclaimInflight R C wk w) = Inr envs"
      "set envs = {e. \<exists>f v. inflight R w wk f = Some v \<and> unmarshal C v = Some e}"
      "distinct (map EnvID envs)"
      "view R (rds (snd (ReclaimInflight R C wk w))) = (view R (rds w))\<lparr>hash :=
        (hash (view R (rds w)))(InflightKey wk := Map.empty)\<rparr>" by blast
  have "dom (inflight R w wk) = (\<lambda>e. UUID_String C (EnvID e)) ` set envs"
    using task_queue.inflight_decodes [OF assms(1,3)] envelope_codec.writtenD(1) [OF cod]
    unfolding envs(2) by (fastforce simp: dom_def image_iff)
  moreover have "inj_on (\<lambda>e. UUID_String C (EnvID e)) (set envs)"
    using envs(3) envelope_codec.uuid_inj [OF cod] by (auto simp: inj_on_def distinct_map)
  ultimately have "card (dom (inflight R w wk)) = length envs"
    using envs(3) by (simp add: card_image distinct_card distinct_map)
  with envs show ?thesis by blast
qed

theorem ReclaimInflight_complete_witness:
  "\<exists>envs. fst (ReclaimInflight ref_redis json_std ''w1''
     (snd (Lease ref_redis json_std ''email'' ''w1'' queued_world))) = Inr envs"
  using ReclaimInflight_complete [OF std_queue _ task_queue.Lease_inv [OF std_queue queued_inv [of "\<lambda>_. True"]],
      of "''email''" "''w1''" "''w1''"] queued_facts(1) by (auto simp: task_cond_def)

text \<open>
  C10. \<open>PromoteDelayed\<close> moves the earliest 256 of the delayed members that are due (all of
  them when there are fewer): each leaves the delayed set and appears in the ready queue of
  its type with the current time as its enqueue time and the score of its priority; members
  that are not due stay, and the call returns the number of members it moved.
\<close>

theorem PromoteDelayed_moves_due:
  assumes "task_queue R C" and "rok w" and "queue_inv R C P (rds w)"
    and "int64_range (UnixMilli now)"
  shows "\<exists>ms. let due = {m. \<exists>s\<le>f64 (UnixMilli now). delayed R w t m = Some s};
      body = (\<lambda>m. the (marshal C (promoted C (UnixMilli now) m)));
      score = (\<lambda>m. priorityScore (EnvPriority (promoted C (UnixMilli now) m)) (UnixMilli now))
    in distinct ms \<and> set ms \<subseteq> due \<and> length ms = min 256 (card due) \<and>
      (\<forall>m\<in>set ms. \<forall>m' s'. delayed R w t m' = Some s' \<and> m' \<notin> set ms \<and> m' \<in> due \<longrightarrow>
         (the (delayed R w t m), m) \<le> (s', m')) \<and>
      fst (PromoteDelayed R C t now w) = Inr (length ms) \<and>
      view R (rds (snd (PromoteDelayed R C t now w))) = (view R (rds w))\<lparr>zset :=
        (zset (view R (rds w)))(DelayedKey t := delayed R w t |` (- set ms),
          QueueKey t := (ready R w t)(map body ms [\<mapsto>] map score ms))\<rparr>"
  unfolding Let_def by (rule task_queue.PromoteDelayed_view [OF assms])

definition delayed_world :: "ref_redis world" where
  "delayed_world = snd (EnqueueDelayed ref_redis json_std email_env 1700000060000000000 fresh_world)"

lemma delayed_world_facts:
  "rok delayed_world" "queue_inv ref_redis json_std (\<lambda>_. True) (rds delayed_world)"
  unfolding delayed_world_def
  by (simp_all add: fresh_facts queue_inv_empty email_wf task_cond_def
      task_queue.EnqueueDelayed_inv [OF std_queue])

theorem PromoteDelayed_moves_due_witness:
  "\<exists>n. fst (PromoteDelayed ref_redis json_std ''email'' 1700000060000000000 delayed_world) = Inr n"
  using PromoteDelayed_moves_due [OF std_queue delayed_world_facts,
      of 1700000060000000000 "''email''"]
  by (auto simp: UnixMilli_def int64_range_def Let_def)

text \<open>
  A heartbeat makes \<open>IsAlive\<close> return true until the TTL has passed since the heartbeat
  was sent, in whole milliseconds, and false from then on.
\<close>

theorem heartbeat_expires:
  assumes "task_queue R C" and "rok w" and "1000000 \<le> ttl" and "rok w'"
    and "rds w' = rds (snd (Heartbeat R wk ttl w))"
  shows "fst (Heartbeat R wk ttl w) = Inr () \<and>
    fst (IsAlive R wk w') = Inr (UnixMilli (clk w') < UnixMilli (clk w) + ttl div 1000000)"
  using task_queue.Heartbeat_view [OF assms(1-3), of wk] task_queue.IsAlive_result [OF assms(1,4), of wk]
    assms(5) by (simp add: key_alive_def)

theorem heartbeat_expires_witness:
  "fst (IsAlive ref_redis ''w1'' ((snd (Heartbeat ref_redis ''w1'' 10000000000 fresh_world))\<lparr>clk :=
     1700000010000000000\<rparr>)) = Inr False"
  using heartbeat_expires [OF std_queue fresh_facts(1), of 10000000000
      "(snd (Heartbeat ref_redis ''w1'' 10000000000 fresh_world))\<lparr>clk := 1700000010000000000\<rparr>" "''w1''"]
    queue_rok(7) [OF fresh_facts(1), of ref_redis "''w1''" 10000000000]
  by (simp add: fresh_facts UnixMilli_def rok_def)

text \<open>
  C16. The scan loop of \<open>ListTypes\<close> ends: from some amount of fuel on it returns, and what
  it returns is, without repetition, exactly the types that have ready work.
\<close>

theorem ListTypes_terminates:
  assumes "task_queue R C" and "rok w"
  shows "\<exists>n types w1. \<forall>fuel\<ge>n. ListTypes R fuel w = Some (Inr types, w1) \<and> distinct types \<and>
    rds w1 = rds w \<and> set types = {t. ready R w t \<noteq> Map.empty}"
  using task_queue.ListTypes_complete [OF assms] ListTypes_fuel by metis

theorem ListTypes_terminates_witness:
  "\<exists>n types w1. \<forall>fuel\<ge>n. ListTypes ref_redis fuel queued_world = Some (Inr types, w1) \<and>
    set types = {''email''}"
proof -
  have "{t. ready ref_redis queued_world t \<noteq> Map.empty} = {''email''}"
    using queued_nonempty queued_other by blast
  with ListTypes_terminates [OF std_queue queued_facts(1)] show ?thesis by metis
qed



end
