(* ===== verification/Store.thy ===== *)
theory Store
  imports World Json
begin

section \<open>The PostgreSQL repository (internal/store/store.go)\<close>

text \<open>
  One definition per operation of \<open>Store\<close>. A SQL statement of the source is a function on
  the tables: an \<open>UPDATE\<close> maps over the rows, an \<open>INSERT\<close> appends a row, a
  \<open>SELECT\<close> filters, sorts and cuts off. What the statements leave to the server is the
  record \<open>pg\<close>: which texts a \<open>TEXT\<close> column accepts, the form in which \<open>JSONB\<close>
  keeps a JSON text, the order in which it visits rows that no \<open>ORDER BY\<close> separates, and
  whether the error of a failed query surfaces when the query is sent (\<open>None\<close>) or after how many
  rows were read.
  \<open>now()\<close> is the time at which the statement was sent.
\<close>

record pg =
  text_in :: "string \<Rightarrow> bool"
  jsonb_in :: "string \<Rightarrow> string option"
  scan_tasks :: "task list \<Rightarrow> task list"
  scan_workers :: "worker_row list \<Rightarrow> worker_row list"
  scan_letters :: "dead_letter list \<Rightarrow> dead_letter list"
  scan_groups :: "(string \<times> int) list \<Rightarrow> (string \<times> int) list"
  late :: "err \<Rightarrow> nat option"

text \<open>What the server documents: see the PostgreSQL manual on text types, \<open>jsonb\<close> and
  the order of query results.\<close>

definition plain_text :: "string \<Rightarrow> bool" where
  "plain_text s \<longleftrightarrow> list_all (\<lambda>c. 0 < (of_char c :: nat) \<and> (of_char c :: nat) < 128) s"

locale postgres =
  fixes Q :: pg
  assumes text_ascii: "plain_text s \<Longrightarrow> text_in Q s"
    and jsonb_stable: "jsonb_in Q p = Some q \<Longrightarrow> jsonb_in Q q = Some q"
    and jsonb_object: "jsonb_in Q ''{}'' = Some ''{}''"
    and jsonb_null: "jsonb_in Q ''null'' = Some ''null''"
    and scan_tasks: "mset (scan_tasks Q ts) = mset ts"
    and scan_workers: "mset (scan_workers Q ws) = mset ws"
    and scan_letters: "mset (scan_letters Q ds) = mset ds"
    and scan_groups: "mset (scan_groups Q gs) = mset gs"

text \<open>A \<open>TIMESTAMPTZ\<close> column keeps microseconds.\<close>

definition usec :: "time \<Rightarrow> time" where
  "usec t = t div 1000 * 1000"

subsection \<open>Statements\<close>

definition bad_text :: err where "bad_text = Err ''invalid byte sequence for encoding UTF8''"
definition bad_json :: err where "bad_json = Err ''invalid input syntax for type json''"
definition bad_int :: err where "bad_int = Err ''integer out of range''"
definition dup_key :: err where "dup_key = Err ''duplicate key value''"

text \<open>\<open>UPDATE tasks SET f WHERE p\<close>.\<close>

definition update_tasks :: "(task \<Rightarrow> bool) \<Rightarrow> (task \<Rightarrow> task) \<Rightarrow> tables \<Rightarrow> tables" where
  "update_tasks p f T = T\<lparr>tasks := map (\<lambda>r. if p r then f r else r) (tasks T)\<rparr>"

definition update_workers :: "(worker_row \<Rightarrow> bool) \<Rightarrow> (worker_row \<Rightarrow> worker_row) \<Rightarrow> tables \<Rightarrow> tables" where
  "update_workers p f T = T\<lparr>workers := map (\<lambda>r. if p r then f r else r) (workers T)\<rparr>"

definition insert_task :: "pg \<Rightarrow> task \<Rightarrow> tables \<Rightarrow> (err + unit) \<times> tables" where
  "insert_task Q t T =
     (if \<not> (text_in Q (Type t) \<and> text_in Q (Status t)) then (Inl bad_text, T)
      else case jsonb_in Q (Payload t) of
             None \<Rightarrow> (Inl bad_json, T)
           | Some p \<Rightarrow>
               if ID t \<in> ID ` set (tasks T) then (Inl dup_key, T)
               else (Inr (), T\<lparr>tasks := tasks T @
                 [\<lparr>ID = ID t, Type = Type t, Payload = p, Priority = Priority t, Status = Status t,
                   Attempts = Attempts t, MaxAttempts = MaxAttempts t,
                   AvailableAt = usec (AvailableAt t), StartedAt = None, FinishedAt = None,
                   WorkerID = None, Result = '''', LastError = '''',
                   CreatedAt = usec (CreatedAt t), UpdatedAt = usec (UpdatedAt t)\<rparr>]\<rparr>))"

definition insert_event ::
  "pg \<Rightarrow> time \<Rightarrow> uuid \<Rightarrow> string \<Rightarrow> string \<Rightarrow> tables \<Rightarrow> (err + unit) \<times> tables" where
  "insert_event Q now i eventType message T =
     (if \<not> (text_in Q eventType \<and> text_in Q message) then (Inl bad_text, T)
      else (Inr (), T\<lparr>events_seq := events_seq T + 1, task_events := task_events T @
        [\<lparr>EvID = events_seq T + 1, EvTaskID = i, EventType = eventType, EvMessage = message,
          EvCreatedAt = usec now\<rparr>]\<rparr>))"

definition insert_dead_letter ::
  "pg \<Rightarrow> uuid \<Rightarrow> string \<Rightarrow> string \<Rightarrow> time \<Rightarrow> tables \<Rightarrow> (err + unit) \<times> tables" where
  "insert_dead_letter Q i reason payload failedAt T =
     (if \<not> text_in Q reason then (Inl bad_text, T)
      else case jsonb_in Q payload of
             None \<Rightarrow> (Inl bad_json, T)
           | Some p \<Rightarrow> (Inr (), T\<lparr>dl_seq := dl_seq T + 1, dead_letters := dead_letters T @
               [\<lparr>DlID = dl_seq T + 1, DlTaskID = i, Reason = reason, DlPayload = p,
                 FailedAt = usec failedAt\<rparr>]\<rparr>))"

text \<open>
  A query for many rows: an error is returned by \<open>Query\<close> itself or, when it surfaces late,
  by \<open>rows.Err()\<close> after the loop over the rows that arrived, a beginning of the result.
\<close>

definition first_rows :: "nat \<Rightarrow> err + 'a list \<Rightarrow> 'a list" where
  "first_rows n res = (case res of Inl _ \<Rightarrow> [] | Inr rows \<Rightarrow> take n rows)"

definition pgquery ::
  "pg \<Rightarrow> (tables \<Rightarrow> (err + 'a list) \<times> tables) \<Rightarrow> 'r world \<Rightarrow>
   (err + 'a list \<times> err option) \<times> 'r world" where
  "pgquery Q f w =
     (case pgcall f w of
        (Inr rows, w1) \<Rightarrow> (Inr (rows, None), w1)
      | (Inl e, w1) \<Rightarrow>
          (case late Q e of
             None \<Rightarrow> (Inl e, w1)
           | Some n \<Rightarrow> (Inr (first_rows n (fst (f (db w))), Some e), w1)))"

subsection \<open>Operations on tasks\<close>

definition LogEvent ::
  "pg \<Rightarrow> uuid \<Rightarrow> string \<Rightarrow> string \<Rightarrow> 'r world \<Rightarrow> (err + unit) \<times> 'r world" where
  "LogEvent Q i eventType message w = pgcall (insert_event Q (clk w) i eventType message) w"

text \<open>
  \<open>CreateTask\<close> fills in the defaults of the struct it is given, and this is what its
  callers see of it afterwards; \<open>u\<close> is the UUID that \<open>uuid.New\<close> would draw. Integers
  that do not fit the column are refused by the driver before anything is sent.
\<close>

definition task_defaults :: "uuid \<Rightarrow> time \<Rightarrow> task \<Rightarrow> task" where
  "task_defaults u now t =
     (let t = (if ID t = uuid_Nil then t\<lparr>ID := u\<rparr> else t);
          t = (if MaxAttempts t \<le> 0 then t\<lparr>MaxAttempts := 3\<rparr> else t);
          t = (if Status t = '''' then t\<lparr>Status := StatusQueued\<rparr> else t);
          t = (if AvailableAt t = zero_time then t\<lparr>AvailableAt := now\<rparr> else t);
          t = (if length (Payload t) = 0 then t\<lparr>Payload := ''{}''\<rparr> else t)
      in t\<lparr>CreatedAt := now, UpdatedAt := now\<rparr>)"

definition CreateTask ::
  "pg \<Rightarrow> uuid \<Rightarrow> task \<Rightarrow> 'r world \<Rightarrow> (err + unit) \<times> task \<times> 'r world" where
  "CreateTask Q u t0 w =
     (let t = task_defaults u (clk w) t0
      in if \<not> (int4_range (Priority t) \<and> int4_range (Attempts t) \<and> int4_range (MaxAttempts t))
         then (Inl (wrap_err ''insert task: '' bad_int), t, w)
         else case pgcall (insert_task Q t) w of
                (Inl e, w1) \<Rightarrow> (Inl (wrap_err ''insert task: '' e), t, w1)
              | (Inr _, w1) \<Rightarrow>
                  (case LogEvent Q (ID t) ''created'' '''' w1 of (res, w2) \<Rightarrow> (res, t, w2)))"

text \<open>\<open>scanTask\<close> copies the columns of a row into a fresh struct.\<close>

definition scanTask :: "err + task \<Rightarrow> err + task" where
  "scanTask row =
     (case row of
        Inl e \<Rightarrow> if e = ErrNoRows then Inl ErrNotFound else Inl e
      | Inr r \<Rightarrow>
          let t = zero_task\<lparr>ID := ID r, Type := Type r, Priority := Priority r, Status := Status r,
                Attempts := Attempts r, MaxAttempts := MaxAttempts r, AvailableAt := AvailableAt r,
                LastError := LastError r, CreatedAt := CreatedAt r, UpdatedAt := UpdatedAt r\<rparr>;
              t = t\<lparr>Payload := Payload r\<rparr>;
              t = (if length (Result r) > 0 then t\<lparr>Result := Result r\<rparr> else t)
          in Inr (t\<lparr>WorkerID := WorkerID r, StartedAt := StartedAt r, FinishedAt := FinishedAt r\<rparr>))"

text \<open>The loop over the rows of a query that returns tasks; the first scan error ends it.\<close>

fun scan_rows :: "task list \<Rightarrow> err + task list" where
  "scan_rows [] = Inr []"
| "scan_rows (r # rows) =
     (case scanTask (Inr r) of
        Inl e \<Rightarrow> Inl e
      | Inr t \<Rightarrow> (case scan_rows rows of Inl e \<Rightarrow> Inl e | Inr ts \<Rightarrow> Inr (t # ts)))"

text \<open>\<open>QueryRow\<close>: the first row, or \<open>pgx.ErrNoRows\<close>.\<close>

definition first_row :: "'a list \<Rightarrow> err + 'a" where
  "first_row rows = (case rows of [] \<Rightarrow> Inl ErrNoRows | r # _ \<Rightarrow> Inr r)"

definition GetTask :: "pg \<Rightarrow> uuid \<Rightarrow> 'r world \<Rightarrow> (err + task) \<times> 'r world" where
  "GetTask Q i w =
     (case pgcall (\<lambda>T. (first_row (filter (\<lambda>r. ID r = i) (tasks T)), T)) w of
        (row, w1) \<Rightarrow> (scanTask row, w1))"

definition clamp_limit :: "int \<Rightarrow> int" where
  "clamp_limit limit = (if limit \<le> 0 \<or> limit > 500 then 100 else limit)"

definition ListTasks ::
  "pg \<Rightarrow> string \<Rightarrow> string \<Rightarrow> int \<Rightarrow> 'r world \<Rightarrow> (err + task list) \<times> 'r world" where
  "ListTasks Q status typ limit0 w =
     (let limit = clamp_limit limit0
      in case pgquery Q (\<lambda>T.
            if \<not> (text_in Q status \<and> text_in Q typ) then (Inl bad_text, T)
            else (Inr (take (nat limit) (sort_key (\<lambda>r. - CreatedAt r) (scan_tasks Q
              (filter (\<lambda>r. (status = '''' \<or> Status r = status) \<and> (typ = '''' \<or> Type r = typ))
                (tasks T))))), T)) w of
           (Inl e, w1) \<Rightarrow> (Inl e, w1)
         | (Inr (rows, rerr), w1) \<Rightarrow>
             (case scan_rows rows of
                Inl e \<Rightarrow> (Inl e, w1)
              | Inr out \<Rightarrow> (case rerr of Some e \<Rightarrow> (Inl e, w1) | None \<Rightarrow> (Inr out, w1))))"

definition MarkRunning ::
  "pg \<Rightarrow> uuid \<Rightarrow> string \<Rightarrow> 'r world \<Rightarrow> (err + unit) \<times> 'r world" where
  "MarkRunning Q i workerID w =
     (let now = clk w
      in case pgcall (\<lambda>T.
            if \<not> text_in Q workerID then (Inl bad_text, T)
            else if \<exists>r\<in>set (tasks T). ID r = i \<and> \<not> int4_range (Attempts r + 1) then (Inl bad_int, T)
            else (Inr (), update_tasks (\<lambda>r. ID r = i) (\<lambda>r. r\<lparr>Status := StatusRunning,
              StartedAt := Some (usec now), WorkerID := Some workerID, UpdatedAt := usec now,
              Attempts := Attempts r + 1\<rparr>) T)) w of
           (Inl e, w1) \<Rightarrow> (Inl e, w1)
         | (Inr _, w1) \<Rightarrow> LogEvent Q i ''started'' (''worker='' @ workerID) w1)"

definition MarkSucceeded ::
  "pg \<Rightarrow> uuid \<Rightarrow> string \<Rightarrow> 'r world \<Rightarrow> (err + unit) \<times> 'r world" where
  "MarkSucceeded Q i result0 w =
     (let now = clk w;
          result = (if length result0 = 0 then ''null'' else result0)
      in case pgcall (\<lambda>T.
            case jsonb_in Q result of
              None \<Rightarrow> (Inl bad_json, T)
            | Some j \<Rightarrow> (Inr (), update_tasks (\<lambda>r. ID r = i) (\<lambda>r. r\<lparr>Status := StatusSucceeded,
                FinishedAt := Some (usec now), UpdatedAt := usec now, Result := j\<rparr>) T)) w of
           (Inl e, w1) \<Rightarrow> (Inl e, w1)
         | (Inr _, w1) \<Rightarrow> LogEvent Q i ''succeeded'' '''' w1)"

definition MarkRetry ::
  "pg \<Rightarrow> uuid \<Rightarrow> time \<Rightarrow> string \<Rightarrow> 'r world \<Rightarrow> (err + unit) \<times> 'r world" where
  "MarkRetry Q i availableAt lastErr w =
     (let now = clk w
      in case pgcall (\<lambda>T.
            if \<not> text_in Q lastErr then (Inl bad_text, T)
            else (Inr (), update_tasks (\<lambda>r. ID r = i) (\<lambda>r. r\<lparr>Status := StatusRetrying,
              AvailableAt := usec availableAt, LastError := lastErr, WorkerID := None,
              UpdatedAt := usec now\<rparr>) T)) w of
           (Inl e, w1) \<Rightarrow> (Inl e, w1)
         | (Inr _, w1) \<Rightarrow> LogEvent Q i ''retry_scheduled'' lastErr w1)"

text \<open>
  A transaction works on its own view \<open>V\<close> of the tables, which only \<open>Commit\<close> makes the
  tables of the database; the numbers its statements took from a sequence stay taken.
\<close>

definition take_seqs :: "tables \<Rightarrow> tables \<Rightarrow> tables" where
  "take_seqs V T = T\<lparr>events_seq := events_seq V, dl_seq := dl_seq V\<rparr>"

definition tx_call ::
  "(tables \<Rightarrow> (err + 'a) \<times> tables) \<Rightarrow> tables \<Rightarrow> 'r world \<Rightarrow> (err + 'a \<times> tables) \<times> 'r world" where
  "tx_call f V w = pgcall (\<lambda>T.
     (case f V of
        (Inl e, V') \<Rightarrow> (Inl e, take_seqs V' T)
      | (Inr a, V') \<Rightarrow> (Inr (a, V'), take_seqs V' T))) w"

definition tx_begin :: "'r world \<Rightarrow> (err + unit) \<times> 'r world" where
  "tx_begin w = pgcall (\<lambda>T. (Inr (), T)) w"

definition tx_commit :: "tables \<Rightarrow> 'r world \<Rightarrow> (err + unit) \<times> 'r world" where
  "tx_commit V w = pgcall (\<lambda>T. (Inr (), V)) w"

definition tx_rollback :: "'r world \<Rightarrow> 'r world" where
  "tx_rollback w = snd (pgcall (\<lambda>T. (Inr (), T)) w)"

definition update_dead :: "pg \<Rightarrow> uuid \<Rightarrow> string \<Rightarrow> time \<Rightarrow> tables \<Rightarrow> (err + string) \<times> tables" where
  "update_dead Q i lastErr now V =
     (if \<not> text_in Q lastErr then (Inl bad_text, V)
      else let V' = update_tasks (\<lambda>r. ID r = i) (\<lambda>r. r\<lparr>Status := StatusDead,
             FinishedAt := Some (usec now), UpdatedAt := usec now, LastError := lastErr\<rparr>) V
           in (first_row (map Payload (filter (\<lambda>r. ID r = i) (tasks V'))), V'))"

definition MarkDead :: "pg \<Rightarrow> uuid \<Rightarrow> string \<Rightarrow> 'r world \<Rightarrow> (err + unit) \<times> 'r world" where
  "MarkDead Q i lastErr w =
     (let now = clk w
      in case tx_begin w of
           (Inl e, w1) \<Rightarrow> (Inl e, w1)
         | (Inr _, w1) \<Rightarrow>
       (case tx_call (update_dead Q i lastErr now) (db w1) w1 of
          (Inl e, w2) \<Rightarrow> (Inl e, tx_rollback w2)
        | (Inr (payload, V2), w2) \<Rightarrow>
       (case tx_call (insert_dead_letter Q i lastErr payload now) V2 w2 of
          (Inl e, w3) \<Rightarrow> (Inl e, tx_rollback w3)
        | (Inr (_, V3), w3) \<Rightarrow>
       (case tx_call (insert_event Q (clk w1) i ''dead'' lastErr) V3 w3 of
          (Inl e, w4) \<Rightarrow> (Inl e, tx_rollback w4)
        | (Inr (_, V4), w4) \<Rightarrow>
       (case tx_commit V4 w4 of
          (Inl e, w5) \<Rightarrow> (Inl e, tx_rollback w5)
        | (Inr _, w5) \<Rightarrow> (Inr (), w5))))))"

definition MarkCanceled :: "pg \<Rightarrow> uuid \<Rightarrow> 'r world \<Rightarrow> (err + unit) \<times> 'r world" where
  "MarkCanceled Q i w =
     (let now = clk w
      in case pgcall (\<lambda>T. (Inr (),
            update_tasks (\<lambda>r. ID r = i \<and> Status r \<in> {''queued'', ''retrying''})
              (\<lambda>r. r\<lparr>Status := StatusCanceled, FinishedAt := Some (usec now), UpdatedAt := usec now\<rparr>) T)) w of
           (Inl e, w1) \<Rightarrow> (Inl e, w1)
         | (Inr _, w1) \<Rightarrow> LogEvent Q i ''canceled'' '''' w1)"

text \<open>The loop of \<open>RequeueOrphans\<close> over the returned rows; the events' errors are dropped.\<close>

fun log_orphans :: "pg \<Rightarrow> task list \<Rightarrow> 'r world \<Rightarrow> (err + task list) \<times> 'r world" where
  "log_orphans Q [] w = (Inr [], w)"
| "log_orphans Q (r # rows) w =
     (case scanTask (Inr r) of
        Inl e \<Rightarrow> (Inl e, w)
      | Inr t \<Rightarrow>
          (case log_orphans Q rows (snd (LogEvent Q (ID t) ''reassigned'' ''previous worker dead'' w)) of
             (Inl e, w1) \<Rightarrow> (Inl e, w1)
           | (Inr ts, w1) \<Rightarrow> (Inr (t # ts), w1)))"

definition requeue_orphans :: "pg \<Rightarrow> string list \<Rightarrow> time \<Rightarrow> tables \<Rightarrow> (err + task list) \<times> tables" where
  "requeue_orphans Q deadWorkerIDs now T =
     (if \<not> list_all (text_in Q) deadWorkerIDs then (Inl bad_text, T)
      else let p = (\<lambda>r. Status r = ''running'' \<and> (\<exists>wk\<in>set deadWorkerIDs. WorkerID r = Some wk));
               f = (\<lambda>r. r\<lparr>Status := ''queued'', WorkerID := None, AvailableAt := usec now,
                 UpdatedAt := usec now\<rparr>)
           in (Inr (scan_tasks Q (map f (filter p (tasks T)))), update_tasks p f T))"

definition RequeueOrphans ::
  "pg \<Rightarrow> string list \<Rightarrow> 'r world \<Rightarrow> (err + task list) \<times> 'r world" where
  "RequeueOrphans Q deadWorkerIDs w =
     (if length deadWorkerIDs = 0 then (Inr [], w)
      else case pgquery Q (requeue_orphans Q deadWorkerIDs (clk w)) w of
             (Inl e, w1) \<Rightarrow> (Inl e, w1)
           | (Inr (rows, rerr), w1) \<Rightarrow>
               (case log_orphans Q rows w1 of
                  (Inl e, w2) \<Rightarrow> (Inl e, w2)
                | (Inr out, w2) \<Rightarrow> (case rerr of Some e \<Rightarrow> (Inl e, w2) | None \<Rightarrow> (Inr out, w2))))"

definition redrive_dead :: "uuid \<Rightarrow> time \<Rightarrow> tables \<Rightarrow> (err + task) \<times> tables" where
  "redrive_dead i now T =
     (let p = (\<lambda>r. ID r = i \<and> Status r = ''dead'');
          f = (\<lambda>r. r\<lparr>Status := ''queued'', Attempts := 0, LastError := '''', AvailableAt := usec now,
            WorkerID := None, StartedAt := None, FinishedAt := None, UpdatedAt := usec now\<rparr>)
      in (first_row (map f (filter p (tasks T))), update_tasks p f T))"

definition Redrive :: "pg \<Rightarrow> uuid \<Rightarrow> 'r world \<Rightarrow> (err + task) \<times> 'r world" where
  "Redrive Q i w =
     (case pgcall (redrive_dead i (clk w)) w of
        (row, w1) \<Rightarrow>
          (case scanTask row of
             Inl e \<Rightarrow> (Inl e, w1)
           | Inr t \<Rightarrow> (Inr t, snd (LogEvent Q i ''redriven'' '''' w1))))"

subsection \<open>Operations on workers, events, dead letters and counts\<close>

definition UpsertWorker ::
  "pg \<Rightarrow> string \<Rightarrow> string \<Rightarrow> string \<Rightarrow> 'r world \<Rightarrow> (err + unit) \<times> 'r world" where
  "UpsertWorker Q i hostname status w = pgcall (\<lambda>T.
     if \<not> (text_in Q i \<and> text_in Q hostname \<and> text_in Q status) then (Inl bad_text, T)
     else if i \<in> WkID ` set (workers T)
     then (Inr (), update_workers (\<lambda>r. WkID r = i) (\<lambda>r. r\<lparr>Hostname := hostname, WkStatus := status,
       LastHeartbeat := usec (clk w)\<rparr>) T)
     else (Inr (), T\<lparr>workers := workers T @ [\<lparr>WkID = i, Hostname = hostname, WkStatus = status,
       LastHeartbeat = usec (clk w)\<rparr>]\<rparr>)) w"

definition TouchWorker :: "pg \<Rightarrow> string \<Rightarrow> 'r world \<Rightarrow> (err + unit) \<times> 'r world" where
  "TouchWorker Q i w = pgcall (\<lambda>T.
     if \<not> text_in Q i then (Inl bad_text, T)
     else (Inr (), update_workers (\<lambda>r. WkID r = i) (\<lambda>r. r\<lparr>LastHeartbeat := usec (clk w),
       WkStatus := ''alive''\<rparr>) T)) w"

definition MarkWorkerDead :: "pg \<Rightarrow> string \<Rightarrow> 'r world \<Rightarrow> (err + unit) \<times> 'r world" where
  "MarkWorkerDead Q i w = pgcall (\<lambda>T.
     if \<not> text_in Q i then (Inl bad_text, T)
     else (Inr (), update_workers (\<lambda>r. WkID r = i) (\<lambda>r. r\<lparr>WkStatus := ''dead''\<rparr>) T)) w"

text \<open>The common end of the operations that return rows as they are.\<close>

definition collect_rows ::
  "(err + 'a list \<times> err option) \<times> 'r world \<Rightarrow> (err + 'a list) \<times> 'r world" where
  "collect_rows q =
     (case q of
        (Inl e, w1) \<Rightarrow> (Inl e, w1)
      | (Inr (rows, Some e), w1) \<Rightarrow> (Inl e, w1)
      | (Inr (rows, None), w1) \<Rightarrow> (Inr rows, w1))"

definition ListWorkers :: "pg \<Rightarrow> 'r world \<Rightarrow> (err + worker_row list) \<times> 'r world" where
  "ListWorkers Q w = collect_rows (pgquery Q
     (\<lambda>T. (Inr (sort_key (\<lambda>r. - LastHeartbeat r) (scan_workers Q (workers T))), T)) w)"

definition StaleWorkers :: "pg \<Rightarrow> time \<Rightarrow> 'r world \<Rightarrow> (err + string list) \<times> 'r world" where
  "StaleWorkers Q threshold w = collect_rows (pgquery Q
     (\<lambda>T. (Inr (map WkID (filter (\<lambda>r. WkStatus r \<noteq> ''dead'' \<and> LastHeartbeat r < usec threshold)
       (scan_workers Q (workers T)))), T)) w)"

definition ListTaskEvents :: "pg \<Rightarrow> uuid \<Rightarrow> 'r world \<Rightarrow> (err + task_event list) \<times> 'r world" where
  "ListTaskEvents Q i w = collect_rows (pgquery Q
     (\<lambda>T. (Inr (sort_key EvID (filter (\<lambda>e. EvTaskID e = i) (task_events T))), T)) w)"

definition ListDeadLetters :: "pg \<Rightarrow> int \<Rightarrow> 'r world \<Rightarrow> (err + dead_letter list) \<times> 'r world" where
  "ListDeadLetters Q limit0 w =
     (let limit = clamp_limit limit0
      in collect_rows (pgquery Q
        (\<lambda>T. (Inr (take (nat limit) (sort_key (\<lambda>d. - FailedAt d)
          (scan_letters Q (dead_letters T)))), T)) w))"

record stats =
  ByStatus :: "string \<rightharpoonup> int"
  ByType :: "string \<rightharpoonup> int"
  Total :: int

text \<open>\<open>SELECT k, COUNT(*) FROM tasks GROUP BY k\<close>.\<close>

definition group_count :: "(task \<Rightarrow> string) \<Rightarrow> task list \<Rightarrow> (string \<times> int) list" where
  "group_count k ts = map (\<lambda>v. (v, int (length (filter (\<lambda>t. k t = v) ts)))) (remdups (map k ts))"

definition count_status :: "string \<times> int \<Rightarrow> stats \<Rightarrow> stats" where
  "count_status kv st = st\<lparr>ByStatus := (ByStatus st)(fst kv \<mapsto> snd kv), Total := wrap64 (Total st + snd kv)\<rparr>"

definition count_type :: "string \<times> int \<Rightarrow> stats \<Rightarrow> stats" where
  "count_type kv st = st\<lparr>ByType := (ByType st)(fst kv \<mapsto> snd kv)\<rparr>"

text \<open>
  \<open>GetStats\<close> returns the counters together with an error. Neither of its two loops is
  followed by a test of \<open>rows.Err()\<close>, so an error that surfaces late is not seen.
\<close>

definition GetStats :: "pg \<Rightarrow> 'r world \<Rightarrow> (stats \<times> err option) \<times> 'r world" where
  "GetStats Q w =
     (let st = \<lparr>ByStatus = Map.empty, ByType = Map.empty, Total = 0\<rparr>
      in case pgquery Q (\<lambda>T. (Inr (scan_groups Q (group_count Status (tasks T))), T)) w of
           (Inl e, w1) \<Rightarrow> ((st, Some e), w1)
         | (Inr (rows, _), w1) \<Rightarrow>
             (let st1 = fold count_status rows st
              in case pgquery Q (\<lambda>T. (Inr (scan_groups Q (group_count Type (tasks T))), T)) w1 of
                   (Inl e, w2) \<Rightarrow> ((st1, Some e), w2)
                 | (Inr (rows2, _), w2) \<Rightarrow> ((fold count_type rows2 st1, None), w2)))"

subsection \<open>What the store operations leave alone\<close>

lemma pgquery_frame [simp, frame]:
  "rds (snd (pgquery Q f w)) = rds w" "rnet (snd (pgquery Q f w)) = rnet w"
  "db (snd (pgquery Q f w)) = db (snd (pgcall f w))"
  by (auto simp: pgquery_def dest: pgcall_frameD split: prod.splits sum.splits option.splits)

lemma collect_rows_snd [simp]: "snd (collect_rows q) = snd q"
  by (auto simp: collect_rows_def split: prod.splits sum.splits option.splits)

lemma tx_frame [simp, frame]:
  "rds (snd (tx_call f V w)) = rds w" "rnet (snd (tx_call f V w)) = rnet w"
  "rds (snd (tx_begin w)) = rds w" "rnet (snd (tx_begin w)) = rnet w"
  "rds (snd (tx_commit V w)) = rds w" "rnet (snd (tx_commit V w)) = rnet w"
  "rds (tx_rollback w) = rds w" "rnet (tx_rollback w) = rnet w"
  "db (snd (tx_begin w)) = db w" "db (tx_rollback w) = db w"
  by (simp_all add: tx_call_def tx_begin_def tx_commit_def tx_rollback_def)

text \<open>No operation of the store touches Redis or what its network will do.\<close>

definition same_redis :: "'r world \<Rightarrow> 'r world \<Rightarrow> bool" where
  "same_redis w w' \<longleftrightarrow> rds w' = rds w \<and> rnet w' = rnet w"

lemma same_redis_refl [simp]: "same_redis w w"
  by (simp add: same_redis_def)

lemma same_redis_trans: "same_redis w w1 \<Longrightarrow> same_redis w1 w2 \<Longrightarrow> same_redis w w2"
  by (simp add: same_redis_def)

lemma same_redis_pgcall: "same_redis w (snd (pgcall f w))"
  by (simp add: same_redis_def)

lemma same_redis_pgcallD: "pgcall f w = (a, w1) \<Longrightarrow> same_redis w w1"
  by (auto simp: same_redis_def dest: pgcall_frameD)

lemma same_redis_LogEvent: "same_redis w (snd (LogEvent Q i ty msg w))"
  by (simp add: LogEvent_def same_redis_pgcall)

text \<open>An update followed by an event, the form of most operations.\<close>

definition then_log ::
  "(tables \<Rightarrow> (err + unit) \<times> tables) \<Rightarrow> pg \<Rightarrow> uuid \<Rightarrow> string \<Rightarrow> string \<Rightarrow> 'r world \<Rightarrow> (err + unit) \<times> 'r world" where
  "then_log f Q i ty msg w =
     (case pgcall f w of (Inl e, w1) \<Rightarrow> (Inl e, w1) | (Inr _, w1) \<Rightarrow> LogEvent Q i ty msg w1)"

lemma then_log_same_redis: "same_redis w (snd (then_log f Q i ty msg w))"
  by (auto simp: then_log_def split: prod.splits sum.splits
      intro: same_redis_pgcallD same_redis_trans [OF same_redis_pgcallD same_redis_LogEvent])

lemma then_log_keeps:
  assumes "P (db w)" and "P (snd (f (db w)))"
    and "\<And>T now. P T \<Longrightarrow> P (snd (insert_event Q now i ty msg T))"
  shows "P (db (snd (then_log f Q i ty msg w)))"
proof -
  have "P (db w1)" if "pgcall f w = (a, w1)" for a w1
    using pgcall_keepsD [OF that, of P] assms(1,2) .
  then show ?thesis
    by (auto simp: then_log_def LogEvent_def intro!: pgcall_keeps [where P = P] assms(3)
        split: prod.splits sum.splits)
qed

lemma then_log_sameD: "then_log f Q i ty msg w = (a, w1) \<Longrightarrow> same_redis w w1"
  using then_log_same_redis [of w f Q i ty msg] by simp

lemma pgquery_same_redis: "same_redis w (snd (pgquery Q f w))"
  by (simp add: same_redis_def)

lemma pgquery_sameD: "pgquery Q f w = (a, w1) \<Longrightarrow> same_redis w w1"
  using pgquery_same_redis [of w Q f] by simp

text \<open>What such an operation does over a network that delivers.\<close>

lemma then_log_ok:
  assumes "pok w" and "f (db w) = (Inr (), T)" and "text_in Q ty" "text_in Q msg"
  shows "fst (then_log f Q i ty msg w) = Inr ()"
    and "\<exists>now. db (snd (then_log f Q i ty msg w)) = snd (insert_event Q now i ty msg T)"
    and "pok (snd (then_log f Q i ty msg w))"
proof -
  have c: "fst (pgcall f w) = Inr ()" "db (snd (pgcall f w)) = T" "pok (snd (pgcall f w))"
    using pgcall_ok [OF assms(1), of f] assms(2) by simp_all
  obtain w1 where w1: "pgcall f w = (Inr (), w1)" using c(1) by (cases "pgcall f w") auto
  with c have ok: "pok w1" "db w1 = T" by simp_all
  have t: "then_log f Q i ty msg w = LogEvent Q i ty msg w1" by (simp add: then_log_def w1)
  show "fst (then_log f Q i ty msg w) = Inr ()"
    using ok assms(3,4) by (simp add: t LogEvent_def insert_event_def)
  show "\<exists>now. db (snd (then_log f Q i ty msg w)) = snd (insert_event Q now i ty msg T)"
    using ok by (auto simp: t LogEvent_def)
  show "pok (snd (then_log f Q i ty msg w))" using ok by (simp add: t LogEvent_def)
qed

lemma then_log_err:
  assumes "pok w" and "f (db w) = (Inl e, T)"
  shows "fst (then_log f Q i ty msg w) = Inl e" and "db (snd (then_log f Q i ty msg w)) = T"
  using pgcall_ok [OF assms(1), of f] assms(2)
  by (cases "pgcall f w"; simp add: then_log_def)+

lemmas log_forms = MarkRunning_def MarkSucceeded_def MarkRetry_def MarkCanceled_def

lemma marks_then_log:
  "MarkRunning Q i wk w = then_log (\<lambda>T.
     if \<not> text_in Q wk then (Inl bad_text, T)
     else if \<exists>r\<in>set (tasks T). ID r = i \<and> \<not> int4_range (Attempts r + 1) then (Inl bad_int, T)
     else (Inr (), update_tasks (\<lambda>r. ID r = i) (\<lambda>r. r\<lparr>Status := StatusRunning,
       StartedAt := Some (usec (clk w)), WorkerID := Some wk, UpdatedAt := usec (clk w),
       Attempts := Attempts r + 1\<rparr>) T)) Q i ''started'' (''worker='' @ wk) w"
  "MarkSucceeded Q i res w = then_log (\<lambda>T.
     case jsonb_in Q (if length res = 0 then ''null'' else res) of
       None \<Rightarrow> (Inl bad_json, T)
     | Some j \<Rightarrow> (Inr (), update_tasks (\<lambda>r. ID r = i) (\<lambda>r. r\<lparr>Status := StatusSucceeded,
         FinishedAt := Some (usec (clk w)), UpdatedAt := usec (clk w), Result := j\<rparr>) T))
     Q i ''succeeded'' '''' w"
  "MarkRetry Q i at msg w = then_log (\<lambda>T.
     if \<not> text_in Q msg then (Inl bad_text, T)
     else (Inr (), update_tasks (\<lambda>r. ID r = i) (\<lambda>r. r\<lparr>Status := StatusRetrying,
       AvailableAt := usec at, LastError := msg, WorkerID := None, UpdatedAt := usec (clk w)\<rparr>) T))
     Q i ''retry_scheduled'' msg w"
  "MarkCanceled Q i w = then_log (\<lambda>T. (Inr (),
     update_tasks (\<lambda>r. ID r = i \<and> Status r \<in> {''queued'', ''retrying''})
       (\<lambda>r. r\<lparr>Status := StatusCanceled, FinishedAt := Some (usec (clk w)), UpdatedAt := usec (clk w)\<rparr>) T))
     Q i ''canceled'' '''' w"
  by (simp_all only: log_forms Let_def then_log_def)

lemma log_orphans_same_redis: "same_redis w (snd (log_orphans Q rows w))"
proof (induction rows arbitrary: w)
  case (Cons r rows)
  show ?case
    using same_redis_trans [OF same_redis_LogEvent Cons.IH]
    by (auto split: sum.splits prod.splits) (metis snd_conv)+
qed simp

lemma CreateTask_then_log:
  "snd (CreateTask Q u t0 w) =
     (let t = task_defaults u (clk w) t0
      in if \<not> (int4_range (Priority t) \<and> int4_range (Attempts t) \<and> int4_range (MaxAttempts t))
         then (t, w)
         else (t, snd (then_log (insert_task Q t) Q (ID t) ''created'' '''' w)))"
  by (simp add: CreateTask_def then_log_def Let_def split: prod.splits sum.splits)

lemma CreateTask_created:
  "fst (CreateTask Q u t0 w) = Inr () \<longleftrightarrow>
     (let t = task_defaults u (clk w) t0
      in int4_range (Priority t) \<and> int4_range (Attempts t) \<and> int4_range (MaxAttempts t) \<and>
         fst (then_log (insert_task Q t) Q (ID t) ''created'' '''' w) = Inr ())"
  by (auto simp: CreateTask_def then_log_def Let_def split: prod.splits sum.splits)

lemma store_same_redis:
  "same_redis w (snd (snd (CreateTask Q u t w)))" "same_redis w (snd (GetTask Q i w))"
  "same_redis w (snd (ListTasks Q st ty n w))" "same_redis w (snd (MarkRunning Q i wk w))"
  "same_redis w (snd (MarkSucceeded Q i res w))" "same_redis w (snd (MarkRetry Q i at msg w))"
  "same_redis w (snd (MarkCanceled Q i w))" "same_redis w (snd (UpsertWorker Q wk h st w))"
  "same_redis w (snd (TouchWorker Q wk w))" "same_redis w (snd (MarkWorkerDead Q wk w))"
  "same_redis w (snd (ListWorkers Q w))"
  by (auto simp: CreateTask_then_log GetTask_def ListTasks_def Let_def marks_then_log then_log_same_redis
      UpsertWorker_def TouchWorker_def MarkWorkerDead_def same_redis_pgcall ListWorkers_def
      pgquery_same_redis dest: then_log_sameD same_redis_pgcallD pgquery_sameD
      split: prod.splits sum.splits option.splits)

subsection \<open>The transaction of MarkDead\<close>

text \<open>One statement of a transaction and what follows it when it succeeds.\<close>

definition tx_then ::
  "(tables \<Rightarrow> (err + 'a) \<times> tables) \<Rightarrow> tables \<Rightarrow> 'r world \<Rightarrow>
   ('a \<Rightarrow> tables \<Rightarrow> 'r world \<Rightarrow> (err + unit) \<times> 'r world) \<Rightarrow> (err + unit) \<times> 'r world" where
  "tx_then f V w k =
     (case tx_call f V w of
        (Inl e, w1) \<Rightarrow> (Inl e, tx_rollback w1)
      | (Inr (a, V1), w1) \<Rightarrow> k a V1 w1)"

definition tx_finish :: "tables \<Rightarrow> 'r world \<Rightarrow> (err + unit) \<times> 'r world" where
  "tx_finish V w =
     (case tx_commit V w of (Inl e, w1) \<Rightarrow> (Inl e, tx_rollback w1) | (Inr _, w1) \<Rightarrow> (Inr (), w1))"

lemma MarkDead_chain:
  "MarkDead Q i lastErr w =
     (case tx_begin w of
        (Inl e, w1) \<Rightarrow> (Inl e, w1)
      | (Inr _, w1) \<Rightarrow>
          tx_then (update_dead Q i lastErr (clk w)) (db w1) w1 (\<lambda>payload V2 w2.
          tx_then (insert_dead_letter Q i lastErr payload (clk w)) V2 w2 (\<lambda>_ V3 w3.
          tx_then (insert_event Q (clk w1) i ''dead'' lastErr) V3 w3 (\<lambda>_ V4 w4.
          tx_finish V4 w4))))"
  by (simp only: MarkDead_def Let_def tx_then_def tx_finish_def)

lemma tx_then_same_redis:
  assumes "\<And>a V1 w1. same_redis w1 (snd (k a V1 w1))"
  shows "same_redis w (snd (tx_then f V w k))"
proof -
  have D: "same_redis w w1" if "tx_call f V w = (a, w1)" for a w1
    using tx_frame(1,2) [of f V w] that by (simp add: same_redis_def)
  have R: "same_redis w (tx_rollback w)" for w :: "'r world" by (simp add: same_redis_def)
  show ?thesis
    by (auto simp: tx_then_def split: prod.splits sum.splits
        intro: same_redis_trans [OF D R] same_redis_trans [OF D assms])
qed

lemma MarkDead_same_redis: "same_redis w (snd (MarkDead Q i msg w))"
proof -
  have B: "same_redis w w1" if "tx_begin w = (a, w1)" for a w1
    using tx_frame(3,4) [of w] that by (simp add: same_redis_def)
  have K: "rds w1 = rds w \<and> rnet w1 = rnet w" if "tx_commit V w = (a, w1)" for V a and w w1 :: "'a world"
    using tx_frame(5,6) [of V w] that by simp
  have F: "same_redis w (snd (tx_finish V w))" for V and w :: "'a world"
    by (auto simp: tx_finish_def same_redis_def dest: K split: prod.splits sum.splits)
  have "same_redis w1 (snd (tx_then (update_dead Q i msg (clk w)) (db w1) w1 (\<lambda>payload V2 w2.
      tx_then (insert_dead_letter Q i msg payload (clk w)) V2 w2 (\<lambda>_ V3 w3.
      tx_then (insert_event Q (clk w1) i ''dead'' msg) V3 w3 (\<lambda>_ V4 w4. tx_finish V4 w4)))))"
    for w1 :: "'a world" by (intro tx_then_same_redis F)
  then show ?thesis
    by (auto simp: MarkDead_chain split: prod.splits sum.splits intro: same_redis_trans [OF B] dest: B)
qed

text \<open>Two databases that differ at most in the numbers taken from the sequences.\<close>

definition same_rows :: "tables \<Rightarrow> tables \<Rightarrow> bool" where
  "same_rows T T' \<longleftrightarrow> tasks T' = tasks T \<and> workers T' = workers T \<and>
     task_events T' = task_events T \<and> dead_letters T' = dead_letters T \<and>
     events_seq T \<le> events_seq T' \<and> dl_seq T \<le> dl_seq T'"

lemma same_rows_refl [simp]: "same_rows T T"
  by (simp add: same_rows_def)

lemma same_rows_trans: "same_rows T T1 \<Longrightarrow> same_rows T1 T2 \<Longrightarrow> same_rows T T2"
  by (simp add: same_rows_def)

text \<open>The sequence numbers of the view of a transaction and of the database agree.\<close>

definition seqs_le :: "tables \<Rightarrow> tables \<Rightarrow> bool" where
  "seqs_le T V \<longleftrightarrow> events_seq T \<le> events_seq V \<and> dl_seq T \<le> dl_seq V"

lemma tx_call_cases:
  assumes "tx_call f V w = (res, w1)" and "seqs_le (db w) V" and "seqs_le V (snd (f V))"
  shows "same_rows (db w) (db w1) \<and> seqs_le (db w1) (snd (f V)) \<and>
    (\<forall>a V1. res = Inr (a, V1) \<longrightarrow> f V = (Inr a, V1))"
proof -
  have "db w1 = db w \<or> db w1 = take_seqs (snd (f V)) (db w)"
    using pgcall_db [of "\<lambda>T. (case f V of (Inl e, V') \<Rightarrow> (Inl e, take_seqs V' T)
        | (Inr a, V') \<Rightarrow> (Inr (a, V'), take_seqs V' T))" w] assms(1)
    by (auto simp: tx_call_def split: prod.splits sum.splits)
  moreover have "f V = (Inr a, V1)" if "res = Inr (a, V1)" for a V1
    using assms(1) that by (auto simp: tx_call_def dest!: pgcall_Inr split: prod.splits sum.splits)
  ultimately show ?thesis
    using assms(2,3) by (auto simp: same_rows_def seqs_le_def take_seqs_def)
qed

lemma tx_then_elim:
  assumes "tx_then f V w k = (res, w')" and "seqs_le (db w) V" and "seqs_le V (snd (f V))"
  shows "(\<exists>e. res = Inl e \<and> same_rows (db w) (db w')) \<or>
    (\<exists>a V1 w1. f V = (Inr a, V1) \<and> same_rows (db w) (db w1) \<and> seqs_le (db w1) V1 \<and>
       k a V1 w1 = (res, w'))"
proof -
  obtain c w1 where c: "tx_call f V w = (c, w1)" by fastforce
  note t = tx_call_cases [OF c assms(2,3)]
  show ?thesis
  proof (cases c)
    case (Inl e)
    with c t assms(1) show ?thesis by (auto simp: tx_then_def)
  next
    case (Inr p)
    obtain a V1 where "p = (a, V1)" by fastforce
    with c t Inr assms(1) show ?thesis by (auto simp: tx_then_def)
  qed
qed

text \<open>
  What a committed \<open>MarkDead\<close> has done: the task is dead with the error, one dead letter
  with its payload and one event were added, and nothing else changed.
\<close>

definition dead_committed :: "pg \<Rightarrow> uuid \<Rightarrow> string \<Rightarrow> time \<Rightarrow> tables \<Rightarrow> tables \<Rightarrow> bool" where
  "dead_committed Q i lastErr now T T' \<longleftrightarrow>
     tasks T' = map (\<lambda>r. if ID r = i then r\<lparr>Status := StatusDead, FinishedAt := Some (usec now),
       UpdatedAt := usec now, LastError := lastErr\<rparr> else r) (tasks T) \<and>
     workers T' = workers T \<and>
     (\<exists>r p. r \<in> set (tasks T) \<and> ID r = i \<and> jsonb_in Q (Payload r) = Some p \<and>
       dead_letters T' = dead_letters T @ [\<lparr>DlID = dl_seq T + 1, DlTaskID = i, Reason = lastErr,
         DlPayload = p, FailedAt = usec now\<rparr>]) \<and> dl_seq T' = dl_seq T + 1 \<and>
     (\<exists>now'. task_events T' = task_events T @ [\<lparr>EvID = events_seq T + 1, EvTaskID = i,
       EventType = ''dead'', EvMessage = lastErr, EvCreatedAt = usec now'\<rparr>]) \<and>
     events_seq T' = events_seq T + 1"

lemma first_row_Inr: "first_row xs = Inr a \<Longrightarrow> a \<in> set xs"
  by (cases xs) (simp_all add: first_row_def)

lemma update_dead_view:
  assumes "update_dead Q i lastErr now T = (Inr payload, V)"
  shows "tasks V = map (\<lambda>r. if ID r = i then r\<lparr>Status := StatusDead, FinishedAt := Some (usec now),
      UpdatedAt := usec now, LastError := lastErr\<rparr> else r) (tasks T)"
    and "V = T\<lparr>tasks := tasks V\<rparr>" and "\<exists>r\<in>set (tasks T). ID r = i \<and> payload = Payload r"
proof -
  let ?f = "\<lambda>r. if ID r = i then r\<lparr>Status := StatusDead, FinishedAt := Some (usec now),
      UpdatedAt := usec now, LastError := lastErr\<rparr> else r"
  show "tasks V = map ?f (tasks T)" and "V = T\<lparr>tasks := tasks V\<rparr>"
    using assms by (auto simp: update_dead_def update_tasks_def Let_def split: if_splits)
  from assms have "first_row (map Payload (filter (\<lambda>r. ID r = i) (map ?f (tasks T)))) = Inr payload"
    by (auto simp: update_dead_def update_tasks_def Let_def split: if_splits)
  then have "payload \<in> set (map Payload (filter (\<lambda>r. ID r = i) (map ?f (tasks T))))"
    by (rule first_row_Inr)
  then obtain r where "r \<in> set (tasks T)" "ID (?f r) = i" "payload = Payload (?f r)"
    by (auto simp only: set_map set_filter)
  moreover have "ID (?f r) = ID r" "Payload (?f r) = Payload r" by simp_all
  ultimately show "\<exists>r\<in>set (tasks T). ID r = i \<and> payload = Payload r" by metis
qed

lemma dead_chain:
  assumes "update_dead Q i lastErr now T = (Inr payload, V2)"
    and "insert_dead_letter Q i lastErr payload now V2 = (Inr (), V3)"
    and "insert_event Q now' i ''dead'' lastErr V3 = (Inr (), V4)"
  shows "dead_committed Q i lastErr now T V4"
proof -
  note u = update_dead_view [OF assms(1)]
  from assms(2) obtain p where p: "jsonb_in Q payload = Some p"
    and V3: "V3 = V2\<lparr>dl_seq := dl_seq V2 + 1, dead_letters := dead_letters V2 @
      [\<lparr>DlID = dl_seq V2 + 1, DlTaskID = i, Reason = lastErr, DlPayload = p, FailedAt = usec now\<rparr>]\<rparr>"
    by (auto simp: insert_dead_letter_def split: if_splits option.splits)
  from assms(3) have V4: "V4 = V3\<lparr>events_seq := events_seq V3 + 1, task_events := task_events V3 @
      [\<lparr>EvID = events_seq V3 + 1, EvTaskID = i, EventType = ''dead'', EvMessage = lastErr,
        EvCreatedAt = usec now'\<rparr>]\<rparr>"
    by (auto simp: insert_event_def split: if_splits)
  have V2: "dead_letters V2 = dead_letters T" "task_events V2 = task_events T" "workers V2 = workers T"
    "events_seq V2 = events_seq T" "dl_seq V2 = dl_seq T"
    by (subst u(2), simp)+
  from u(3) p obtain r where "r \<in> set (tasks T)" "ID r = i" "jsonb_in Q (Payload r) = Some p" by blast
  then show ?thesis unfolding dead_committed_def V4 V3 by (auto simp: V2 u(1))
qed

lemma seqs_le_stmts:
  "seqs_le V (snd (update_dead Q i lastErr now V))"
  "seqs_le V (snd (insert_dead_letter Q i lastErr p now V))"
  "seqs_le V (snd (insert_event Q now i ty msg V))"
  by (auto simp: seqs_le_def update_dead_def update_tasks_def insert_dead_letter_def insert_event_def
      Let_def split: option.splits)

lemma tx_finish_elim:
  assumes "tx_finish V w = (res, w')"
  shows "(\<exists>e. res = Inl e) \<and> db w' = db w \<or> db w' = V"
proof -
  obtain c w1 where c: "tx_commit V w = (c, w1)" by fastforce
  then have "db w1 = db w \<or> db w1 = V" "c = Inr () \<Longrightarrow> db w1 = V"
    using pgcall_db [of "\<lambda>T. (Inr (), V)" w] by (auto simp: tx_commit_def dest: pgcall_Inr)
  with c assms show ?thesis by (cases c) (auto simp: tx_finish_def)
qed

lemma MarkDead_atomic:
  assumes "MarkDead Q i lastErr w = (res, w')"
  shows "(\<exists>e. res = Inl e) \<and> same_rows (db w) (db w') \<or>
    dead_committed Q i lastErr (clk w) (db w) (db w')"
proof -
  obtain b w1 where b: "tx_begin w = (b, w1)" by fastforce
  then have w1: "db w1 = db w" using tx_frame(9) [of w] by simp
  let ?k3 = "\<lambda>_ V3 w3. tx_then (insert_event Q (clk w1) i ''dead'' lastErr) V3 w3 (\<lambda>_ V4 w4. tx_finish V4 w4)"
  let ?k2 = "\<lambda>payload V2 w2. tx_then (insert_dead_letter Q i lastErr payload (clk w)) V2 w2 ?k3"
  have s1: "seqs_le (db w1) (db w1)" by (simp add: seqs_le_def)
  show ?thesis
  proof (cases b)
    case (Inr u)
    then have 1: "tx_then (update_dead Q i lastErr (clk w)) (db w1) w1 ?k2 = (res, w')"
      using b assms by (simp add: MarkDead_chain)
    consider "\<exists>e. res = Inl e \<and> same_rows (db w) (db w')"
      | (go) payload V2 w2 where "update_dead Q i lastErr (clk w) (db w) = (Inr payload, V2)"
        "same_rows (db w) (db w2)" "seqs_le (db w2) V2" "?k2 payload V2 w2 = (res, w')"
      using tx_then_elim [OF 1 s1 seqs_le_stmts(1)] unfolding w1 by blast
    then show ?thesis
    proof cases
      case go
      note 2 = this
      consider "\<exists>e. res = Inl e \<and> same_rows (db w2) (db w')"
        | (go) V3 w3 where "insert_dead_letter Q i lastErr payload (clk w) V2 = (Inr (), V3)"
          "same_rows (db w2) (db w3)" "seqs_le (db w3) V3" "?k3 () V3 w3 = (res, w')"
        using tx_then_elim [OF 2(4,3) seqs_le_stmts(2)] by auto
      then show ?thesis
      proof cases
        case go
        note 3 = this
        consider "\<exists>e. res = Inl e \<and> same_rows (db w3) (db w')"
          | (go) V4 w4 where "insert_event Q (clk w1) i ''dead'' lastErr V3 = (Inr (), V4)"
            "same_rows (db w3) (db w4)" "tx_finish V4 w4 = (res, w')"
          using tx_then_elim [OF 3(4,3) seqs_le_stmts(3)] by auto
        then show ?thesis
        proof cases
          case go
          from dead_chain [OF 2(1) 3(1) go(1)] tx_finish_elim [OF go(3)] 2(2) 3(2) go(2)
          show ?thesis by (auto intro: same_rows_trans)
        qed (use 2(2) 3(2) in \<open>auto intro: same_rows_trans\<close>)
      qed (use 2(2) in \<open>auto intro: same_rows_trans\<close>)
    qed blast
  qed (use b w1 assms in \<open>auto simp: MarkDead_chain\<close>)
qed

lemma MarkDead_committed:
  "fst (MarkDead Q i lastErr w) = Inr () \<Longrightarrow>
   dead_committed Q i lastErr (clk w) (db w) (db (snd (MarkDead Q i lastErr w)))"
  using MarkDead_atomic [of Q i lastErr w] by (cases "MarkDead Q i lastErr w") auto

subsection \<open>The invariant of the tables\<close>

text \<open>
  Primary keys are unique, the serial numbers of events and dead letters grow and are below
  their sequence, every dead letter belongs to a task of the table, and integer columns fit
  into 32 bits.
\<close>

definition store_wf :: "tables \<Rightarrow> bool" where
  "store_wf T \<longleftrightarrow>
     distinct (map ID (tasks T)) \<and> distinct (map WkID (workers T)) \<and>
     sorted_wrt (<) (map EvID (task_events T)) \<and> (\<forall>e\<in>set (task_events T). EvID e \<le> events_seq T) \<and>
     sorted_wrt (<) (map DlID (dead_letters T)) \<and> (\<forall>d\<in>set (dead_letters T). DlID d \<le> dl_seq T) \<and>
     (\<forall>d\<in>set (dead_letters T). DlTaskID d \<in> ID ` set (tasks T)) \<and>
     (\<forall>r\<in>set (tasks T). int4_range (Attempts r) \<and> int4_range (Priority r) \<and> int4_range (MaxAttempts r))"

lemma map_ID_update: "(\<And>r. ID (f r) = ID r) \<Longrightarrow> map ID (tasks (update_tasks p f T)) = map ID (tasks T)"
  by (simp add: update_tasks_def)

lemma ID_image_update:
  "(\<And>r. ID (f r) = ID r) \<Longrightarrow> ID ` set (tasks (update_tasks p f T)) = ID ` set (tasks T)"
  using map_ID_update [of f p T] by (metis list.set_map)

lemma update_tasks_simps [simp]:
  "workers (update_tasks p f T) = workers T" "task_events (update_tasks p f T) = task_events T"
  "events_seq (update_tasks p f T) = events_seq T" "dead_letters (update_tasks p f T) = dead_letters T"
  "dl_seq (update_tasks p f T) = dl_seq T"
  by (simp_all add: update_tasks_def)

lemma wf_update_tasks:
  assumes "store_wf T" and ID: "\<And>r. ID (f r) = ID r"
    and "\<And>r. r \<in> set (tasks T) \<Longrightarrow> p r \<Longrightarrow> int4_range (Attempts (f r)) \<and> Priority (f r) = Priority r \<and>
      MaxAttempts (f r) = MaxAttempts r"
  shows "store_wf (update_tasks p f T)"
proof -
  have "\<forall>r\<in>set (tasks (update_tasks p f T)). int4_range (Attempts r) \<and> int4_range (Priority r) \<and>
      int4_range (MaxAttempts r)"
    using assms(1,3) by (auto simp: update_tasks_def store_wf_def)
  with assms(1) show ?thesis
    by (simp add: store_wf_def map_ID_update [OF ID] ID_image_update [OF ID])
qed

lemma wf_int4: "store_wf T \<Longrightarrow> r \<in> set (tasks T) \<Longrightarrow> int4_range (Attempts r)"
  by (simp add: store_wf_def)

lemma wf_update_workers:
  "store_wf T \<Longrightarrow> (\<And>r. WkID (f r) = WkID r) \<Longrightarrow> store_wf (update_workers p f T)"
  by (simp add: store_wf_def update_workers_def comp_def if_distrib [of WkID] cong: if_cong)

lemma wf_insert_event: "store_wf T \<Longrightarrow> store_wf (snd (insert_event Q now i ty msg T))"
  by (fastforce simp: store_wf_def insert_event_def sorted_wrt_append)

lemma wf_insert_task:
  "store_wf T \<Longrightarrow> int4_range (Priority t) \<Longrightarrow> int4_range (Attempts t) \<Longrightarrow> int4_range (MaxAttempts t) \<Longrightarrow>
   store_wf (snd (insert_task Q t T))"
  by (auto simp: store_wf_def insert_task_def split: option.splits)

lemma wf_same_rows: "store_wf T \<Longrightarrow> same_rows T T' \<Longrightarrow> store_wf T'"
  by (fastforce simp: store_wf_def same_rows_def)

lemma wf_dead_committed:
  assumes "store_wf T" and "dead_committed Q i lastErr now T T'"
  shows "store_wf T'"
proof -
  let ?f = "\<lambda>r. r\<lparr>Status := StatusDead, FinishedAt := Some (usec now), UpdatedAt := usec now,
      LastError := lastErr\<rparr>"
  have t: "tasks T' = tasks (update_tasks (\<lambda>r. ID r = i) ?f T)"
    using assms(2) by (simp add: dead_committed_def update_tasks_def)
  have u: "store_wf (update_tasks (\<lambda>r. ID r = i) ?f T)"
    by (rule wf_update_tasks) (use assms(1) in \<open>auto simp: store_wf_def\<close>)
  have i: "i \<in> ID ` set (tasks T)" using assms(2) by (auto simp: dead_committed_def)
  have im: "ID ` set (tasks T') = ID ` set (tasks T)" unfolding t by (rule ID_image_update) simp
  from assms(2) obtain d e where d: "dead_letters T' = dead_letters T @ [d]" "DlID d = dl_seq T + 1" "DlTaskID d = i"
    and e: "task_events T' = task_events T @ [e]" "EvID e = events_seq T + 1"
    and s: "workers T' = workers T" "dl_seq T' = dl_seq T + 1" "events_seq T' = events_seq T + 1"
    unfolding dead_committed_def by fastforce
  show ?thesis
    using u assms(1) i unfolding store_wf_def t [symmetric] im d(1) e(1) s
    by (fastforce simp: sorted_wrt_append d e)
qed

lemma then_log_wf:
  "store_wf (db w) \<Longrightarrow> store_wf (snd (f (db w))) \<Longrightarrow> store_wf (db (snd (then_log f Q i ty msg w)))"
  by (rule then_log_keeps [where P = store_wf]) (simp_all add: wf_insert_event)

lemma LogEvent_wf: "store_wf (db w) \<Longrightarrow> store_wf (db (snd (LogEvent Q i ty msg w)))"
  by (simp add: LogEvent_def pgcall_keeps [where P = store_wf] wf_insert_event)

lemma MarkDead_wf: "store_wf (db w) \<Longrightarrow> store_wf (db (snd (MarkDead Q i lastErr w)))"
  using MarkDead_atomic [of Q i lastErr w "fst (MarkDead Q i lastErr w)" "snd (MarkDead Q i lastErr w)"]
  by (auto intro: wf_same_rows wf_dead_committed)

lemma log_orphans_wf: "store_wf (db w) \<Longrightarrow> store_wf (db (snd (log_orphans Q rows w)))"
proof (induction rows arbitrary: w)
  case (Cons r rows)
  have "store_wf (db (snd (log_orphans Q rows (snd (LogEvent Q i ty msg w)))))" for i ty msg
    by (rule Cons.IH) (rule LogEvent_wf [OF Cons.prems])
  with Cons.prems show ?case by (auto split: sum.splits prod.splits) (metis snd_conv)+
qed simp

text \<open>
  One call of an operation that writes to the store, over any network, and the passing of time;
  \<open>store_write\<close> are those that create no task.
\<close>

inductive store_write :: "pg \<Rightarrow> 'r world \<Rightarrow> 'r world \<Rightarrow> bool" for Q where
  running: "store_write Q w (snd (MarkRunning Q i wk w))"
| succeeded: "store_write Q w (snd (MarkSucceeded Q i res w))"
| retry: "store_write Q w (snd (MarkRetry Q i at msg w))"
| dead: "store_write Q w (snd (MarkDead Q i msg w))"
| canceled: "store_write Q w (snd (MarkCanceled Q i w))"
| orphans: "store_write Q w (snd (RequeueOrphans Q wks w))"
| redrive: "store_write Q w (snd (Redrive Q i w))"
| log_event: "store_write Q w (snd (LogEvent Q i ty msg w))"
| upsert: "store_write Q w (snd (UpsertWorker Q wk h st w))"
| touch: "store_write Q w (snd (TouchWorker Q wk w))"
| worker_dead: "store_write Q w (snd (MarkWorkerDead Q wk w))"
| elapse: "0 \<le> d \<Longrightarrow> store_write Q w (w\<lparr>clk := clk w + d\<rparr>)"
| faults: "store_write Q w (w\<lparr>pgnet := fs\<rparr>)"

inductive store_step :: "pg \<Rightarrow> 'r world \<Rightarrow> 'r world \<Rightarrow> bool" for Q where
  create: "store_step Q w (snd (snd (CreateTask Q u t w)))"
| wrote: "store_write Q w w' \<Longrightarrow> store_step Q w w'"

inductive store_steps :: "pg \<Rightarrow> 'r world \<Rightarrow> 'r world \<Rightarrow> bool" for Q where
  stay: "store_steps Q w w"
| after: "store_steps Q w w1 \<Longrightarrow> store_step Q w1 w2 \<Longrightarrow> store_steps Q w w2"

lemma CreateTask_wf: "store_wf (db w) \<Longrightarrow> store_wf (db (snd (snd (CreateTask Q u t w))))"
proof -
  assume wf: "store_wf (db w)"
  let ?t = "task_defaults u (clk w) t"
  have "store_wf (db (snd (then_log (insert_task Q ?t) Q i ty msg w)))"
    if "int4_range (Priority ?t)" "int4_range (Attempts ?t)" "int4_range (MaxAttempts ?t)" for i ty msg
    by (rule then_log_wf) (simp_all add: wf wf_insert_task that)
  with wf show ?thesis
    by (auto simp: CreateTask_then_log Let_def)
qed

lemma marks_wf:
  assumes "store_wf (db w)"
  shows "store_wf (db (snd (MarkRunning Q i wk w)))" "store_wf (db (snd (MarkSucceeded Q i res w)))"
    "store_wf (db (snd (MarkRetry Q i at msg w)))" "store_wf (db (snd (MarkCanceled Q i w)))"
  unfolding marks_then_log
  by (intro then_log_wf; use assms in \<open>auto intro!: wf_update_tasks dest: wf_int4 split: option.splits\<close>)+

lemma requeue_orphans_wf: "store_wf T \<Longrightarrow> store_wf (snd (requeue_orphans Q wks now T))"
  by (auto simp: requeue_orphans_def Let_def intro!: wf_update_tasks dest: wf_int4)

lemma RequeueOrphans_wf:
  assumes "store_wf (db w)"
  shows "store_wf (db (snd (RequeueOrphans Q wks w)))"
proof -
  have "store_wf (db (snd (pgquery Q (requeue_orphans Q wks (clk w)) w)))"
    by (simp add: pgcall_keeps [where P = store_wf] requeue_orphans_wf assms)
  then have D: "store_wf (db w1)" if "pgquery Q (requeue_orphans Q wks (clk w)) w = (a, w1)" for a w1
    by (simp add: that)
  have L: "store_wf (db w2)" if "log_orphans Q rows w1 = (a, w2)" "store_wf (db w1)" for rows a w1 w2
    using log_orphans_wf [OF that(2), of Q rows] that(1) by simp
  show ?thesis using assms
    by (auto simp: RequeueOrphans_def dest: D L split: prod.splits sum.splits option.splits)
qed

lemma redrive_dead_wf: "store_wf T \<Longrightarrow> store_wf (snd (redrive_dead i now T))"
  by (auto simp: redrive_dead_def Let_def int4_range_def intro!: wf_update_tasks)

lemma Redrive_wf: "store_wf (db w) \<Longrightarrow> store_wf (db (snd (Redrive Q i w)))"
  using pgcall_keeps [where P = store_wf and f = "redrive_dead i (clk w)" and w = w]
  by (auto simp: Redrive_def LogEvent_wf redrive_dead_wf split: prod.splits sum.splits)

lemma workers_wf:
  assumes "store_wf (db w)"
  shows "store_wf (db (snd (UpsertWorker Q wk h st w)))" "store_wf (db (snd (TouchWorker Q wk w)))"
    "store_wf (db (snd (MarkWorkerDead Q wk w)))"
proof -
  have "store_wf (db w\<lparr>workers := workers (db w) @ [r]\<rparr>)" if "WkID r \<notin> WkID ` set (workers (db w))" for r
    using assms that by (simp add: store_wf_def)
  then show "store_wf (db (snd (UpsertWorker Q wk h st w)))"
    unfolding UpsertWorker_def
    by (intro pgcall_keeps [where P = store_wf]) (use assms in \<open>auto intro!: wf_update_workers\<close>)
qed (unfold TouchWorker_def MarkWorkerDead_def, (rule pgcall_keeps [where P = store_wf],
    use assms in \<open>auto intro!: wf_update_workers\<close>)+)

lemma store_write_wf: "store_write Q w w' \<Longrightarrow> store_wf (db w) \<Longrightarrow> store_wf (db w')"
  by (induction rule: store_write.induct)
    (simp_all add: marks_wf MarkDead_wf RequeueOrphans_wf Redrive_wf LogEvent_wf workers_wf)

lemma store_step_wf: "store_step Q w w' \<Longrightarrow> store_wf (db w) \<Longrightarrow> store_wf (db w')"
  by (induction rule: store_step.induct) (simp_all add: CreateTask_wf store_write_wf)

lemma store_steps_wf: "store_steps Q w w' \<Longrightarrow> store_wf (db w) \<Longrightarrow> store_wf (db w')"
  by (induction rule: store_steps.induct) (auto intro: store_step_wf)

subsection \<open>Networks after store operations\<close>

lemma then_log_pok: "pok w \<Longrightarrow> pok (snd (then_log f Q i ty msg w))"
  by (auto simp: then_log_def LogEvent_def dest: pgcall_okD split: prod.splits sum.splits)

lemma pgcall_clkD: "pgcall f w = (a, w1) \<Longrightarrow> clk w \<le> clk w1"
  using pgcall_clk [of w f] by simp

lemma then_log_clk: "clk w \<le> clk (snd (then_log f Q i ty msg w))"
  by (auto simp: then_log_def LogEvent_def dest: pgcall_clkD split: prod.splits sum.splits
      intro: order_trans [OF pgcall_clkD pgcall_clk])

lemma tx_then_clk:
  assumes "\<And>a V1 w1. clk w1 \<le> clk (snd (k a V1 w1))"
  shows "clk w \<le> clk (snd (tx_then f V w k))"
proof -
  have c: "clk w \<le> clk w1" if "tx_call f V w = (a, w1)" for a w1
    using that unfolding tx_call_def by (rule pgcall_clkD)
  have r: "clk v \<le> clk (tx_rollback v)" for v
    unfolding tx_rollback_def by (rule pgcall_clk)
  show ?thesis
    by (auto simp: tx_then_def split: prod.splits sum.splits
        intro: order_trans [OF c r] order_trans [OF c assms])
qed

lemma MarkDead_clk: "clk w \<le> clk (snd (MarkDead Q i msg w))"
proof -
  have b: "clk w \<le> clk w1" if "tx_begin w = (a, w1)" for a w1
    using that unfolding tx_begin_def by (rule pgcall_clkD)
  have f: "clk w \<le> clk (snd (tx_finish V w))" for V and w :: "'a world"
    by (auto simp: tx_finish_def tx_commit_def tx_rollback_def split: prod.splits sum.splits
        dest: pgcall_clkD intro: order_trans [OF pgcall_clkD pgcall_clk])
  have "clk w1 \<le> clk (snd (tx_then (update_dead Q i msg (clk w)) (db w1) w1 (\<lambda>payload V2 w2.
      tx_then (insert_dead_letter Q i msg payload (clk w)) V2 w2 (\<lambda>_ V3 w3.
      tx_then (insert_event Q (clk w1) i ''dead'' msg) V3 w3 (\<lambda>_ V4 w4. tx_finish V4 w4)))))"
    for w1 :: "'a world" by (intro tx_then_clk f)
  then show ?thesis
    by (auto simp: MarkDead_chain split: prod.splits sum.splits dest: b intro: order_trans [OF b])
qed

lemma tx_then_pok:
  assumes "pok w" and "\<And>a V1 w1. pok w1 \<Longrightarrow> pok (snd (k a V1 w1))"
  shows "pok (snd (tx_then f V w k))"
proof -
  have "pok w1" if "tx_call f V w = (a, w1)" for a w1
    using that assms(1) unfolding tx_call_def by (rule pgcall_okD)
  then show ?thesis
    by (auto simp: tx_then_def tx_rollback_def assms(2) split: prod.splits sum.splits)
qed

lemma MarkDead_pok: "pok w \<Longrightarrow> pok (snd (MarkDead Q i msg w))"
proof -
  assume ok: "pok w"
  have B: "pok w1" if "tx_begin w = (a, w1)" for a w1
    using that ok unfolding tx_begin_def by (rule pgcall_okD)
  have F: "pok (snd (tx_finish V w))" if "pok w" for V and w :: "'a world"
    using that by (auto simp: tx_finish_def tx_commit_def tx_rollback_def dest: pgcall_okD
        split: prod.splits sum.splits)
  have "pok (snd (tx_then (update_dead Q i msg (clk w)) (db w1) w1 (\<lambda>payload V2 w2.
      tx_then (insert_dead_letter Q i msg payload (clk w)) V2 w2 (\<lambda>_ V3 w3.
      tx_then (insert_event Q (clk w1) i ''dead'' msg) V3 w3 (\<lambda>_ V4 w4. tx_finish V4 w4)))))"
    if "pok w1" for w1 :: "'a world" by (intro tx_then_pok F that)
  then show ?thesis by (auto simp: MarkDead_chain dest: B split: prod.splits sum.splits)
qed

lemma store_pok [simp]:
  "pok w \<Longrightarrow> pok (snd (MarkRunning Q i wk w))" "pok w \<Longrightarrow> pok (snd (MarkSucceeded Q i res w))"
  "pok w \<Longrightarrow> pok (snd (MarkRetry Q i at msg w))" "pok w \<Longrightarrow> pok (snd (MarkCanceled Q i w))"
  "pok w \<Longrightarrow> pok (snd (MarkDead Q i msg w))" "pok w \<Longrightarrow> pok (snd (TouchWorker Q wk w))"
  "pok w \<Longrightarrow> pok (snd (MarkWorkerDead Q wk w))" "pok w \<Longrightarrow> pok (snd (UpsertWorker Q wk h st w))"
  by (simp_all add: marks_then_log then_log_pok MarkDead_pok TouchWorker_def MarkWorkerDead_def
      UpsertWorker_def)

lemma pgquery_clk: "clk w \<le> clk (snd (pgquery Q f w))"
  by (auto simp: pgquery_def dest: pgcall_clkD split: prod.splits sum.splits option.splits)

lemma log_orphans_clk: "clk w \<le> clk (snd (log_orphans Q rows w))"
proof (induction rows arbitrary: w)
  case (Cons r rows)
  have "clk w \<le> clk (snd (LogEvent Q i ty msg w))" for i ty msg unfolding LogEvent_def by (rule pgcall_clk)
  from order_trans [OF this Cons.IH] show ?case
    by (auto split: sum.splits prod.splits) (metis snd_conv)+
qed simp

lemma RequeueOrphans_clk: "clk w \<le> clk (snd (RequeueOrphans Q wks w))"
proof -
  have q: "clk w \<le> clk w1" if "pgquery Q f w = (a, w1)" for f :: "tables \<Rightarrow> (err + task list) \<times> tables" and a w1
    using pgquery_clk [of w Q f] that by simp
  have l: "clk w1 \<le> clk w2" if "log_orphans Q rows w1 = (a, w2)" for rows a and w1 w2 :: "'a world"
    using log_orphans_clk [of w1 Q rows] that by simp
  show ?thesis
    by (auto simp: RequeueOrphans_def split: prod.splits sum.splits option.splits
        dest: q intro: order_trans [OF q l])
qed

lemma store_clk:
  "clk w \<le> clk (snd (MarkWorkerDead Q wk w))" "clk w \<le> clk (snd (ListWorkers Q w))"
  "clk w \<le> clk (snd (TouchWorker Q wk w))" "clk w \<le> clk (snd (UpsertWorker Q wk h st w))"
  by (simp_all add: MarkWorkerDead_def ListWorkers_def TouchWorker_def UpsertWorker_def pgcall_clk pgquery_clk)

lemma RequeueOrphans_same_redis: "same_redis w (snd (RequeueOrphans Q wks w))"
proof -
  have L: "same_redis w1 w2" if "log_orphans Q rows w1 = (a, w2)" for rows a and w1 w2 :: "'a world"
    using log_orphans_same_redis [of w1 Q rows] that by simp
  show ?thesis
    by (auto simp: RequeueOrphans_def split: prod.splits sum.splits option.splits
        dest: pgquery_sameD intro: same_redis_trans [OF pgquery_sameD L])
qed

lemma Redrive_same_redis: "same_redis w (snd (Redrive Q i w))"
  by (auto simp: Redrive_def split: prod.splits sum.splits dest: same_redis_pgcallD
      intro: same_redis_trans [OF same_redis_pgcallD same_redis_LogEvent])

lemmas all_same_redis = store_same_redis MarkDead_same_redis RequeueOrphans_same_redis
  Redrive_same_redis

lemma same_redis_rds: "same_redis w w' \<Longrightarrow> rds w' = rds w"
  by (simp add: same_redis_def)

lemmas store_rds [simp] = all_same_redis [THEN same_redis_rds]

lemma same_redis_rok: "same_redis w w' \<Longrightarrow> rok w' = rok w"
  by (simp add: same_redis_def rok_def)

lemmas store_rok [simp] = all_same_redis [THEN same_redis_rok]

subsection \<open>Reading rows\<close>

lemma scanTask_Inr [simp]: "scanTask (Inr r) = Inr r"
  by (cases r) (auto simp: scanTask_def zero_task_def Let_def)

lemma scanTask_Inl: "scanTask (Inl e) = Inl (if e = ErrNoRows then ErrNotFound else e)"
  by (simp add: scanTask_def)

lemma scan_rows_id [simp]: "scan_rows rows = Inr rows"
  by (induction rows) simp_all

lemma filter_unique:
  assumes "distinct (map k xs)" and "x \<in> set xs"
  shows "filter (\<lambda>y. k y = k x) xs = [x]"
  using assms
proof (induction xs)
  case (Cons y ys)
  show ?case
  proof (cases "k y = k x")
    case True
    with Cons.prems have "x = y" by (auto simp: image_iff)
    moreover have "filter (\<lambda>z. k z = k x) ys = []"
      using Cons.prems(1) True by (auto simp: filter_empty_conv image_iff)
    ultimately show ?thesis by simp
  qed (use Cons in auto)
qed simp

lemma pgquery_ok:
  assumes "pok w" and "f (db w) = (Inr rows, T)"
  shows "fst (pgquery Q f w) = Inr (rows, None)" and "db (snd (pgquery Q f w)) = T"
    and "pok (snd (pgquery Q f w))"
  using pgcall_ok [OF assms(1), of f] assms(2)
  by (cases "pgcall f w"; simp add: pgquery_def)+

lemma GetTask_row:
  assumes "store_wf (db w)" and "pok w" and "r \<in> set (tasks (db w))"
  shows "fst (GetTask Q (ID r) w) = Inr r"
  using assms filter_unique [of ID "tasks (db w)" r]
  by (simp add: GetTask_def case_prod_beta store_wf_def first_row_def)

lemma GetTask_absent:
  assumes "pok w" and "i \<notin> ID ` set (tasks (db w))"
  shows "fst (GetTask Q i w) = Inl ErrNotFound"
proof -
  have "filter (\<lambda>r. ID r = i) (tasks (db w)) = []"
    using assms(2) by (auto simp: filter_empty_conv)
  then show ?thesis
    using assms(1) by (simp add: GetTask_def case_prod_beta first_row_def scanTask_Inl)
qed

lemma insert_event_simps [simp]:
  "tasks (snd (insert_event Q now i ty msg T)) = tasks T"
  "workers (snd (insert_event Q now i ty msg T)) = workers T"
  "dead_letters (snd (insert_event Q now i ty msg T)) = dead_letters T"
  by (simp_all add: insert_event_def)

lemma then_log_tasks:
  assumes "pok w" and "f (db w) = (Inr (), T)"
  shows "tasks (db (snd (then_log f Q i ty msg w))) = tasks T"
proof -
  have c: "fst (pgcall f w) = Inr ()" "db (snd (pgcall f w)) = T" "pok (snd (pgcall f w))"
    using pgcall_ok [OF assms(1), of f] assms(2) by simp_all
  then show ?thesis by (cases "pgcall f w") (simp add: then_log_def LogEvent_def)
qed

subsection \<open>A server for the witnesses\<close>

text \<open>ASCII text, JSON kept in its compact form, rows in the order of insertion.\<close>

definition std_pg :: pg where
  "std_pg = \<lparr>text_in = plain_text,
     jsonb_in = (\<lambda>p. if p \<noteq> [] \<and> json_raw_ok p then Some (json_raw_compact p) else None),
     scan_tasks = id, scan_workers = id, scan_letters = id, scan_groups = id, late = (\<lambda>_. None)\<rparr>"

interpretation spg: postgres std_pg
proof (unfold_locales, goal_cases)
  case (2 p q)
  then have p: "p \<noteq> []" "json_raw_ok p" "q = json_raw_compact p"
    by (auto simp: std_pg_def split: if_splits)
  then have c: "compact start q = Some q" by (auto intro: plain_compact plain_raw)
  then have "q \<noteq> []" by (cases q) (auto simp: final_def num_final_def split: if_splits)
  with c show ?case by (auto simp: std_pg_def json_raw_ok_def json_raw_compact_def)
next
  case 3
  show ?case by code_simp
next
  case 4
  show ?case by code_simp
qed (simp_all add: std_pg_def)

subsection \<open>Properties\<close>

text \<open>
  C12. Any sequence of store operations, over any network (statements lost before or after
  they ran), keeps the tables well-formed: unique keys, growing serial numbers, a task row for
  every dead letter, integers that fit their columns.
\<close>

theorem store_invariant:
  assumes "store_steps Q w w'" and "store_wf (db w)"
  shows "store_wf (db w')"
  using assms by (rule store_steps_wf)

definition row_world :: "unit world" where
  "row_world = \<lparr>rds = (), rnet = [], db = \<lparr>tasks = [zero_task\<lparr>ID := 7, Type := ''email'',
       Payload := ''{}'', Status := ''queued'', MaxAttempts := 3\<rparr>, zero_task\<lparr>ID := 8,
       Type := ''echo'', Payload := ''{}'', Status := ''dead'', Attempts := 3, MaxAttempts := 3\<rparr>],
     workers = [\<lparr>WkID = ''w1'', Hostname = ''h'', WkStatus = ''alive'', LastHeartbeat = 0\<rparr>],
     task_events = [], events_seq = 0, dead_letters = [], dl_seq = 0\<rparr>,
     pgnet = [], clk = 1700000000000000000\<rparr>"

lemma row_world_facts: "store_wf (db row_world)" "pok row_world"
  by code_simp+

theorem store_invariant_witness:
  "store_wf (db (snd (MarkDead std_pg 7 ''boom'' (row_world\<lparr>pgnet :=
     [\<lparr>latency = 0, outcome = Delivered\<rparr>, \<lparr>latency = 0, outcome = LostReply ''reset''\<rparr>]\<rparr>))))"
  by (rule store_invariant [OF store_steps.after [OF store_steps.stay store_step.wrote [OF store_write.dead]]])
    (simp add: row_world_facts)

lemma tx_then_ok:
  assumes "pok w" and "f V = (Inr a, V1)"
  shows "\<exists>w1. tx_then f V w k = k a V1 w1 \<and> pok w1"
  using pgcall_ok [OF assms(1), of "\<lambda>T. (case f V of (Inl e, V') \<Rightarrow> (Inl e, take_seqs V' T)
      | (Inr a, V') \<Rightarrow> (Inr (a, V'), take_seqs V' T))"] assms(2)
  by (cases "tx_call f V w") (auto simp: tx_then_def tx_call_def)

lemma MarkDead_ok:
  assumes "postgres Q" and "store_wf (db w)" and "pok w" and "r \<in> set (tasks (db w))"
    and "text_in Q lastErr" and "jsonb_in Q (Payload r) = Some p"
  shows "fst (MarkDead Q (ID r) lastErr w) = Inr ()"
proof -
  let ?i = "ID r"
  let ?f = "\<lambda>x. if ID x = ?i then x\<lparr>Status := StatusDead, FinishedAt := Some (usec (clk w)),
      UpdatedAt := usec (clk w), LastError := lastErr\<rparr> else x"
  obtain w1 where b: "tx_begin w = (Inr (), w1)" and w1: "pok w1"
    using pgcall_ok [OF assms(3), of "\<lambda>T. (Inr (), T)"] by (cases "tx_begin w") (auto simp: tx_begin_def)
  then have dbw: "db w1 = db w" using tx_frame(9) [of w] by simp
  have "map Payload (filter (\<lambda>x. ID x = ?i) (map ?f (tasks (db w)))) =
      map Payload (filter (\<lambda>x. ID x = ?i) (tasks (db w)))"
    by (induction "tasks (db w)" rule: list.induct) (auto simp: filter_map comp_def if_distrib cong: if_cong)
  also have "\<dots> = [Payload r]"
    using assms(2,4) filter_unique [of ID "tasks (db w)" r] by (simp add: store_wf_def)
  finally obtain V2 where 2: "update_dead Q ?i lastErr (clk w) (db w) = (Inr (Payload r), V2)"
    using assms(5) by (simp add: update_dead_def update_tasks_def first_row_def)
  obtain V3 where 3: "insert_dead_letter Q ?i lastErr (Payload r) (clk w) V2 = (Inr (), V3)"
    using assms(5,6) by (simp add: insert_dead_letter_def)
  have "plain_text ''dead''" by code_simp
  then obtain V4 where 4: "insert_event Q (clk w1) ?i ''dead'' lastErr V3 = (Inr (), V4)"
    using assms(1,5) by (simp add: insert_event_def postgres.text_ascii)
  let ?k3 = "\<lambda>_ V3 w3. tx_then (insert_event Q (clk w1) ?i ''dead'' lastErr) V3 w3 (\<lambda>_ V4 w4. tx_finish V4 w4)"
  let ?k2 = "\<lambda>payload V2 w2. tx_then (insert_dead_letter Q ?i lastErr payload (clk w)) V2 w2 ?k3"
  obtain w2 where k2: "tx_then (update_dead Q ?i lastErr (clk w)) (db w) w1 ?k2 = ?k2 (Payload r) V2 w2"
    and w2: "pok w2"
    using tx_then_ok [of w1 "update_dead Q ?i lastErr (clk w)" "db w", OF w1 2] by blast
  obtain w3 where k3: "?k2 (Payload r) V2 w2 = ?k3 () V3 w3" and w3: "pok w3"
    using tx_then_ok [of w2 "insert_dead_letter Q ?i lastErr (Payload r) (clk w)" V2, OF w2 3] by blast
  obtain w4 where k4: "?k3 () V3 w3 = tx_finish V4 w4" and w4: "pok w4"
    using tx_then_ok [of w3 "insert_event Q (clk w1) ?i ''dead'' lastErr" V3, OF w3 4] by blast
  have "fst (tx_finish V4 w4) = Inr ()"
    using pgcall_ok(1) [OF w4, of "\<lambda>T. (Inr (), V4)"]
    by (auto simp: tx_finish_def tx_commit_def split: prod.splits sum.splits)
  with k2 k3 k4 b dbw show ?thesis by (simp add: MarkDead_chain)
qed

text \<open>
  C9. The transaction of \<open>MarkDead\<close> is all or nothing, whatever the network does to any of
  its five round trips: either an error is returned and every row of every table is as before, or
  the task is dead, one dead letter with its payload and one event were added and nothing
  else changed. Success is returned only in the second case; over a network that delivers,
  \<open>MarkDead\<close> succeeds for every task in the table.
\<close>

theorem MarkDead_all_or_nothing:
  shows "let (res, w') = MarkDead Q i lastErr w
    in ((\<exists>e. res = Inl e) \<and> same_rows (db w) (db w') \<or>
        dead_committed Q i lastErr (clk w) (db w) (db w')) \<and>
       (postgres Q \<and> store_wf (db w) \<and> pok w \<and> text_in Q lastErr \<and>
        (\<exists>r\<in>set (tasks (db w)). ID r = i \<and> jsonb_in Q (Payload r) \<noteq> None) \<longrightarrow> res = Inr ())"
proof -
  obtain res w' where M: "MarkDead Q i lastErr w = (res, w')" by fastforce
  have "res = Inr ()" if "postgres Q" "store_wf (db w)" "pok w" "text_in Q lastErr"
    "r \<in> set (tasks (db w))" "ID r = i" "jsonb_in Q (Payload r) = Some p" for r p
    using MarkDead_ok [OF that(1-3,5,4,7)] that(6) M by simp
  with MarkDead_atomic [OF M] M show ?thesis by auto
qed

theorem MarkDead_all_or_nothing_witness:
  "fst (MarkDead std_pg 7 ''boom'' row_world) = Inr ()"
proof -
  have "text_in std_pg ''boom'' \<and> (\<exists>r\<in>set (tasks (db row_world)). ID r = 7 \<and>
      jsonb_in std_pg (Payload r) \<noteq> None)" by code_simp
  with MarkDead_all_or_nothing [of std_pg 7 "''boom''" row_world] spg.postgres_axioms row_world_facts
  show ?thesis by (auto split: prod.splits)
qed

lemma plain_literals:
  "plain_text ''created''" "plain_text ''''" "plain_text ''canceled''" "plain_text ''redriven''"
  "plain_text ''reassigned''" "plain_text ''previous worker dead''" "plain_text ''started''"
  "plain_text ''succeeded''" "plain_text ''retry_scheduled''" "plain_text ''worker=''"
  by code_simp+

text \<open>
  C18. Round trip of \<open>CreateTask\<close> and \<open>GetTask\<close>: a new task that the columns accept is
  stored with the defaults filled in (an id, three attempts, status queued, available now, an
  empty object as payload), \<open>GetTask\<close> returns exactly that row, and every other id still
  returns what it returned before.
\<close>

theorem CreateTask_GetTask:
  assumes "postgres Q" and "store_wf (db w)" and "pok w"
    and "t = task_defaults u (clk w) t0" and "ID t \<notin> ID ` set (tasks (db w))"
    and "int4_range (Priority t)" and "int4_range (Attempts t)" and "int4_range (MaxAttempts t)"
    and "text_in Q (Type t)" and "text_in Q (Status t)" and "jsonb_in Q (Payload t) = Some p"
  shows "let (res, t', w') = CreateTask Q u t0 w
    in res = Inr () \<and> t' = t \<and>
       fst (GetTask Q (ID t) w') = Inr (zero_task\<lparr>ID := ID t, Type := Type t, Payload := p,
         Priority := Priority t, Status := Status t, Attempts := Attempts t,
         MaxAttempts := MaxAttempts t, AvailableAt := usec (AvailableAt t),
         CreatedAt := usec (clk w), UpdatedAt := usec (clk w)\<rparr>) \<and>
       (\<forall>i. i \<noteq> ID t \<longrightarrow> fst (GetTask Q i w') = fst (GetTask Q i w))"
proof -
  let ?row = "zero_task\<lparr>ID := ID t, Type := Type t, Payload := p, Priority := Priority t,
    Status := Status t, Attempts := Attempts t, MaxAttempts := MaxAttempts t,
    AvailableAt := usec (AvailableAt t), CreatedAt := usec (clk w), UpdatedAt := usec (clk w)\<rparr>"
  let ?T = "(db w)\<lparr>tasks := tasks (db w) @ [?row]\<rparr>"
  have now: "CreatedAt t = clk w" "UpdatedAt t = clk w"
    by (simp_all add: assms(4) task_defaults_def Let_def)
  have ins: "insert_task Q t (db w) = (Inr (), ?T)"
    using assms(5,9,10,11) by (simp add: insert_task_def now zero_task_def)
  have lits: "text_in Q ''created''" "text_in Q ''''"
    using assms(1) by (auto intro: postgres.text_ascii plain_literals)
  obtain w' where tl: "then_log (insert_task Q t) Q (ID t) ''created'' '''' w = (Inr (), w')"
    and w': "pok w'"
    using then_log_ok [where f = "insert_task Q t" and w = w, OF assms(3) ins lits, of "ID t"]
    by (cases "then_log (insert_task Q t) Q (ID t) ''created'' '''' w") auto
  then have c: "CreateTask Q u t0 w = (Inr (), t, w')"
    using assms(4,6-8) CreateTask_created [of Q u t0 w] CreateTask_then_log [of Q u t0 w]
    by (simp add: Let_def prod_eq_iff)
  have ts: "tasks (db w') = tasks (db w) @ [?row]"
    using then_log_tasks [where f = "insert_task Q t" and w = w, OF assms(3) ins, of Q "ID t" "''created''" "''''"] tl by simp
  have "store_wf (db w')" using CreateTask_wf [OF assms(2), of Q u t0] c by simp
  from GetTask_row [OF this w', of ?row Q] have g: "fst (GetTask Q (ID t) w') = Inr ?row" by (simp add: ts)
  have "fst (GetTask Q i w') = fst (GetTask Q i w)" if "i \<noteq> ID t" for i
    using w' assms(3) that by (simp add: GetTask_def case_prod_beta ts)
  with c g show ?thesis by simp
qed

theorem CreateTask_GetTask_witness:
  "fst (CreateTask std_pg 9 (zero_task\<lparr>Type := ''email''\<rparr>) row_world) = Inr ()"
proof -
  let ?t = "task_defaults 9 (clk row_world) (zero_task\<lparr>Type := ''email''\<rparr>)"
  have "ID ?t \<notin> ID ` set (tasks (db row_world)) \<and> int4_range (Priority ?t) \<and> int4_range (Attempts ?t) \<and>
      int4_range (MaxAttempts ?t) \<and> text_in std_pg (Type ?t) \<and> text_in std_pg (Status ?t) \<and>
      jsonb_in std_pg (Payload ?t) = Some ''{}''" by code_simp
  with CreateTask_GetTask [OF spg.postgres_axioms row_world_facts refl, of 9 "zero_task\<lparr>Type := ''email''\<rparr>" "''{}''"]
  show ?thesis by (auto simp: case_prod_beta Let_def)
qed

text \<open>
  C19. \<open>MarkCanceled\<close> moves a task to canceled exactly when it is queued or retrying. For a
  task that is running, finished or unknown it changes no row; in every case it reports
  success and logs a canceled event.
\<close>

theorem MarkCanceled_guarded:
  assumes "postgres Q" and "pok w"
  shows "let (res, w') = MarkCanceled Q i w
    in res = Inr () \<and>
       tasks (db w') = map (\<lambda>r. if ID r = i \<and> Status r \<in> {StatusQueued, StatusRetrying}
         then r\<lparr>Status := StatusCanceled, FinishedAt := Some (usec (clk w)), UpdatedAt := usec (clk w)\<rparr>
         else r) (tasks (db w)) \<and>
       (\<exists>now. task_events (db w') = task_events (db w) @ [\<lparr>EvID = events_seq (db w) + 1, EvTaskID = i,
         EventType = ''canceled'', EvMessage = '''', EvCreatedAt = usec now\<rparr>])"
proof -
  have lits: "text_in Q ''canceled''" "text_in Q ''''"
    using assms(1) by (auto intro: postgres.text_ascii plain_literals)
  let ?f = "\<lambda>T. (Inr () :: err + unit, update_tasks (\<lambda>r. ID r = i \<and> Status r \<in> {''queued'', ''retrying''})
      (\<lambda>r. r\<lparr>Status := StatusCanceled, FinishedAt := Some (usec (clk w)), UpdatedAt := usec (clk w)\<rparr>) T)"
  note ok = then_log_ok [where f = ?f, OF assms(2) refl lits, of i]
  from ok(2) obtain now where "db (snd (then_log ?f Q i ''canceled'' '''' w)) =
      snd (insert_event Q now i ''canceled'' '''' (snd (?f (db w))))" by auto
  with ok(1) show ?thesis
    unfolding marks_then_log case_prod_beta Let_def
    by (auto simp: insert_event_def lits update_tasks_def status_defs)
qed

theorem MarkCanceled_guarded_witness:
  "tasks (db (snd (MarkCanceled std_pg 8 row_world))) = tasks (db row_world)"
proof -
  have "map (\<lambda>r. if ID r = 8 \<and> Status r \<in> {StatusQueued, StatusRetrying}
         then r\<lparr>Status := StatusCanceled, FinishedAt := Some (usec (clk row_world)),
           UpdatedAt := usec (clk row_world)\<rparr>
         else r) (tasks (db row_world)) = tasks (db row_world)" by code_simp
  with MarkCanceled_guarded [OF spg.postgres_axioms row_world_facts(2), of 8] show ?thesis
    by (simp add: case_prod_beta Let_def)
qed

lemma LogEvent_tasks [simp]:
  "tasks (db (snd (LogEvent Q i ty msg w))) = tasks (db w)"
  "workers (db (snd (LogEvent Q i ty msg w))) = workers (db w)"
  "dead_letters (db (snd (LogEvent Q i ty msg w))) = dead_letters (db w)"
  using pgcall_db [of "insert_event Q (clk w) i ty msg" w] by (auto simp: LogEvent_def)

lemma LogEvent_pok [simp]: "pok w \<Longrightarrow> pok (snd (LogEvent Q i ty msg w))"
  by (simp add: LogEvent_def)

text \<open>The row that \<open>Redrive\<close> makes of a dead one.\<close>

definition redriven :: "time \<Rightarrow> task \<Rightarrow> task" where
  "redriven now r = r\<lparr>Status := ''queued'', Attempts := 0, LastError := [], AvailableAt := usec now,
     WorkerID := None, StartedAt := None, FinishedAt := None, UpdatedAt := usec now\<rparr>"

lemma Redrive_dead:
  assumes "store_wf (db w)" and "pok w" and r: "r \<in> set (tasks (db w))" "ID r = i" "Status r = ''dead''"
  shows "fst (Redrive Q i w) = Inr (redriven (clk w) r)"
    and "redriven (clk w) r \<in> set (tasks (db (snd (Redrive Q i w))))" and "pok (snd (Redrive Q i w))"
proof -
  let ?p = "\<lambda>r. ID r = i \<and> Status r = ''dead''"
  obtain row w1 where c: "pgcall (redrive_dead i (clk w)) w = (row, w1)" by fastforce
  then have c': "row = first_row (map (redriven (clk w)) (filter ?p (tasks (db w))))"
    "db w1 = update_tasks ?p (redriven (clk w)) (db w)" "pok w1"
    using pgcall_ok [OF assms(2), of "redrive_dead i (clk w)"]
    by (simp_all add: redrive_dead_def Let_def redriven_def [abs_def])
  have "filter ?p (tasks (db w)) = filter (\<lambda>x. Status x = ''dead'') (filter (\<lambda>x. ID x = ID r) (tasks (db w)))"
    using r(2) by (simp add: filter_filter conj_commute)
  also have "\<dots> = [r]"
    using assms(1) filter_unique [of ID "tasks (db w)" r] r by (simp add: store_wf_def)
  finally have "row = Inr (redriven (clk w) r)" by (simp add: c'(1) first_row_def)
  then have R: "Redrive Q i w = (Inr (redriven (clk w) r), snd (LogEvent Q i ''redriven'' [] w1))"
    by (simp add: Redrive_def c)
  show "fst (Redrive Q i w) = Inr (redriven (clk w) r)" by (simp add: R)
  show "pok (snd (Redrive Q i w))" using c'(3) by (simp add: R)
  show "redriven (clk w) r \<in> set (tasks (db (snd (Redrive Q i w))))"
    using r image_eqI [of _ _ r "set (tasks (db w))"] by (simp add: R c'(2) update_tasks_def)
qed

lemma Redrive_absent:
  assumes "pok w" and "\<forall>r\<in>set (tasks (db w)). ID r = i \<longrightarrow> Status r \<noteq> ''dead''"
  shows "fst (Redrive Q i w) = Inl ErrNotFound" and "db (snd (Redrive Q i w)) = db w"
proof -
  have "filter (\<lambda>r. ID r = i \<and> Status r = ''dead'') (tasks (db w)) = []"
    using assms(2) by (auto simp: filter_empty_conv)
  moreover have "map (\<lambda>r. if ID r = i \<and> Status r = ''dead'' then g r else r) (tasks (db w)) = tasks (db w)" for g
    using assms(2) by (intro map_idI) auto
  moreover obtain row w1 where c: "pgcall (redrive_dead i (clk w)) w = (row, w1)" by fastforce
  ultimately have "row = Inl ErrNoRows" "db w1 = db w"
    using pgcall_ok(1,2) [OF assms(1), of "redrive_dead i (clk w)"]
    by (simp_all add: redrive_dead_def Let_def first_row_def update_tasks_def)
  then show "fst (Redrive Q i w) = Inl ErrNotFound" and "db (snd (Redrive Q i w)) = db w"
    by (simp_all add: Redrive_def c scanTask_Inl)
qed

text \<open>
  \<open>Redrive\<close> resets a dead task to queued with no attempts, no error, no worker and no
  start and end times, and returns exactly the row that \<open>GetTask\<close> then reads; for an id
  that is unknown or not dead it returns \<open>ErrNotFound\<close> and changes nothing.
\<close>

lemma Redrive_resets:
  assumes "store_wf (db w)" and "pok w"
  shows "let (res, w') = Redrive Q i w
    in (\<forall>r\<in>set (tasks (db w)). ID r = i \<and> Status r = StatusDead \<longrightarrow>
          res = Inr (r\<lparr>Status := StatusQueued, Attempts := 0, LastError := '''',
            AvailableAt := usec (clk w), WorkerID := None, StartedAt := None, FinishedAt := None,
            UpdatedAt := usec (clk w)\<rparr>) \<and> fst (GetTask Q i w') = res) \<and>
       ((\<forall>r\<in>set (tasks (db w)). ID r = i \<longrightarrow> Status r \<noteq> StatusDead) \<longrightarrow>
          res = Inl ErrNotFound \<and> db w' = db w)"
proof -
  have dead: "fst (Redrive Q i w) = Inr (redriven (clk w) r) \<and>
      fst (GetTask Q i (snd (Redrive Q i w))) = Inr (redriven (clk w) r)"
    if r: "r \<in> set (tasks (db w))" "ID r = i" "Status r = ''dead''" for r
    using Redrive_dead [OF assms r, of Q] Redrive_wf [OF assms(1), of Q i] r(2)
      GetTask_row [of "snd (Redrive Q i w)" "redriven (clk w) r" Q] by (simp add: redriven_def)
  show ?thesis
    unfolding case_prod_beta Let_def status_defs
    using dead Redrive_absent [OF assms(2), of i Q] by (auto simp only: redriven_def)
qed

lemma Redrive_resets_example:
  "\<exists>t. fst (Redrive std_pg 8 row_world) = Inr t \<and> Status t = StatusQueued"
proof -
  have "\<exists>r\<in>set (tasks (db row_world)). ID r = 8 \<and> Status r = StatusDead" by code_simp
  then obtain r where r: "r \<in> set (tasks (db row_world))" "ID r = 8 \<and> Status r = StatusDead" by blast
  from Redrive_resets [OF row_world_facts, of std_pg 8, unfolded case_prod_beta Let_def,
      THEN conjunct1, rule_format, OF r] show ?thesis by simp
qed

lemma log_orphans_ok:
  "fst (log_orphans Q rows w) = Inr rows \<and> tasks (db (snd (log_orphans Q rows w))) = tasks (db w)"
proof (induction rows arbitrary: w)
  case (Cons r rows)
  from Cons.IH [of "snd (LogEvent Q (ID r) ''reassigned'' ''previous worker dead'' w)"] show ?case
    by (cases "log_orphans Q rows (snd (LogEvent Q (ID r) ''reassigned'' ''previous worker dead'' w))") auto
qed simp

text \<open>
  \<open>RequeueOrphans\<close> returns to queued exactly the tasks that are running on one of the
  given workers, without a worker; all other rows stay as they are, and the returned tasks
  are those it changed, each once.
\<close>

theorem RequeueOrphans_exact:
  assumes "postgres Q" and "pok w" and "list_all (text_in Q) wks"
  shows "let (res, w') = RequeueOrphans Q wks w;
      orphan = (\<lambda>r. Status r = StatusRunning \<and> (\<exists>wk\<in>set wks. WorkerID r = Some wk));
      reset = (\<lambda>r. r\<lparr>Status := StatusQueued, WorkerID := None, AvailableAt := usec (clk w),
        UpdatedAt := usec (clk w)\<rparr>)
    in (\<exists>out. res = Inr out \<and> mset out = mset (map reset (filter orphan (tasks (db w))))) \<and>
       tasks (db w') = map (\<lambda>r. if orphan r then reset r else r) (tasks (db w)) \<and>
       (\<forall>r\<in>set (tasks (db w')). \<not> orphan r)"
proof -
  let ?o = "\<lambda>r. Status r = ''running'' \<and> (\<exists>wk\<in>set wks. WorkerID r = Some wk)"
  let ?f = "\<lambda>r. r\<lparr>Status := ''queued'', WorkerID := None, AvailableAt := usec (clk w), UpdatedAt := usec (clk w)\<rparr>"
  have none: "\<forall>r\<in>set (map (\<lambda>r. if ?o r then ?f r else r) (tasks (db w))). \<not> ?o r" by auto
  have "\<exists>out. fst (RequeueOrphans Q wks w) = Inr out \<and> mset out = mset (map ?f (filter ?o (tasks (db w)))) \<and>
      tasks (db (snd (RequeueOrphans Q wks w))) = map (\<lambda>r. if ?o r then ?f r else r) (tasks (db w))"
  proof (cases "wks = []")
    case False
    let ?q = "requeue_orphans Q wks (clk w)"
    let ?rows = "scan_tasks Q (map ?f (filter ?o (tasks (db w))))"
    have q: "?q (db w) = (Inr ?rows, update_tasks ?o ?f (db w))"
      using assms(3) by (simp add: requeue_orphans_def Let_def)
    obtain w1 where w1: "pgquery Q ?q w = (Inr (?rows, None), w1)" "db w1 = update_tasks ?o ?f (db w)"
      using pgquery_ok [where f = ?q and w = w, OF assms(2) q, of Q] by (cases "pgquery Q ?q w") auto
    obtain w2 where "log_orphans Q ?rows w1 = (Inr ?rows, w2)" "tasks (db w2) = tasks (db w1)"
      using log_orphans_ok [of Q ?rows w1] by (cases "log_orphans Q ?rows w1") auto
    with w1 False postgres.scan_tasks [OF assms(1), of "map ?f (filter ?o (tasks (db w)))"] show ?thesis
      by (simp add: RequeueOrphans_def update_tasks_def)
  qed (simp add: RequeueOrphans_def)
  then obtain out where o: "fst (RequeueOrphans Q wks w) = Inr out"
    "mset out = mset (map ?f (filter ?o (tasks (db w))))"
    "tasks (db (snd (RequeueOrphans Q wks w))) = map (\<lambda>r. if ?o r then ?f r else r) (tasks (db w))"
    by blast
  show ?thesis unfolding case_prod_beta Let_def status_defs
    by (intro conjI exI [of _ out]) (rule o(1), rule o(2), rule o(3), unfold o(3), rule none)
qed

theorem RequeueOrphans_exact_witness:
  "filter (\<lambda>r. Status r = StatusRunning \<and> WorkerID r = Some ''w1'')
     (tasks (db (snd (RequeueOrphans std_pg [''w1''] (snd (MarkRunning std_pg 7 ''w1'' row_world)))))) = []"
proof -
  have "pok (snd (MarkRunning std_pg 7 ''w1'' row_world))" "list_all (text_in std_pg) [''w1'']"
    by code_simp+
  from RequeueOrphans_exact [OF spg.postgres_axioms this, unfolded case_prod_beta Let_def,
      THEN conjunct2, THEN conjunct2] show ?thesis by (simp add: filter_empty_conv)
qed

lemma map_upd_add:
  assumes "k \<notin> fst ` set rows"
  shows "m(k \<mapsto> v) ++ map_of rows = m ++ map_of ((k, v) # rows)"
proof -
  have "map_of rows k = None" using assms by (simp add: map_of_eq_None_iff)
  then show ?thesis by (auto simp: map_add_def fun_eq_iff split: option.splits)
qed

lemma fold_count_status:
  "distinct (map fst rows) \<Longrightarrow> ByStatus (fold count_status rows st) = ByStatus st ++ map_of rows"
  "ByType (fold count_status rows st) = ByType st"
  "\<forall>kv\<in>set rows. 0 \<le> snd kv \<Longrightarrow> 0 \<le> Total st \<Longrightarrow> Total st + sum_list (map snd rows) < 2 ^ 63 \<Longrightarrow>
   Total (fold count_status rows st) = Total st + sum_list (map snd rows)"
proof (induction rows arbitrary: st)
  case (Cons kv rows)
  obtain k v where kv: "kv = (k, v)" by fastforce
  { case 1
    then have "ByStatus (fold count_status (kv # rows) st) = (ByStatus st)(k \<mapsto> v) ++ map_of rows"
      using Cons.IH(1) [of "count_status kv st"] by (simp add: kv) (simp add: count_status_def)
    also have "\<dots> = ByStatus st ++ map_of (kv # rows)"
      unfolding kv by (rule map_upd_add) (use 1 kv in auto)
    finally show ?case . }
  { case 2 with Cons.IH(2) [of "count_status kv st"] show ?case by (simp add: count_status_def) }
  { case 3
    have "0 \<le> sum_list (map snd rows)" using 3(1) by (intro sum_list_nonneg) auto
    with 3 have "wrap64 (Total st + snd kv) = Total st + snd kv"
      by (intro wrap64_id) (auto simp: int64_range_def)
    with 3 Cons.IH(3) [of "count_status kv st"] show ?case by (simp add: count_status_def) }
qed simp_all

lemma fold_count_type:
  "distinct (map fst rows) \<Longrightarrow> ByType (fold count_type rows st) = ByType st ++ map_of rows"
  "ByStatus (fold count_type rows st) = ByStatus st" "Total (fold count_type rows st) = Total st"
proof (induction rows arbitrary: st)
  case (Cons kv rows)
  obtain k v where kv: "kv = (k, v)" by fastforce
  { case 1
    then have "ByType (fold count_type (kv # rows) st) = (ByType st)(k \<mapsto> v) ++ map_of rows"
      using Cons.IH(1) [of "count_type kv st"] by (simp add: kv) (simp add: count_type_def)
    also have "\<dots> = ByType st ++ map_of (kv # rows)"
      unfolding kv by (rule map_upd_add) (use 1 kv in auto)
    finally show ?case . }
  { case 2 with Cons.IH(2) [of "count_type kv st"] show ?case by (simp add: count_type_def) }
  { case 3 with Cons.IH(3) [of "count_type kv st"] show ?case by (simp add: count_type_def) }
qed simp_all

definition tally :: "(task \<Rightarrow> string) \<Rightarrow> task list \<Rightarrow> string \<rightharpoonup> int" where
  "tally k ts = (\<lambda>v. if v \<in> k ` set ts then Some (int (length (filter (\<lambda>t. k t = v) ts))) else None)"

lemma count_list_filter: "length (filter (\<lambda>t. k t = v) ts) = count_list (map k ts) v"
  by (induction ts) auto

lemma sum_filter_remdups:
  "(\<Sum>v\<leftarrow>remdups (map k ts). length (filter (\<lambda>t. k t = v) ts)) = length ts"
proof -
  have "(\<Sum>v\<leftarrow>remdups (map k ts). count_list (map k ts) v) = (\<Sum>v\<in>set (map k ts). count_list (map k ts) v)"
    by (subst sum_list_distinct_conv_sum_set) simp_all
  also have "\<dots> = length ts" by (subst sum_count_set) simp_all
  finally show ?thesis by (simp only: count_list_filter)
qed

lemma int_sum_list: "(\<Sum>v\<leftarrow>xs. int (f v)) = int (\<Sum>v\<leftarrow>xs. f v)"
  by (induction xs) simp_all

lemma group_count_facts:
  assumes "mset rows = mset (group_count k ts)"
  shows "distinct (map fst rows)" and "map_of rows = tally k ts"
    and "sum_list (map snd rows) = int (length ts)" and "\<forall>kv\<in>set rows. 0 \<le> snd kv"
proof -
  have d: "distinct (map fst (group_count k ts))" by (simp add: group_count_def comp_def)
  have m: "mset (map fst rows) = mset (map fst (group_count k ts))" using arg_cong [OF assms, of "image_mset fst"] by simp
  from d m show dr: "distinct (map fst rows)" by (metis mset_eq_imp_distinct_iff)
  have "map_of rows = map_of (group_count k ts)"
    using dr d mset_eq_setD [OF assms] by (rule map_of_inject_set [THEN iffD2])
  also have "map_of (group_count k ts) = tally k ts"
    by (auto simp: group_count_def tally_def map_of_map_keys map_of_map_restrict restrict_map_def fun_eq_iff)
  finally show "map_of rows = tally k ts" .
  have "sum_list (map snd rows) = sum_list (map snd (group_count k ts))"
    using assms by (metis mset_map sum_mset_sum_list)
  also have "\<dots> = int (\<Sum>v\<leftarrow>remdups (map k ts). length (filter (\<lambda>t. k t = v) ts))"
    by (simp add: group_count_def comp_def int_sum_list)
  also have "\<dots> = int (length ts)" by (simp add: sum_filter_remdups)
  finally show "sum_list (map snd rows) = int (length ts)" .
  show "\<forall>kv\<in>set rows. 0 \<le> snd kv" using mset_eq_setD [OF assms] by (auto simp: group_count_def)
qed

text \<open>
  C21. Over a network that delivers, \<open>GetStats\<close> reports no error, counts the tasks of every
  status and of every type that occurs, has no entry for any other, and its total is the number
  of tasks.
\<close>

theorem GetStats_counts:
  assumes "postgres Q" and "pok w" and "int (length (tasks (db w))) < 2 ^ 63"
  shows "fst (GetStats Q w) = (\<lparr>ByStatus = tally Status (tasks (db w)), ByType = tally Type (tasks (db w)),
    Total = int (length (tasks (db w)))\<rparr>, None)"
proof -
  let ?ts = "tasks (db w)" and ?st = "\<lparr>ByStatus = Map.empty, ByType = Map.empty, Total = 0\<rparr>"
  let ?f = "\<lambda>k T. (Inr (scan_groups Q (group_count k (tasks T))) :: err + (string \<times> int) list, T)"
  let ?rs = "scan_groups Q (group_count Status ?ts)" and ?rt = "scan_groups Q (group_count Type ?ts)"
  note ms = group_count_facts [OF postgres.scan_groups [OF assms(1)], of Status ?ts]
  note mt = group_count_facts [OF postgres.scan_groups [OF assms(1)], of Type ?ts]
  have q: "fst (pgquery Q (?f k) v) = Inr (scan_groups Q (group_count k (tasks (db v))), None) \<and>
      db (snd (pgquery Q (?f k) v)) = db v \<and> pok (snd (pgquery Q (?f k) v))" if "pok v" for k and v :: "'a world"
    using pgquery_ok [where f = "?f k" and w = v, OF that refl, of Q] by simp
  obtain w1 where w1: "pgquery Q (?f Status) w = (Inr (?rs, None), w1)" "db w1 = db w" "pok w1"
    using q [OF assms(2), of Status] by (cases "pgquery Q (?f Status) w") auto
  obtain w2 where w2: "pgquery Q (?f Type) w1 = (Inr (?rt, None), w2)"
    using q [OF w1(3), of Type] w1(2) by (cases "pgquery Q (?f Type) w1") auto
  have "fst (GetStats Q w) = (fold count_type ?rt (fold count_status ?rs ?st), None)"
    by (simp add: GetStats_def w1(1) w2)
  moreover have "Total (fold count_status ?rs ?st) = int (length ?ts)"
    using fold_count_status(3) [of ?rs ?st] ms(3,4) assms(3) by simp
  ultimately show ?thesis
    by (intro prod_eqI stats.equality)
      (simp_all add: fold_count_type mt fold_count_status(1) [OF ms(1)] fold_count_status(2) ms(2))
qed

theorem GetStats_counts_witness:
  "Total (fst (fst (GetStats std_pg row_world))) = 2"
proof -
  have "int (length (tasks (db row_world))) < 2 ^ 63" and "int (length (tasks (db row_world))) = 2"
    by code_simp+
  with GetStats_counts [OF spg.postgres_axioms row_world_facts(2)] show ?thesis by simp
qed

text \<open>
  When the connection breaks after \<open>n\<close> groups of either query, \<open>GetStats\<close> returns the counters
  of these groups and no error, since neither loop is followed by \<open>rows.Err()\<close>.
\<close>

lemma GetStats_hides_late_errors:
  assumes "late Q (Err m) = Some n" and "pgnet w = [\<lparr>latency = 0, outcome = LostReply m\<rparr>,
    \<lparr>latency = 0, outcome = LostReply m\<rparr>]"
  shows "fst (GetStats Q w) =
    (fold count_type (take n (scan_groups Q (group_count Type (tasks (db w)))))
      (fold count_status (take n (scan_groups Q (group_count Status (tasks (db w)))))
        \<lparr>ByStatus = Map.empty, ByType = Map.empty, Total = 0\<rparr>), None)"
  using assms by (simp add: GetStats_def pgquery_def pgcall_def first_rows_def)

text \<open>
  C20. Over a network that delivers, \<open>ListTasks\<close> returns the newest tasks that match the
  filters, newest first: at most the limit (100 when the given limit is not in 1 .. 500), all
  of them when there are fewer, and none older than one it leaves out.
\<close>

theorem ListTasks_page:
  assumes "postgres Q" and "pok w" and "text_in Q status" and "text_in Q typ"
  shows "\<exists>out. fst (ListTasks Q status typ limit w) = Inr out \<and>
    (let matching = filter (\<lambda>r. (status = '''' \<or> Status r = status) \<and> (typ = '''' \<or> Type r = typ))
       (tasks (db w))
     in mset out \<subseteq># mset matching \<and> length out = min (nat (clamp_limit limit)) (length matching) \<and>
       sorted_wrt (\<lambda>r r'. CreatedAt r \<ge> CreatedAt r') out \<and>
       (\<forall>r\<in>#mset matching - mset out. \<forall>r'\<in>set out. CreatedAt r \<le> CreatedAt r'))"
proof -
  let ?m = "filter (\<lambda>r. (status = '''' \<or> Status r = status) \<and> (typ = '''' \<or> Type r = typ)) (tasks (db w))"
  let ?s = "sort_key (\<lambda>r. - CreatedAt r) (scan_tasks Q ?m)"
  let ?n = "nat (clamp_limit limit)"
  let ?q = "\<lambda>T. if \<not> (text_in Q status \<and> text_in Q typ) then (Inl bad_text, T)
      else (Inr (take (nat (clamp_limit limit)) (sort_key (\<lambda>r. - CreatedAt r) (scan_tasks Q
        (filter (\<lambda>r. (status = '''' \<or> Status r = status) \<and> (typ = '''' \<or> Type r = typ)) (tasks T))))), T)"
  have q: "?q (db w) = (Inr (take ?n ?s), db w)" using assms(3,4) by simp
  have "fst (pgquery Q ?q w) = Inr (take ?n ?s, None)" by (rule pgquery_ok(1) [where f = ?q and w = w, OF assms(2) q])
  then have f: "fst (ListTasks Q status typ limit w) = Inr (take ?n ?s)"
    by (cases "pgquery Q ?q w") (simp add: ListTasks_def Let_def)
  have m: "mset ?s = mset ?m" using postgres.scan_tasks [OF assms(1)] by simp
  have srt: "sorted_wrt (\<lambda>r r'. CreatedAt r \<ge> CreatedAt r') ?s"
    using sorted_sort_key [of "\<lambda>r. - CreatedAt r" "scan_tasks Q ?m"] by (simp add: sorted_map)
  define s where "s = ?s"
  note m = m [folded s_def] and srt = srt [folded s_def] and f = f [folded s_def]
  have split: "mset ?m = mset (take ?n s) + mset (drop ?n s)"
    unfolding m [symmetric] mset_append [symmetric] append_take_drop_id ..
  have "sorted_wrt (\<lambda>r r'. CreatedAt r \<ge> CreatedAt r') (take ?n s @ drop ?n s)"
    unfolding append_take_drop_id by (rule srt)
  then have t: "sorted_wrt (\<lambda>r r'. CreatedAt r \<ge> CreatedAt r') (take ?n s)"
    "\<forall>r'\<in>set (take ?n s). \<forall>r\<in>set (drop ?n s). CreatedAt r \<le> CreatedAt r'"
    unfolding sorted_wrt_append by blast+
  have "length s = length ?m" using m by (rule mset_eq_length)
  then have l: "length (take ?n s) = min ?n (length ?m)" by (simp add: min.commute)
  show ?thesis
    unfolding Let_def split
    by (intro exI [of _ "take ?n s"] conjI) (use f t l in \<open>simp_all\<close>)
qed

theorem ListTasks_page_witness:
  "\<exists>out. fst (ListTasks std_pg '''' ''email'' 1 row_world) = Inr out \<and> length out = 1"
proof -
  have t: "text_in std_pg ''''" "text_in std_pg ''email''" by code_simp+
  have "min (nat (clamp_limit 1)) (length (filter (\<lambda>r. (([]::string) = '''' \<or> Status r = '''') \<and>
      (''email'' = '''' \<or> Type r = ''email'')) (tasks (db row_world)))) = 1" by code_simp
  with ListTasks_page [OF spg.postgres_axioms row_world_facts(2) t, of 1] show ?thesis
    unfolding Let_def by metis
qed

end
