(* ===== verification/Backoff.thy ===== *)
theory Backoff
  imports Prelude
begin

section \<open>Retry delays (BackoffDelay of internal/scheduler/scheduler.go)\<close>

text \<open>
  The delay before a retry, with Go's \<open>float64\<close> arithmetic. Every float the function
  computes before the jitter is an integer or not finite. \<open>rand.Float64()\<close> draws \<open>k\<close> from
  \<open>0 .. 2^63 - 1\<close> and returns \<open>float64(k) / 2^63\<close>, drawing again when that is 1. What a
  conversion of an infinite, undefined or too large float to an integer gives depends on the
  machine and is the argument \<open>conv\<close>. Durations are nanoseconds.
\<close>

datatype gofloat = Fin int | PosInf | NegInf | NaN

text \<open>\<open>math.Pow(2, n)\<close> for a non-negative integer \<open>n\<close>.\<close>

definition pow2 :: "int \<Rightarrow> gofloat" where
  "pow2 n = (if n > 1023 then PosInf else Fin (2 ^ nat n))"

text \<open>The product of an integral float with a power of two: exact unless it overflows.\<close>

fun fmul :: "int \<Rightarrow> gofloat \<Rightarrow> gofloat" where
  "fmul a (Fin b) = (if a * b \<ge> 2 ^ 1024 then PosInf else if a * b \<le> - (2 ^ 1024) then NegInf else Fin (a * b))"
| "fmul a PosInf = (if a > 0 then PosInf else if a < 0 then NegInf else NaN)"
| "fmul a NegInf = (if a > 0 then NegInf else if a < 0 then PosInf else NaN)"
| "fmul a NaN = NaN"

fun fgt :: "gofloat \<Rightarrow> int \<Rightarrow> bool" where
  "fgt (Fin a) b = (a > b)"
| "fgt PosInf b = True"
| "fgt NegInf b = False"
| "fgt NaN b = False"

text \<open>\<open>time.Duration(rand.Float64() * exp)\<close>: the product is rounded, then cut towards zero.\<close>

definition trunc_div :: "int \<Rightarrow> int \<Rightarrow> int" where
  "trunc_div a b = (if a < 0 then - ((- a) div b) else a div b)"

fun jitter :: "(gofloat \<Rightarrow> int) \<Rightarrow> int \<Rightarrow> gofloat \<Rightarrow> int" where
  "jitter conv k (Fin e) =
     (let q = trunc_div (f64 (f64 k * e)) (2 ^ 63) in if int64_range q then q else conv (Fin q))"
| "jitter conv k PosInf = conv (if k = 0 then NaN else PosInf)"
| "jitter conv k NegInf = conv (if k = 0 then NaN else NegInf)"
| "jitter conv k NaN = conv NaN"

definition BackoffDelay :: "(gofloat \<Rightarrow> int) \<Rightarrow> int \<Rightarrow> int \<Rightarrow> int \<Rightarrow> int \<Rightarrow> int" where
  "BackoffDelay conv k attempt base mx =
     (let attempt = (if attempt < 1 then 1 else attempt);
          exp = fmul (f64 base) (pow2 (attempt - 1));
          exp = (if fgt exp (f64 mx) then Fin (f64 mx) else exp);
          d = jitter conv k exp
      in if d < base then base else d)"

text \<open>The draws that \<open>rand.Float64\<close> accepts.\<close>

definition accepted :: "int \<Rightarrow> bool" where
  "accepted k \<longleftrightarrow> 0 \<le> k \<and> k < 2 ^ 63 \<and> f64 k < 2 ^ 63"

subsection \<open>Bounds\<close>

lemma f64_scale: "0 \<le> x \<Longrightarrow> f64 x = x \<Longrightarrow> f64 (x * 2 ^ n) = x * 2 ^ n"
proof -
  assume x: "0 \<le> x" "f64 x = x"
  then have "f64_nat (nat x) = nat x" by (simp add: f64_nonneg)
  then have "f64_nat (nat x * 2 ^ n) = nat x * 2 ^ n" by (rule f64_nat_scale)
  with x(1) show ?thesis by (simp add: f64_nonneg nat_mult_distrib nat_power_eq)
qed

lemma f64_ge0: "0 \<le> x \<Longrightarrow> 0 \<le> f64 x"
  by (simp add: f64_nonneg)

lemma jitter_Fin:
  assumes "accepted k" and "0 \<le> e" and "f64 e = e" and "e \<le> 2 ^ 63"
  shows "0 \<le> jitter conv k (Fin e)" and "jitter conv k (Fin e) \<le> e"
    and "e = 2 ^ 63 \<Longrightarrow> jitter conv k (Fin e) < e"
proof -
  let ?p = "f64 (f64 k * e)"
  have k: "0 \<le> f64 k" "f64 k < 2 ^ 63" using assms(1) by (auto simp: accepted_def f64_ge0)
  have p: "0 \<le> ?p" using k(1) assms(2) by (simp add: f64_ge0)
  have "f64 k * e \<le> e * 2 ^ 63" using mult_right_mono [of "f64 k" "2 ^ 63" e] k(2) assms(2) by (simp add: mult.commute)
  from f64_mono [OF this] f64_scale [OF assms(2,3), of 63] have pe: "?p \<le> e * 2 ^ 63" by simp
  have q: "trunc_div ?p (2 ^ 63) = ?p div 2 ^ 63" using p by (simp add: trunc_div_def)
  have q0: "0 \<le> ?p div 2 ^ 63" using p by simp
  have qe: "?p div 2 ^ 63 \<le> e" using zdiv_mono1 [OF pe, of "2 ^ 63"] by simp
  have top: "?p div 2 ^ 63 < e" if "e = 2 ^ 63"
  proof -
    have kk: "f64 (f64 k) = f64 k" using assms(1) by (simp add: accepted_def f64_idem)
    have "?p = f64 k * e" using f64_scale [OF k(1) kk, of 63] by (simp add: that)
    then show ?thesis using k(2) by (simp add: that)
  qed
  have r: "int64_range (?p div 2 ^ 63)"
    using q0 qe top assms(4) by (cases "e = 2 ^ 63") (auto simp: int64_range_def)
  show "0 \<le> jitter conv k (Fin e)" and "jitter conv k (Fin e) \<le> e"
    and "e = 2 ^ 63 \<Longrightarrow> jitter conv k (Fin e) < e"
    using r q q0 qe top by (simp_all add: Let_def)
qed

text \<open>The exponential value after the cap, for durations that are not negative.\<close>

lemma f64_le_pow63: "int64_range x \<Longrightarrow> f64 x \<le> 2 ^ 63"
  using f64_mono [of x "2 ^ 63"] f64_scale [of 1 63] f64_small [of 1] by (simp add: int64_range_def)

definition capped_exp :: "int \<Rightarrow> int \<Rightarrow> int \<Rightarrow> int" where
  "capped_exp attempt base mx = min (f64 base * 2 ^ nat (attempt - 1)) (f64 mx)"

lemma BackoffDelay_capped:
  assumes "1 \<le> attempt" and "0 < base" and "int64_range base" and "0 \<le> mx" and "int64_range mx"
  shows "BackoffDelay conv k attempt base mx =
    max base (jitter conv k (Fin (capped_exp attempt base mx)))"
proof -
  let ?e = "f64 base * 2 ^ nat (attempt - 1)"
  have "f64 1 \<le> f64 base" using assms(2) by (intro f64_mono) simp
  then have b: "1 \<le> f64 base" by (simp add: f64_small)
  have m: "f64 mx \<le> 2 ^ 63" using assms(5) by (rule f64_le_pow63)
  have big: "f64 mx < f64 base * 2 ^ n" if "1024 \<le> n" for n
  proof -
    have "(2::int) ^ 64 \<le> 2 ^ n" using that by (intro power_increasing) simp_all
    then have "(2::int) ^ 64 \<le> f64 base * 2 ^ n" using mult_mono [of 1 "f64 base" "2 ^ 64" "2 ^ n"] b by simp
    with m show ?thesis by simp
  qed
  have p: "0 < ?e" using b by simp
  show ?thesis
  proof (cases "attempt - 1 > 1023")
    case True
    then have "f64 mx < ?e" by (intro big) simp
    with True b assms(1) show ?thesis
      by (simp add: BackoffDelay_def pow2_def Let_def capped_exp_def max_def)
  next
    case False
    show ?thesis
    proof (cases "?e \<ge> 2 ^ 1024")
      case True
      have "(2::int) ^ 63 < 2 ^ 1024" by (rule power_strict_increasing) simp_all
      with True m have "f64 mx < ?e" by linarith
      with True False assms(1) show ?thesis
        by (simp add: BackoffDelay_def pow2_def Let_def capped_exp_def max_def)
    next
      case e: False
      moreover have "\<not> ?e \<le> - (2 ^ 1024)" using p by (simp add: not_le)
      ultimately show ?thesis using False assms(1)
        by (simp add: BackoffDelay_def pow2_def Let_def capped_exp_def max_def min_def)
    qed
  qed
qed

lemma BackoffDelay_le:
  assumes "accepted k" and "0 < base" and "int64_range base" and "0 \<le> mx" and "int64_range mx"
  shows "base \<le> BackoffDelay conv k attempt base mx"
    and "BackoffDelay conv k attempt base mx \<le> max base (capped_exp (max 1 attempt) base mx)"
proof -
  define a where "a = max 1 attempt"
  define e where "e = capped_exp a base mx"
  have a: "1 \<le> a" by (simp add: a_def)
  have eq: "BackoffDelay conv k attempt base mx = BackoffDelay conv k a base mx"
    by (simp add: BackoffDelay_def a_def max_def)
  have b0: "0 \<le> f64 base" using assms(2) by (simp add: f64_ge0)
  have e0: "0 \<le> e" using b0 assms(4) by (simp add: e_def capped_exp_def f64_ge0)
  have e63: "e \<le> 2 ^ 63" using f64_le_pow63 [OF assms(5)] by (simp add: e_def capped_exp_def min_def)
  have "f64 e = e"
    using f64_scale [OF b0, of "nat (a - 1)"] f64_idem [of base] f64_idem [of mx] assms(2,4)
    by (simp add: e_def capped_exp_def min_def)
  from jitter_Fin(2) [OF assms(1) e0 this e63, of conv]
  have "BackoffDelay conv k a base mx \<le> max base e"
    unfolding BackoffDelay_capped [OF a assms(2-5)] e_def [symmetric] by (simp only: max.mono order.refl)
  then show "BackoffDelay conv k attempt base mx \<le> max base (capped_exp (max 1 attempt) base mx)"
    by (simp only: eq e_def a_def)
  show "base \<le> BackoffDelay conv k attempt base mx"
    unfolding eq BackoffDelay_capped [OF a assms(2-5)] by (rule max.cobounded1)
qed

text \<open>
  C30. For every draw, a delay is at least the base delay and at most the larger of the base delay
  and the exponential value \<open>base * 2^(attempt-1)\<close> cut off at the maximum delay; so with
  a base delay up to the maximum, and a maximum below \<open>2^53\<close> ns (about 104 days), it is
  never above the maximum. No attempt number overflows.
\<close>

theorem BackoffDelay_bounds:
  assumes "accepted k" and "0 < base" and "int64_range base" and "0 \<le> mx" and "int64_range mx"
  shows "base \<le> BackoffDelay conv k attempt base mx \<and>
    BackoffDelay conv k attempt base mx \<le> max base (capped_exp (max 1 attempt) base mx) \<and>
    (base \<le> mx \<and> mx < 2 ^ 53 \<longrightarrow> BackoffDelay conv k attempt base mx \<le> mx)"
proof -
  have "capped_exp (max 1 attempt) base mx \<le> mx" if "mx < 2 ^ 53"
    using that assms(4) f64_small [of mx] by (simp add: capped_exp_def min_def)
  with BackoffDelay_le [OF assms, of conv attempt] show ?thesis by linarith
qed

theorem BackoffDelay_bounds_witness:
  "BackoffDelay (\<lambda>_. 0) (2 ^ 62) 20 1000000000 2000000000 \<le> 2000000000"
proof -
  have "f64 (2 ^ 62) = 2 ^ 62" using f64_scale [of 1 62] f64_small [of 1] by simp
  then have "accepted (2 ^ 62)" by (simp add: accepted_def)
  from BackoffDelay_bounds [OF this, of 1000000000 2000000000 "\<lambda>_. 0" 20] show ?thesis
    by (simp add: int64_range_def)
qed

text \<open>
  The delay of the first retry is not jittered: for every draw it is exactly the base delay
  (up to \<open>2^53\<close> ns), also when the base delay is above the maximum delay.
\<close>

lemma BackoffDelay_first_retry:
  assumes "accepted k" and "attempt \<le> 1" and "0 < base" and "base < 2 ^ 53" and "0 \<le> mx" and "int64_range mx"
  shows "BackoffDelay conv k attempt base mx = base"
proof -
  have r: "int64_range base" using assms(3,4) by (simp add: int64_range_def)
  have "capped_exp (max 1 attempt) base mx \<le> base"
    using assms(2-4) f64_small [of base] by (simp add: capped_exp_def)
  with BackoffDelay_le [OF assms(1,3) r assms(5,6), of conv attempt] show ?thesis by simp
qed

lemma BackoffDelay_first_retry_example:
  "BackoffDelay (\<lambda>_. 0) (2 ^ 62) 1 5000000000 2000000000 = 5000000000"
proof -
  have "f64 (2 ^ 62) = 2 ^ 62" using f64_scale [of 1 62] f64_small [of 1] by simp
  then have "accepted (2 ^ 62)" by (simp add: accepted_def)
  from BackoffDelay_first_retry [OF this, of 1 5000000000 2000000000 "\<lambda>_. 0"] show ?thesis
    by (simp add: int64_range_def)
qed

end
