(* ===== verification/Float64.thy ===== *)
theory Float64
  imports Prelude Complex_Main
begin

section \<open>Go's \<open>float64\<close> on rational values\<close>

text \<open>
  A finite \<open>float64\<close> is represented by the rational number it stands for. \<open>f64r\<close> rounds
  a rational to the nearest float, ties to even, with gradual underflow; the results of the code's
  divisions, products and number literals are roundings of the exact values. A rounding that
  reaches \<open>2 ^ 1024\<close> is an overflow, which the callers test with \<open>overflows\<close>.
\<close>

definition round_even :: "rat \<Rightarrow> int" where
  "round_even x =
     (let f = \<lfloor>x\<rfloor>; d = x - of_int f
      in if d < 1 / 2 \<or> (d = 1 / 2 \<and> even f) then f else f + 1)"

text \<open>The exponent of the leading bit of a positive rational.\<close>

definition lead_bit :: "rat \<Rightarrow> int" where
  "lead_bit x =
     (let (p, q) = quotient_of x; e = int (bitlen (nat p)) - int (bitlen (nat q))
      in if 2 powi e \<le> x then e else e - 1)"

definition ulp_exp :: "rat \<Rightarrow> int" where
  "ulp_exp x = max (lead_bit \<bar>x\<bar> - 52) (- 1074)"

definition f64r :: "rat \<Rightarrow> rat" where
  "f64r x = (if x = 0 then 0 else of_int (round_even (x / 2 powi ulp_exp x)) * 2 powi ulp_exp x)"

definition overflows :: "rat \<Rightarrow> bool" where
  "overflows x \<longleftrightarrow> 2 ^ 1024 \<le> \<bar>f64r x\<bar>"

subsection \<open>Exactness\<close>

lemma round_even_int [simp]: "round_even (of_int m) = m"
  by (simp add: round_even_def)

lemma lead_bit_bounds:
  assumes "0 < x"
  shows "2 powi lead_bit x \<le> x" and "x < 2 powi (lead_bit x + 1)"
proof -
  obtain p q where pq: "quotient_of x = (p, q)" by fastforce
  have q: "0 < q" using quotient_of_denom_pos [OF pq] .
  have x: "x = of_int p / of_int q" using quotient_of_div [OF pq] .
  with assms q have p: "0 < p" by (simp add: zero_less_divide_iff)
  define a b where "a = bitlen (nat p)" and "b = bitlen (nat q)"
  have a: "of_int p < (2 :: rat) ^ a" "(2 :: rat) ^ a \<le> 2 * of_int p"
    and b: "of_int q < (2 :: rat) ^ b" "(2 :: rat) ^ b \<le> 2 * of_int q"
  proof -
    have *: "of_int n < (2 :: rat) ^ bitlen (nat n) \<and> (2 :: rat) ^ bitlen (nat n) \<le> 2 * of_int n" if "0 < n" for n
    proof -
      have "nat n < 2 ^ bitlen (nat n)" by (rule bitlen_upper)
      then have up: "n < 2 ^ bitlen (nat n)" using that by (simp add: nat_less_iff)
      have "2 ^ (bitlen (nat n) - 1) \<le> nat n" by (rule bitlen_lower) (use that in simp)
      moreover have "(2::nat) ^ bitlen (nat n) = 2 * 2 ^ (bitlen (nat n) - 1)"
        using bitlen_pos [of "nat n"] that by simp
      ultimately have "2 ^ bitlen (nat n) \<le> 2 * nat n" by simp
      then have "int (2 ^ bitlen (nat n)) \<le> int (2 * nat n)" by (rule zle_int [THEN iffD2])
      then have low: "2 ^ bitlen (nat n) \<le> 2 * n" using that by simp
      from up low show ?thesis
        by (metis of_int_less_iff of_int_le_iff of_int_power of_int_numeral of_int_mult)
    qed
    from * [OF p] * [OF q] show "of_int p < (2 :: rat) ^ a" "(2 :: rat) ^ a \<le> 2 * of_int p"
      "of_int q < (2 :: rat) ^ b" "(2 :: rat) ^ b \<le> 2 * of_int q" by (simp_all add: a_def b_def)
  qed
  define e where "e = int a - int b"
  have pe: "(2 :: rat) powi e = 2 ^ a / 2 ^ b" by (simp add: e_def power_int_diff)
  have q': "(0::rat) < of_int q" using q by simp
  have up: "x < 2 powi (e + 1)"
  proof -
    have "of_int p * 2 ^ b < 2 ^ a * (2 * of_int q :: rat)"
      using mult_less_le_imp_less [OF a(1) b(2)] p by simp
    then show ?thesis using q' by (simp add: x pe power_int_add field_simps)
  qed
  have low: "2 powi (e - 1) \<le> x"
  proof -
    have "(2 :: rat) ^ a * of_int q \<le> 2 * of_int p * 2 ^ b"
      using mult_mono [OF a(2) less_imp_le [OF b(1)]] p q' by simp
    then show ?thesis using q' by (simp add: x pe power_int_diff field_simps)
  qed
  have l: "lead_bit x = (if 2 powi e \<le> x then e else e - 1)"
    by (simp add: lead_bit_def pq Let_def e_def a_def b_def)
  show "2 powi lead_bit x \<le> x" and "x < 2 powi (lead_bit x + 1)"
    using up low by (simp_all add: l)
qed

lemma lead_bit_less: "0 < x \<Longrightarrow> x < 2 powi k \<Longrightarrow> lead_bit x < k"
proof (rule ccontr)
  assume x: "0 < x" "x < 2 powi k" and "\<not> lead_bit x < k"
  then have "(2 :: rat) powi k \<le> 2 powi lead_bit x" by (intro power_int_increasing) simp_all
  with lead_bit_bounds(1) [OF x(1)] x(2) show False by simp
qed

text \<open>A number with 53 bits and an exponent in range is a float.\<close>

lemma f64r_exact:
  assumes "\<bar>m\<bar> < 2 ^ 53" and "- 1074 \<le> e"
  shows "f64r (of_int m * 2 powi e) = of_int m * 2 powi e"
proof (cases "m = 0")
  case False
  let ?x = "of_int m * 2 powi e :: rat"
  have ax: "0 < \<bar>?x\<bar>" using False by simp
  have "\<bar>?x\<bar> < 2 powi (e + 53)"
  proof -
    have "\<bar>of_int m :: rat\<bar> < 2 ^ 53"
      using assms(1) by (metis of_int_abs of_int_less_iff of_int_numeral of_int_power)
    then have "\<bar>of_int m :: rat\<bar> * 2 powi e < 2 ^ 53 * 2 powi e" by (rule mult_strict_right_mono) simp
    then show ?thesis by (simp add: power_int_add abs_mult mult.commute)
  qed
  then have "lead_bit \<bar>?x\<bar> < e + 53" using ax by (intro lead_bit_less)
  with assms(2) have u: "ulp_exp ?x \<le> e" by (simp add: ulp_exp_def)
  define u where "u = ulp_exp ?x"
  have "?x / 2 powi u = of_int m * 2 powi (e - u)" by (simp add: power_int_diff)
  also have "(2 :: rat) powi (e - u) = of_int (2 ^ nat (e - u))" using u by (simp add: u_def power_int_def)
  finally have "?x / 2 powi u = of_int (m * 2 ^ nat (e - u))" by simp
  then have "of_int (round_even (?x / 2 powi u)) = ?x / 2 powi u" by (simp only: round_even_int)
  then show ?thesis using False by (simp add: f64r_def u_def [symmetric])
qed (simp add: f64r_def)

lemma f64r_int: "\<bar>m\<bar> < 2 ^ 53 \<Longrightarrow> f64r (of_int m) = of_int m"
  using f64r_exact [of m 0] by simp

text \<open>Every result is of that form, so rounding again changes nothing.\<close>

lemma round_even_bounds: "x - 1 / 2 \<le> of_int (round_even x)" "of_int (round_even x) \<le> x + 1 / 2"
proof -
  have "of_int \<lfloor>x\<rfloor> \<le> x" "x < of_int \<lfloor>x\<rfloor> + 1" by linarith+
  then show "x - 1 / 2 \<le> of_int (round_even x)" "of_int (round_even x) \<le> x + 1 / 2"
    by (auto simp: round_even_def Let_def not_less) linarith+
qed

lemma f64r_exact53:
  assumes "\<bar>m\<bar> \<le> 2 ^ 53" and "- 1074 \<le> e"
  shows "f64r (of_int m * 2 powi e) = of_int m * 2 powi e"
proof (cases "\<bar>m\<bar> = 2 ^ 53")
  case True
  then have "m = sgn m * 2 ^ 52 * 2" by (metis abs_mult_sgn mult.assoc mult.commute power_Suc eval_nat_numeral(3))
  then have "of_int m * 2 powi e = (of_int (sgn m * 2 ^ 52) * 2 powi (e + 1) :: rat)"
    by (subst \<open>m = sgn m * 2 ^ 52 * 2\<close>) (simp add: power_int_add)
  moreover have "\<bar>sgn m * 2 ^ 52\<bar> < (2 :: int) ^ 53" by (simp add: abs_mult sgn_if)
  ultimately show ?thesis using f64r_exact [of "sgn m * 2 ^ 52" "e + 1"] assms(2) by simp
qed (use assms in \<open>auto intro: f64r_exact\<close>)

lemma f64r_idem: "f64r (f64r x) = f64r x"
proof (cases "x = 0")
  case False
  let ?u = "ulp_exp x" and ?m = "round_even (x / 2 powi ulp_exp x)"
  have "lead_bit \<bar>x\<bar> + 1 \<le> ?u + 53" by (simp add: ulp_exp_def)
  then have "(2 :: rat) powi (lead_bit \<bar>x\<bar> + 1) \<le> 2 powi (?u + 53)" by (intro power_int_increasing) simp_all
  then have "\<bar>x\<bar> < 2 powi (?u + 53)" using lead_bit_bounds(2) [of "\<bar>x\<bar>"] False by simp
  then have b: "\<bar>x / 2 powi ?u\<bar> < 2 ^ 53" by (simp add: power_int_add abs_div_pos [symmetric] field_simps)
  have near: "\<bar>k\<bar> < c + 1" if "y - 1 / 2 \<le> k" "k \<le> y + 1 / 2" "\<bar>y\<bar> < c" for k y c :: rat
    using that by linarith
  have "\<bar>of_int ?m :: rat\<bar> < of_int (2 ^ 53 + 1)" using near [OF round_even_bounds b] by simp
  then have "\<bar>?m\<bar> < 2 ^ 53 + 1" by (simp only: of_int_abs [symmetric] of_int_less_iff)
  then have "\<bar>?m\<bar> \<le> 2 ^ 53" by (rule zless_add1_eq [THEN iffD1, THEN disjE]) simp_all
  moreover have "- 1074 \<le> ?u" by (simp add: ulp_exp_def)
  ultimately have "f64r (of_int ?m * 2 powi ?u) = of_int ?m * 2 powi ?u" by (rule f64r_exact53)
  then show ?thesis using False by (simp add: f64r_def [of x])
qed (simp add: f64r_def)

end
