(* ===== verification/Duration.thy ===== *)
theory Duration
  imports Decimal Float64
begin

section \<open>Durations as text (package time)\<close>

text \<open>
  \<open>time.ParseDuration\<close>, with which the configuration reads durations, and \<open>Duration.String\<close>, with
  which it prints them. A duration is a number of nanoseconds. The sums are those of Go's \<open>uint64\<close>;
  the fraction of a number is scaled in \<open>float64\<close>.
\<close>

fun leadingInt :: "int \<Rightarrow> string \<Rightarrow> (int \<times> string) option" where
  "leadingInt x [] = Some (x, [])"
| "leadingInt x (c # s) =
     (case digit_val c of
        None \<Rightarrow> Some (x, c # s)
      | Some d \<Rightarrow>
          if x > 2 ^ 63 div 10 then None
          else let y = x * 10 + d in if y > 2 ^ 63 then None else leadingInt y s)"

text \<open>Digits that do not fit any more are skipped; \<open>full\<close> is set from the first of them on.\<close>

fun leadingFraction :: "bool \<Rightarrow> int \<Rightarrow> int \<Rightarrow> string \<Rightarrow> int \<times> int \<times> string" where
  "leadingFraction full x scale [] = (x, scale, [])"
| "leadingFraction full x scale (c # s) =
     (case digit_val c of
        None \<Rightarrow> (x, scale, c # s)
      | Some d \<Rightarrow>
          let y = x * 10 + d
          in if full \<or> x > (2 ^ 63 - 1) div 10 \<or> y > 2 ^ 63 then leadingFraction True x scale s
             else leadingFraction False y (scale * 10) s)"

definition unitMap :: "string \<Rightarrow> int option" where
  "unitMap u =
     map_of [(''ns'', 1), (''us'', 1000), ([CHR 0xC2, CHR 0xB5, CHR ''s''], 1000),
       ([CHR 0xCE, CHR 0xBC, CHR ''s''], 1000), (''ms'', 1000000), (''s'', 1000000000),
       (''m'', 60000000000), (''h'', 3600000000000)] u"

definition unit_char :: "char \<Rightarrow> bool" where
  "unit_char c \<longleftrightarrow> c \<noteq> CHR ''.'' \<and> digit_val c = None"

text \<open>
  \<open>uint64(float64(f) * (float64(unit) / scale))\<close>. The code keeps the scale as a float; it is a power of
  ten up to the 19th, which is exact.
\<close>

definition scaled :: "int \<Rightarrow> int \<Rightarrow> int \<Rightarrow> int" where
  "scaled f u scale = \<lfloor>f64r (f64r (of_int f) * f64r (of_int u / of_int scale))\<rfloor>"

text \<open>The number, the unit and the rest of the text of one part.\<close>

definition split_part :: "string \<Rightarrow> (int \<times> int \<times> int \<times> string \<times> string) option" where
  "split_part s =
     (if s = [] \<or> \<not> (hd s = CHR ''.'' \<or> digit_val (hd s) \<noteq> None) then None
      else case leadingInt 0 s of
             None \<Rightarrow> None
           | Some (v, s1) \<Rightarrow>
               (let pre = length s \<noteq> length s1;
                    (post, f, scale, s2) =
                      (if s1 \<noteq> [] \<and> hd s1 = CHR ''.''
                       then (let (f, scale, s2) = leadingFraction False 0 1 (tl s1)
                             in (length (tl s1) \<noteq> length s2, f, scale, s2))
                       else (False, 0, 1, s1))
                in if \<not> pre \<and> \<not> post then None
                   else Some (v, f, scale, takeWhile unit_char s2, dropWhile unit_char s2)))"

lemma leadingInt_length: "leadingInt x s = Some (v, r) \<Longrightarrow> length r \<le> length s"
proof (induction s arbitrary: x)
  case (Cons c s)
  then show ?case by (auto simp: Let_def split: option.splits if_splits intro: le_SucI)
qed simp

lemma leadingFraction_length: "length (snd (snd (leadingFraction full x scale s))) \<le> length s"
proof (induction s arbitrary: full x scale)
  case (Cons c s)
  show ?case
    by (auto simp: Let_def split: option.splits intro: le_SucI Cons)
qed simp

lemma split_part_length:
  assumes "split_part s = Some (v, f, scale, u, r)" and "u \<noteq> []"
  shows "length r < length s"
proof -
  obtain v' s1 where l: "leadingInt 0 s = Some (v', s1)"
    using assms(1) by (auto simp: split_part_def split: if_splits option.splits)
  define s2 where "s2 = (if s1 \<noteq> [] \<and> hd s1 = CHR ''.'' then snd (snd (leadingFraction False 0 1 (tl s1))) else s1)"
  have ur: "u = takeWhile unit_char s2 \<and> r = dropWhile unit_char s2"
    using assms(1) l by (auto simp: split_part_def s2_def Let_def split: if_splits prod.splits)
  have "length s2 \<le> length s1"
    using leadingFraction_length [of False 0 1 "tl s1"] by (auto simp: s2_def)
  with leadingInt_length [OF l] have "length s2 \<le> length s" by simp
  moreover have "length u + length r = length s2" using ur by (metis length_append takeWhile_dropWhile_id)
  ultimately show ?thesis using assms(2) by (cases u) auto
qed

text \<open>The loop over the parts; \<open>d\<close> is the sum so far.\<close>

function parse_parts :: "int \<Rightarrow> string \<Rightarrow> int option" where
  "parse_parts d s =
     (if s = [] then Some d
      else case split_part s of
             None \<Rightarrow> None
           | Some (v, f, scale, u, r) \<Rightarrow>
               if u = [] then None
               else (case unitMap u of
                       None \<Rightarrow> None
                     | Some un \<Rightarrow>
                         if v > 2 ^ 63 div un then None
                         else (let v1 = v * un;
                                   v2 = (if f > 0 then v1 + scaled f un scale else v1)
                               in if f > 0 \<and> v2 > 2 ^ 63 then None
                                  else (let d1 = (d + v2) mod 2 ^ 64
                                        in if d1 > 2 ^ 63 then None else parse_parts d1 r))))"
  by pat_completeness auto
termination
  by (relation "measure (\<lambda>(d, s). length s)") (auto dest: split_part_length)

declare parse_parts.simps [simp del]

definition ParseDuration :: "string \<Rightarrow> int option" where
  "ParseDuration s0 =
     (let (neg, s) = (case s0 of
            [] \<Rightarrow> (False, [])
          | c # r \<Rightarrow> if c = CHR ''-'' then (True, r) else if c = CHR ''+'' then (False, r) else (False, s0))
      in if s = ''0'' then Some 0
         else if s = [] then None
         else case parse_parts 0 s of
                None \<Rightarrow> None
              | Some d \<Rightarrow>
                  if neg then Some (wrap64 (- wrap64 d))
                  else if d > 2 ^ 63 - 1 then None else Some d)"

subsection \<open>Printing\<close>

text \<open>
  \<open>fmtFrac\<close>: the last \<open>prec\<close> digits of \<open>v\<close> as a fraction without trailing zeros, in front of
  what is there already, and the digits that are left.
\<close>

fun frac_digits :: "nat \<Rightarrow> nat \<Rightarrow> bool \<Rightarrow> string \<Rightarrow> bool \<times> string \<times> nat" where
  "frac_digits 0 v print buf = (print, buf, v)"
| "frac_digits (Suc prec) v print buf =
     (let digit = v mod 10; print = (print \<or> digit \<noteq> 0)
      in frac_digits prec (v div 10) print (if print then char_of (48 + digit) # buf else buf))"

definition fmtFrac :: "nat \<Rightarrow> nat \<Rightarrow> string \<Rightarrow> string \<times> nat" where
  "fmtFrac v prec buf =
     (let (print, buf, v) = frac_digits prec v False buf
      in (if print then CHR ''.'' # buf else buf, v))"

definition Duration_String :: "int \<Rightarrow> string" where
  "Duration_String d =
     (let u = nat \<bar>d\<bar>;
          s = (if u = 0 then ''0s''
               else if u < 1000000000 then
                 (let (prec, suffix) = (if u < 1000 then (0, ''ns'')
                        else if u < 1000000 then (3, [CHR 0xC2, CHR 0xB5, CHR ''s'']) else (6, ''ms''));
                      (buf, n) = fmtFrac u prec suffix
                  in show_nat n @ buf)
               else
                 (let (buf, n) = fmtFrac u 9 ''s'';
                      buf = show_nat (n mod 60) @ buf; n = n div 60
                  in if n > 0
                     then (let buf = show_nat (n mod 60) @ ''m'' @ buf; n = n div 60
                           in if n > 0 then show_nat n @ ''h'' @ buf else buf)
                     else buf))
      in if d < 0 then CHR ''-'' # s else s)"

subsection \<open>Reading back what was printed\<close>

definition stops :: "string \<Rightarrow> bool" where
  "stops s \<longleftrightarrow> s = [] \<or> \<not> is_digit (hd s)"

lemma leadingInt_decimal:
  assumes "list_all is_digit ds" and "decimal n ds \<le> 2 ^ 63" and "stops r"
  shows "leadingInt (int n) (ds @ r) = Some (int (decimal n ds), r)"
  using assms(1,2)
proof (induction ds arbitrary: n)
  case Nil
  from assms(3) show ?case by (cases r) (simp_all add: stops_def digit_val_is_digit)
next
  case (Cons c ds)
  let ?n = "10 * n + (of_char c - 48)"
  have "?n \<le> 2 ^ 63" using Cons.prems(2) decimal_ge [of ?n ds] by simp
  then have "int ?n \<le> int (2 ^ 63)" by (simp only: of_nat_le_iff)
  then have "\<not> int n > 2 ^ 63 div 10" "\<not> int n * 10 + int (of_char c - 48) > 2 ^ 63" by simp_all
  moreover have "int n * 10 + int (of_char c - 48) = int ?n" by simp
  ultimately show ?case
    using Cons.prems Cons.IH [of ?n] by (simp add: digit_val_decimal Let_def mult.commute [of "int n"])
qed

lemma leadingFraction_decimal:
  assumes "list_all is_digit ds" and "decimal n ds < 10 ^ 18" and "stops r"
  shows "leadingFraction False (int n) sc (ds @ r) = (int (decimal n ds), sc * 10 ^ length ds, r)"
  using assms(1,2)
proof (induction ds arbitrary: n sc)
  case Nil
  from assms(3) show ?case by (cases r) (simp_all add: stops_def digit_val_is_digit)
next
  case (Cons c ds)
  let ?n = "10 * n + (of_char c - 48)"
  have "?n < 10 ^ 18" using Cons.prems(2) decimal_ge [of ?n ds] by simp
  then have "int ?n < int (10 ^ 18)" by (simp only: of_nat_less_iff)
  then have "\<not> int n > (2 ^ 63 - 1) div 10" "\<not> int n * 10 + int (of_char c - 48) > 2 ^ 63" by simp_all
  moreover have "int n * 10 + int (of_char c - 48) = int ?n" by simp
  ultimately show ?case
    using Cons.prems Cons.IH [of ?n "sc * 10"] by (simp add: digit_val_decimal Let_def mult.commute [of "int n"] mult.assoc)
qed

text \<open>The fraction that \<open>fmtFrac\<close> prints.\<close>

lemma frac_digits_all:
  "\<exists>ds. frac_digits prec v True buf = (True, ds @ buf, v div 10 ^ prec) \<and> list_all is_digit ds \<and>
     length ds = prec \<and> decimal 0 ds = v mod 10 ^ prec"
proof (induction prec arbitrary: v buf)
  case (Suc prec)
  let ?c = "char_of (48 + v mod 10) :: char"
  obtain ds where ds: "frac_digits prec (v div 10) True (?c # buf) = (True, ds @ ?c # buf, v div 10 div 10 ^ prec)"
    "list_all is_digit ds" "length ds = prec" "decimal 0 ds = v div 10 mod 10 ^ prec"
    using Suc.IH by blast
  have "v mod 10 ^ Suc prec = 10 * (v div 10 mod 10 ^ prec) + v mod 10" by (simp add: mod_mult2_eq)
  then show ?case
    using ds by (intro exI [of _ "ds @ [?c]"]) (simp add: Let_def decimal_append div_mult2_eq)
qed simp

lemma frac_digits_trim:
  "if v mod 10 ^ prec = 0 then frac_digits prec v False buf = (False, buf, v div 10 ^ prec)
   else \<exists>ds. frac_digits prec v False buf = (True, ds @ buf, v div 10 ^ prec) \<and> list_all is_digit ds \<and>
     length ds \<le> prec \<and> decimal 0 ds * 10 ^ (prec - length ds) = v mod 10 ^ prec"
proof (induction prec arbitrary: v buf)
  case (Suc prec)
  have split: "v mod 10 ^ Suc prec = 10 * (v div 10 mod 10 ^ prec) + v mod 10" by (simp add: mod_mult2_eq)
  have dv: "v div 10 ^ Suc prec = v div 10 div 10 ^ prec" by (simp add: div_mult2_eq)
  show ?case
  proof (cases "v mod 10 = 0")
    case True
    have f: "frac_digits (Suc prec) v False buf = frac_digits prec (v div 10) False buf"
      using True by (simp add: Let_def)
    have m: "v mod 10 ^ Suc prec = 10 * (v div 10 mod 10 ^ prec)" using split True by simp
    show ?thesis
    proof (cases "v div 10 mod 10 ^ prec = 0")
      case True
      with Suc.IH [of "v div 10" buf] show ?thesis by (simp only: f m dv if_P mult_0_right simp_thms)
    next
      case False
      with Suc.IH [of "v div 10" buf] obtain ds where
        ds: "frac_digits prec (v div 10) False buf = (True, ds @ buf, v div 10 div 10 ^ prec)" "list_all is_digit ds"
          "length ds \<le> prec" "decimal 0 ds * 10 ^ (prec - length ds) = v div 10 mod 10 ^ prec" by auto
      then have "decimal 0 ds * 10 ^ (Suc prec - length ds) = v mod 10 ^ Suc prec"
        unfolding m by (simp add: Suc_diff_le)
      with ds False show ?thesis unfolding f dv by (metis le_SucI m mult_eq_0_iff zero_neq_numeral)
    qed
  next
    case False
    let ?c = "char_of (48 + v mod 10) :: char"
    obtain ds where ds: "frac_digits prec (v div 10) True (?c # buf) = (True, ds @ ?c # buf, v div 10 div 10 ^ prec)"
      "list_all is_digit ds" "length ds = prec" "decimal 0 ds = v div 10 mod 10 ^ prec"
      using frac_digits_all by blast
    have "frac_digits (Suc prec) v False buf = (True, (ds @ [?c]) @ buf, v div 10 ^ Suc prec)"
      using False ds(1) unfolding dv by (simp add: Let_def)
    moreover have "decimal 0 (ds @ [?c]) * 10 ^ (Suc prec - length (ds @ [?c])) = v mod 10 ^ Suc prec"
      unfolding split using ds by (simp add: decimal_append)
    moreover have "v mod 10 ^ Suc prec \<noteq> 0" unfolding split using False by simp
    moreover have "list_all is_digit (ds @ [?c])" "length (ds @ [?c]) \<le> Suc prec" using ds by simp_all
    ultimately show ?thesis by metis
  qed
qed simp

definition frac_ok :: "string \<Rightarrow> nat \<Rightarrow> nat \<Rightarrow> bool" where
  "frac_ok fr prec m \<longleftrightarrow> fr = [] \<and> m = 0 \<or>
     (\<exists>ds. fr = CHR ''.'' # ds \<and> list_all is_digit ds \<and> ds \<noteq> [] \<and> length ds \<le> prec \<and>
        decimal 0 ds * 10 ^ (prec - length ds) = m \<and> 0 < m)"

lemma fmtFrac_ok:
  "\<exists>fr. fmtFrac v prec buf = (fr @ buf, v div 10 ^ prec) \<and> frac_ok fr prec (v mod 10 ^ prec)"
proof (cases "v mod 10 ^ prec = 0")
  case True
  with frac_digits_trim [of v prec buf] have "frac_digits prec v False buf = (False, buf, v div 10 ^ prec)" by simp
  with True show ?thesis by (simp add: fmtFrac_def frac_ok_def)
next
  case False
  with frac_digits_trim [of v prec buf] obtain ds where
    ds: "frac_digits prec v False buf = (True, ds @ buf, v div 10 ^ prec)" "list_all is_digit ds"
      "length ds \<le> prec" "decimal 0 ds * 10 ^ (prec - length ds) = v mod 10 ^ prec" by auto
  moreover from ds(4) False have "ds \<noteq> []" by auto
  ultimately show ?thesis
    using False by (intro exI [of _ "CHR ''.'' # ds"]) (auto simp: fmtFrac_def frac_ok_def)
qed

lemma scaled_exact:
  assumes "list_all is_digit ds" and "length ds \<le> prec" and "prec \<le> 9"
  shows "scaled (int (decimal 0 ds)) (10 ^ prec) (10 ^ length ds) = int (decimal 0 ds * 10 ^ (prec - length ds))"
proof -
  let ?f = "int (decimal 0 ds)" and ?k = "prec - length ds"
  have "decimal 0 ds * 10 ^ ?k < 10 ^ length ds * 10 ^ ?k"
    using decimal_less [OF assms(1)] by simp
  also have "\<dots> = 10 ^ prec" using assms(2) by (simp flip: power_add)
  also have "\<dots> \<le> (10 :: nat) ^ 9" using assms(3) by (intro power_increasing) simp_all
  finally have "int (decimal 0 ds * 10 ^ ?k) < int (10 ^ 9)" by (simp only: of_nat_less_iff)
  then have p: "?f * 10 ^ ?k < 10 ^ 9" by simp
  have k: "(10 :: int) ^ ?k \<le> 10 ^ 9" using assms(3) by (intro power_increasing) simp_all
  have f: "?f < 10 ^ 9"
    using p mult_left_mono [of 1 "10 ^ ?k" ?f] by simp
  have "f64r (of_int (10 ^ prec) / of_int (10 ^ length ds)) = (of_int (10 ^ ?k) :: rat)"
  proof -
    have "(of_int (10 ^ prec) / of_int (10 ^ length ds) :: rat) = of_int (10 ^ ?k)"
      using assms(2) by (simp only: of_int_power of_int_numeral power_diff [of "10 :: rat"])
    moreover have "f64r (of_int (10 ^ ?k)) = of_int (10 ^ ?k)" using k by (intro f64r_int) simp
    ultimately show ?thesis by (simp only:)
  qed
  moreover have "f64r (of_int ?f) = of_int ?f" using f by (intro f64r_int) simp
  moreover have "f64r (of_int (?f * 10 ^ ?k)) = of_int (?f * 10 ^ ?k)" using p by (intro f64r_int) simp
  ultimately have "scaled ?f (10 ^ prec) (10 ^ length ds) = ?f * 10 ^ ?k"
    unfolding scaled_def by (simp only: of_int_mult [symmetric] floor_of_int)
  then show ?thesis by simp
qed

lemma unit_char_digit: "is_digit c \<Longrightarrow> \<not> unit_char c"
  by (simp add: unit_char_def digit_val_decimal)

lemma unit_char_stops: "list_all unit_char u \<Longrightarrow> u \<noteq> [] \<Longrightarrow> stops (u @ r)"
  using unit_char_digit by (cases u) (auto simp: stops_def)

lemma unit_span:
  assumes "list_all unit_char u" and "r = [] \<or> is_digit (hd r)"
  shows "takeWhile unit_char (u @ r) = u" and "dropWhile unit_char (u @ r) = r"
  using assms unit_char_digit [of "hd r"]
  by (cases r; auto simp: list_all_iff takeWhile_append2 dropWhile_append2)+

lemma split_part_text:
  assumes "list_all is_digit ds" and "ds \<noteq> []" and "decimal 0 ds \<le> 2 ^ 63" and "frac_ok fr prec m" and "prec \<le> 9"
    and "list_all unit_char u" and "u \<noteq> []" and "r = [] \<or> is_digit (hd r)"
  shows "\<exists>f scale. split_part (ds @ fr @ u @ r) = Some (int (decimal 0 ds), f, scale, u, r) \<and>
    (m = 0 \<and> f = 0 \<or> fr \<noteq> [] \<and> 0 < f \<and> scaled f (10 ^ prec) scale = int m)"
proof -
  have st: "stops (u @ r)" using assms(6,7) by (rule unit_char_stops)
  have "\<not> is_digit (CHR ''.'')" by (simp add: is_digit_def)
  then have "stops (fr @ u @ r)" using assms(4) st by (auto simp: frac_ok_def stops_def)
  from leadingInt_decimal [OF assms(1,3) this] have l: "leadingInt 0 (ds @ fr @ u @ r) = Some (int (decimal 0 ds), fr @ u @ r)"
    by simp
  have hd: "digit_val (hd (ds @ fr @ u @ r)) \<noteq> None"
    using assms(1,2) digit_val_decimal by (cases ds) auto
  note span = unit_span [OF assms(6,8)]
  have "hd (u @ r) \<noteq> CHR ''.''" using assms(6,7) by (cases u) (auto simp: unit_char_def)
  note u = this
  from assms(4) consider (none) "fr = []" "m = 0"
    | (some) fs where "fr = CHR ''.'' # fs" "list_all is_digit fs" "fs \<noteq> []" "length fs \<le> prec"
        "decimal 0 fs * 10 ^ (prec - length fs) = m" "0 < m"
    by (auto simp: frac_ok_def)
  then show ?thesis
  proof cases
    case none
    with l hd u span assms(2,7) show ?thesis by (simp add: split_part_def)
  next
    case some
    have "decimal 0 fs < 10 ^ length fs" using some(2) by (rule decimal_less)
    also have "\<dots> \<le> (10 :: nat) ^ 9" using some(4) assms(5) by (intro power_increasing) simp_all
    finally have "decimal 0 fs < 10 ^ 18" by simp
    from leadingFraction_decimal [OF some(2) this st, of 1]
    have "leadingFraction False 0 1 (fs @ u @ r) = (int (decimal 0 fs), 10 ^ length fs, u @ r)" by simp
    moreover have "0 < decimal 0 fs" using some(5,6) by (cases "decimal 0 fs") auto
    moreover have "scaled (int (decimal 0 fs)) (10 ^ prec) (10 ^ length fs) = int m"
      using scaled_exact [OF some(2,4) assms(5)] some(5) by simp
    ultimately show ?thesis using l hd span some(1,3) assms(2) by (simp add: split_part_def)
  qed
qed

lemma parse_part:
  assumes "frac_ok fr prec m" and "prec \<le> 9" and "fr = [] \<or> un = 10 ^ prec" and "unitMap u = Some un" and "0 < un"
    and "list_all unit_char u" and "u \<noteq> []" and "r = [] \<or> is_digit (hd r)"
    and "0 \<le> d" and "d + int n * un + int m \<le> 2 ^ 63"
  shows "parse_parts d (show_nat n @ fr @ u @ r) = parse_parts (d + int n * un + int m) r"
proof -
  have v: "int n * un \<le> 2 ^ 63" "0 \<le> int n * un" using assms(5,9,10) by simp_all
  then have n: "int n \<le> 2 ^ 63 div un" using assms(5) by (simp add: pos_le_divide_eq zdiv_mono1 div_le_mono)
      (metis assms(5) nonzero_mult_div_cancel_right order_less_irrefl zdiv_mono1)
  have "int n * 1 \<le> int n * un" using assms(5) by (intro mult_left_mono) simp_all
  with v have "int n \<le> int (2 ^ 63)" by simp
  then have "decimal 0 (show_nat n) \<le> 2 ^ 63" by (simp only: decimal_show_nat of_nat_le_iff)
  from split_part_text [OF digits_show_nat show_nat_nonempty this assms(1,2,6,7,8)]
  obtain f scale where sp: "split_part (show_nat n @ fr @ u @ r) = Some (int n, f, scale, u, r)"
    and f: "m = 0 \<and> f = 0 \<or> fr \<noteq> [] \<and> 0 < f \<and> scaled f (10 ^ prec) scale = int m"
    by (auto simp: decimal_show_nat)
  have v2: "(if f > 0 then int n * un + scaled f un scale else int n * un) = int n * un + int m"
    using f assms(3) by auto
  have "(d + (int n * un + int m)) mod 2 ^ 64 = d + int n * un + int m"
    using assms(9,10) v(2) by (subst mod_pos_pos_trivial) simp_all
  moreover have "\<not> int n * un + int m > 2 ^ 63" using assms(9,10) by simp
  ultimately show ?thesis
    using sp assms(4,7,10) n v2 by (subst parse_parts.simps) (simp add: Let_def)
qed

lemma parse_parts_nil [simp]: "parse_parts d [] = Some d"
  by (simp add: parse_parts.simps)

lemma frac_ok_empty: "frac_ok [] prec 0"
  by (simp add: frac_ok_def)

lemma units:
  "unitMap ''ns'' = Some 1" "unitMap [CHR 0xC2, CHR 0xB5, CHR ''s''] = Some 1000" "unitMap ''ms'' = Some 1000000"
  "unitMap ''s'' = Some 1000000000" "unitMap ''m'' = Some 60000000000" "unitMap ''h'' = Some 3600000000000"
  "unit_char CHR ''n''" "unit_char CHR ''s''" "unit_char CHR ''m''" "unit_char CHR ''h''"
  "unit_char CHR 0xC2" "unit_char CHR 0xB5"
  by (simp_all add: unitMap_def unit_char_def digit_val_def)

text \<open>One number with its fraction and the unit that \<open>prec\<close> belongs to.\<close>

lemma parse_frac:
  assumes "unitMap u = Some (10 ^ prec)" and "prec \<le> 9" and "list_all unit_char u" and "u \<noteq> []"
    and "0 \<le> d" and "d + int v \<le> 2 ^ 63"
  shows "\<exists>buf. fmtFrac v prec u = (buf, v div 10 ^ prec) \<and>
    parse_parts d (show_nat (v div 10 ^ prec) @ buf) = Some (d + int v)"
proof -
  obtain fr where f: "fmtFrac v prec u = (fr @ u, v div 10 ^ prec)" "frac_ok fr prec (v mod 10 ^ prec)"
    using fmtFrac_ok by blast
  have "int (v div 10 ^ prec * 10 ^ prec + v mod 10 ^ prec) = int v" by (simp only: div_mult_mod_eq)
  then have v: "int (v div 10 ^ prec) * 10 ^ prec + int (v mod 10 ^ prec) = int v" by simp
  have "parse_parts d (show_nat (v div 10 ^ prec) @ fr @ u @ []) =
      parse_parts (d + int (v div 10 ^ prec) * 10 ^ prec + int (v mod 10 ^ prec)) []"
    by (rule parse_part [OF f(2) assms(2) disjI2 [OF HOL.refl] assms(1) _ assms(3,4) _ assms(5)])
      (use assms(6) v in \<open>simp_all add: add.assoc\<close>)
  with f(1) v show ?thesis by (simp add: add.assoc)
qed

lemma hd_show_nat_digit: "is_digit (hd (show_nat n @ s))"
  using digits_show_nat [of n] by (cases "show_nat n") auto

text \<open>A printed absolute value: it begins with a digit, is not just a zero, and is read back.\<close>

lemma parse_printed:
  assumes "int u \<le> 2 ^ 63"
  shows "\<exists>s. Duration_String (int u) = s \<and> Duration_String (- int u) = (if u = 0 then s else CHR ''-'' # s) \<and>
    s \<noteq> ''0'' \<and> s \<noteq> [] \<and> is_digit (hd s) \<and> parse_parts 0 s = Some (int u)"
proof -
  consider (zero) "u = 0" | (small) "0 < u" "u < 1000000000" | (big) "1000000000 \<le> u" by linarith
  then show ?thesis
  proof cases
    case zero
    have "parse_parts 0 (show_nat 0 @ [] @ ''s'' @ []) = Some 0"
      by (subst parse_part [OF frac_ok_empty [of 0], where un = 1000000000 and d = 0]) (simp_all add: units)
    moreover have "show_nat 0 = ''0''" by code_simp
    ultimately show ?thesis using zero by (simp add: Duration_String_def is_digit_def)
  next
    case small
    define prec :: nat where "prec = (if u < 1000 then 0 else if u < 1000000 then 3 else 6)"
    define suffix where "suffix = (if u < 1000 then ''ns'' else if u < 1000000 then [CHR 0xC2, CHR 0xB5, CHR ''s''] else ''ms'')"
    have "unitMap suffix = Some (10 ^ prec)" "prec \<le> 9" "list_all unit_char suffix" "suffix \<noteq> []"
      by (simp_all add: suffix_def prec_def units)
    from parse_frac [OF this, of 0 u] assms obtain buf where b: "fmtFrac u prec suffix = (buf, u div 10 ^ prec)"
      "parse_parts 0 (show_nat (u div 10 ^ prec) @ buf) = Some (int u)" by auto
    have "Duration_String (int u) = show_nat (u div 10 ^ prec) @ buf \<and>
        Duration_String (- int u) = CHR ''-'' # show_nat (u div 10 ^ prec) @ buf"
      using small b(1) by (auto simp: Duration_String_def Let_def prec_def suffix_def split: if_splits)
    moreover have "show_nat (u div 10 ^ prec) @ buf \<noteq> ''0''"
    proof
      assume "show_nat (u div 10 ^ prec) @ buf = ''0''"
      moreover have "parse_parts 0 ''0'' = None"
        by (simp add: parse_parts.simps split_part_def digit_val_def unit_char_def)
      ultimately show False using b(2) by simp
    qed
    ultimately show ?thesis using b(2) small(1) hd_show_nat_digit by auto
  next
    case big
    obtain fr where f: "fmtFrac u 9 ''s'' = (fr @ ''s'', u div 10 ^ 9)" "frac_ok fr 9 (u mod 10 ^ 9)"
      using fmtFrac_ok by blast
    define n where "n = u div 10 ^ 9"
    define t1 where "t1 = show_nat (n mod 60) @ fr @ ''s''"
    define t2 where "t2 = show_nat (n div 60 mod 60) @ ''m'' @ t1"
    define t3 where "t3 = show_nat (n div 60 div 60) @ ''h'' @ t2"
    have "int (n * 10 ^ 9 + u mod 10 ^ 9) = int u" by (simp only: n_def div_mult_mod_eq)
    then have u: "int u = int n * 1000000000 + int (u mod 10 ^ 9)" by simp
    have "int (n div 60 div 60 * 60 + n div 60 mod 60) = int (n div 60)" "int (n div 60 * 60 + n mod 60) = int n"
      by (simp_all only: div_mult_mod_eq)
    then have n: "int n = int (n div 60 div 60) * 3600 + int (n div 60 mod 60) * 60 + int (n mod 60)"
      unfolding of_nat_add of_nat_mult by simp
    have p1: "parse_parts d t1 = Some (d + int (n mod 60) * 1000000000 + int (u mod 10 ^ 9))"
      if "0 \<le> d" "d + int (n mod 60) * 1000000000 + int (u mod 10 ^ 9) \<le> 2 ^ 63" for d
      using parse_part [OF f(2), where un = 1000000000 and u = "''s''" and r = "[]" and d = d and n = "n mod 60"] that
      by (simp add: t1_def units)
    have p2: "parse_parts d t2 = Some (d + int (n div 60 mod 60) * 60000000000 + int (n mod 60) * 1000000000 + int (u mod 10 ^ 9))"
      if "0 \<le> d" "d + int (n div 60 mod 60) * 60000000000 + int (n mod 60) * 1000000000 + int (u mod 10 ^ 9) \<le> 2 ^ 63" for d
      using parse_part [OF frac_ok_empty [of 0], where un = 60000000000 and u = "''m''" and r = t1 and d = d and n = "n div 60 mod 60"]
        p1 [of "d + int (n div 60 mod 60) * 60000000000"] that hd_show_nat_digit [of "n mod 60"]
      by (simp add: t2_def units t1_def)
    have p3: "parse_parts 0 t3 = Some (int u)"
      using parse_part [OF frac_ok_empty [of 0], where un = 3600000000000 and u = "''h''" and r = t2 and d = 0 and n = "n div 60 div 60"]
        p2 [of "int (n div 60 div 60) * 3600000000000"] assms u n hd_show_nat_digit [of "n div 60 mod 60"]
      by (simp add: t3_def units t2_def)
    define s where "s = (if n div 60 = 0 then t1 else if n div 60 div 60 = 0 then t2 else t3)"
    have "parse_parts 0 s = Some (int u)"
      using p1 [of 0] p2 [of 0] p3 assms u n by (auto simp: s_def)
    moreover have "is_digit (hd s)" "s \<noteq> []" "2 \<le> length s"
      using hd_show_nat_digit by (auto simp: s_def t1_def t2_def t3_def Suc_le_eq)
    moreover have "Duration_String (int u) = s \<and> Duration_String (- int u) = CHR ''-'' # s"
      using big f(1) unfolding n_def [symmetric] by (auto simp: Duration_String_def Let_def s_def t1_def t2_def t3_def)
    ultimately show ?thesis using big by auto
  qed
qed

text \<open>Every 64-bit duration is read back as it was printed.\<close>

lemma ParseDuration_String:
  assumes "int64_range d"
  shows "ParseDuration (Duration_String d) = Some d"
proof -
  have "int (nat \<bar>d\<bar>) \<le> 2 ^ 63" using assms by (auto simp: int64_range_def)
  from parse_printed [OF this] obtain s where
    s: "Duration_String \<bar>d\<bar> = s" "Duration_String (- \<bar>d\<bar>) = (if d = 0 then s else CHR ''-'' # s)"
      "s \<noteq> ''0''" "s \<noteq> []" "is_digit (hd s)" "parse_parts 0 s = Some \<bar>d\<bar>" by auto
  have "hd s \<noteq> CHR ''-''" "hd s \<noteq> CHR ''+''" using s(5) by (auto simp: is_digit_def)
  then have sign: "(case s of [] \<Rightarrow> (False, []) | c # r \<Rightarrow> if c = CHR ''-'' then (True, r)
      else if c = CHR ''+'' then (False, r) else (False, s)) = (False, s)"
    using s(4) by (cases s) auto
  show ?thesis
  proof (cases "d < 0")
    case True
    then have "Duration_String d = CHR ''-'' # s" using s(2) by simp
    moreover have "wrap64 (- wrap64 \<bar>d\<bar>) = d"
    proof (cases "d = - (2 ^ 63)")
      case False
      with assms True have "int64_range (- d)" "int64_range d" by (auto simp: int64_range_def)
      with True show ?thesis by (simp add: wrap64_id)
    qed (simp add: wrap64_def)
    ultimately show ?thesis using s by (simp add: ParseDuration_def)
  next
    case False
    then show ?thesis using s(1,3,4,6) assms sign by (simp add: ParseDuration_def int64_range_def)
  qed
qed

interpretation duration_text: text_form Duration_String ParseDuration int64_range
  by unfold_locales (simp add: ParseDuration_String, simp add: ParseDuration_def)

end
