(* ===== verification/Config.thy ===== *)
theory Config
  imports Task Duration
begin

section \<open>Configuration (internal/config/config.go)\<close>

text \<open>
  \<open>Config\<close> and its loading from the environment, which is a partial map from names to
  values. Strings are their bytes; \<open>splitCSV\<close> ranges over the runes of a valid UTF-8
  string, in which the byte of a comma occurs only as a comma, so that it appends the same bytes.
\<close>

record config =
  DatabaseURL :: string
  RedisURL :: string
  HTTPAddr :: string
  WorkerConcurrency :: int
  HeartbeatInterval :: int
  HeartbeatTTL :: int
  CoordinatorSweepInterval :: int
  RetryBaseDelay :: int
  RetryMaxDelay :: int
  TaskTypes :: "string list"
  LeaseTTL :: int

type_synonym env_vars = "string \<rightharpoonup> string"

definition getEnv :: "env_vars \<Rightarrow> string \<Rightarrow> string \<Rightarrow> string" where
  "getEnv ev key dflt =
     (case ev key of Some v \<Rightarrow> if v \<noteq> '''' then v else dflt | None \<Rightarrow> dflt)"

text \<open>\<open>strconv.Atoi\<close>: an optional sign, at least one digit, and a value that fits.\<close>

definition Atoi :: "string \<Rightarrow> int option" where
  "Atoi s =
     (let (neg, ds) = (case s of
            [] \<Rightarrow> (False, [])
          | c # r \<Rightarrow> if c = CHR ''-'' then (True, r) else if c = CHR ''+'' then (False, r) else (False, s))
      in if ds = [] then None
         else case digits_val 0 ds of
                None \<Rightarrow> None
              | Some n \<Rightarrow> let v = (if neg then - n else n) in if int64_range v then Some v else None)"

definition getEnvInt :: "env_vars \<Rightarrow> string \<Rightarrow> int \<Rightarrow> int" where
  "getEnvInt ev key dflt =
     (case ev key of
        Some v \<Rightarrow> if v \<noteq> '''' then (case Atoi v of Some n \<Rightarrow> n | None \<Rightarrow> dflt) else dflt
      | None \<Rightarrow> dflt)"

definition getEnvDuration :: "env_vars \<Rightarrow> string \<Rightarrow> int \<Rightarrow> int" where
  "getEnvDuration ev key dflt =
     (case ev key of
        Some v \<Rightarrow> if v \<noteq> '''' then (case ParseDuration v of Some d \<Rightarrow> d | None \<Rightarrow> dflt) else dflt
      | None \<Rightarrow> dflt)"

text \<open>The loop of \<open>splitCSV\<close> with its two variables, and what follows it.\<close>

fun split_loop :: "string \<Rightarrow> string list \<Rightarrow> string \<Rightarrow> string list \<times> string" where
  "split_loop [] out cur = (out, cur)"
| "split_loop (r # s) out cur =
     (if r = CHR '','' then (if cur \<noteq> '''' then split_loop s (out @ [cur]) '''' else split_loop s out cur)
      else split_loop s out (cur @ [r]))"

definition splitCSV :: "string \<Rightarrow> string list" where
  "splitCSV s =
     (if s = '''' then []
      else case split_loop s [] '''' of (out, cur) \<Rightarrow> if cur \<noteq> '''' then out @ [cur] else out)"

abbreviation second :: int where "second \<equiv> 1000000000"
abbreviation millisecond :: int where "millisecond \<equiv> 1000000"

definition Load :: "env_vars \<Rightarrow> config" where
  "Load ev =
     \<lparr>DatabaseURL = getEnv ev ''DATABASE_URL'' ''host=localhost port=5432 user=postgres dbname=taskq sslmode=disable'',
      RedisURL = getEnv ev ''REDIS_URL'' ''redis://localhost:6379/0'',
      HTTPAddr = getEnv ev ''HTTP_ADDR'' '':8080'',
      WorkerConcurrency = getEnvInt ev ''WORKER_CONCURRENCY'' 4,
      HeartbeatInterval = getEnvDuration ev ''HEARTBEAT_INTERVAL'' (3 * second),
      HeartbeatTTL = getEnvDuration ev ''HEARTBEAT_TTL'' (9 * second),
      CoordinatorSweepInterval = getEnvDuration ev ''COORDINATOR_SWEEP_INTERVAL'' second,
      RetryBaseDelay = getEnvDuration ev ''RETRY_BASE_DELAY'' (500 * millisecond),
      RetryMaxDelay = getEnvDuration ev ''RETRY_MAX_DELAY'' (60 * second),
      TaskTypes = splitCSV (case ev ''TASK_TYPES'' of Some v \<Rightarrow> v | None \<Rightarrow> ''''),
      LeaseTTL = getEnvDuration ev ''LEASE_TTL'' (60 * second)\<rparr>"

text \<open>The summary that the API server logs.\<close>

definition Config_String :: "config \<Rightarrow> string" where
  "Config_String c =
     ''http='' @ HTTPAddr c @ '' workers='' @ show_int (WorkerConcurrency c) @
     '' heartbeat='' @ Duration_String (HeartbeatInterval c) @ ''/'' @ Duration_String (HeartbeatTTL c) @
     '' sweep='' @ Duration_String (CoordinatorSweepInterval c) @ '' lease='' @ Duration_String (LeaseTTL c)"

subsection \<open>Splitting\<close>

text \<open>The fields between commas, empty ones included.\<close>

fun csv_fields :: "string \<Rightarrow> string list" where
  "csv_fields [] = [[]]"
| "csv_fields (c # s) =
     (if c = CHR '','' then [] # csv_fields s else (c # hd (csv_fields s)) # tl (csv_fields s))"

lemma csv_fields_nonempty [simp]: "csv_fields s \<noteq> []"
  by (cases s) simp_all

lemma split_loop_fields:
  "split_loop s out cur = (out', cur') \<Longrightarrow>
   (if cur' \<noteq> '''' then out' @ [cur'] else out') =
     out @ filter (\<lambda>f. f \<noteq> []) ((cur @ hd (csv_fields s)) # tl (csv_fields s))"
proof (induction s arbitrary: out cur)
  case (Cons c s)
  have f: "hd (csv_fields s) # tl (csv_fields s) = csv_fields s" by simp
  show ?case
  proof (cases "c = CHR '',''")
    case True
    with Cons.prems have "split_loop s (if cur \<noteq> '''' then out @ [cur] else out) '''' = (out', cur')"
      by (simp split: if_splits)
    from Cons.IH [OF this] True show ?thesis by (simp add: f split: if_splits)
  next
    case False
    with Cons.prems Cons.IH [of out "cur @ [c]"] show ?thesis by simp
  qed
qed simp

lemma csv_fields_no_comma: "f \<in> set (csv_fields s) \<Longrightarrow> CHR '','' \<notin> set f"
proof (induction s arbitrary: f)
  case (Cons c s)
  have "hd (csv_fields s) \<in> set (csv_fields s)" by simp
  moreover have "set (tl (csv_fields s)) \<subseteq> set (csv_fields s)" by (cases "csv_fields s") auto
  ultimately show ?case using Cons by (auto split: if_splits)
qed simp

text \<open>
  \<open>splitCSV\<close> returns the fields between commas in their order without the empty ones;
  no field it returns is empty or contains a comma.
\<close>

lemma splitCSV_fields:
  "splitCSV s = filter (\<lambda>f. f \<noteq> []) (csv_fields s) \<and>
   list_all (\<lambda>f. f \<noteq> [] \<and> CHR '','' \<notin> set f) (splitCSV s)"
proof -
  obtain out cur where l: "split_loop s [] '''' = (out, cur)" by fastforce
  have "splitCSV s = filter (\<lambda>f. f \<noteq> []) (csv_fields s)"
  proof (cases "s = []")
    case False
    have "[] @ hd (csv_fields s) # tl (csv_fields s) = csv_fields s" by simp
    with False split_loop_fields [OF l] show ?thesis unfolding splitCSV_def l by simp
  qed (simp add: splitCSV_def)
  moreover have "list_all (\<lambda>f. f \<noteq> [] \<and> CHR '','' \<notin> set f) (filter (\<lambda>f. f \<noteq> []) (csv_fields s))"
    using csv_fields_no_comma [of _ s] by (auto simp: list_all_iff)
  ultimately show ?thesis by simp
qed

text \<open>
  With no variables set, the defaults of \<open>Load\<close> give a positive concurrency, a heartbeat that
  is refreshed three times within its TTL, and a base delay below the maximum delay.
\<close>

lemma Load_defaults:
  "let c = Load (\<lambda>_. None)
   in 0 < WorkerConcurrency c \<and> 3 * HeartbeatInterval c = HeartbeatTTL c \<and>
      0 < RetryBaseDelay c \<and> RetryBaseDelay c \<le> RetryMaxDelay c \<and> RetryMaxDelay c < 2 ^ 53 \<and>
      TaskTypes c = []"
  by (simp add: Load_def getEnvInt_def getEnvDuration_def splitCSV_def)

subsection \<open>Writing a configuration into the environment\<close>

fun joined :: "string list \<Rightarrow> string" where
  "joined [] = []"
| "joined [f] = f"
| "joined (f # g # fs) = f @ CHR '','' # joined (g # fs)"

lemma csv_fields_append:
  "CHR '','' \<notin> set f \<Longrightarrow> csv_fields (f @ s) = (f @ hd (csv_fields s)) # tl (csv_fields s)"
  by (induction f) auto

lemma csv_fields_joined:
  "fs \<noteq> [] \<Longrightarrow> list_all (\<lambda>f. CHR '','' \<notin> set f) fs \<Longrightarrow> csv_fields (joined fs) = fs"
proof (induction fs rule: joined.induct)
  case (2 f)
  then show ?case using csv_fields_append [of f "[]"] by simp
next
  case (3 f g fs)
  then show ?case by (simp add: csv_fields_append)
qed simp

lemma splitCSV_joined:
  assumes "list_all (\<lambda>f. f \<noteq> [] \<and> CHR '','' \<notin> set f) fs"
  shows "splitCSV (joined fs) = fs"
proof (cases "fs = []")
  case False
  with assms have "csv_fields (joined fs) = fs" by (intro csv_fields_joined) (auto simp: list_all_iff)
  moreover have "filter (\<lambda>f. f \<noteq> []) fs = fs" using assms by (auto simp: list_all_iff intro: filter_True)
  ultimately show ?thesis using splitCSV_fields [of "joined fs"] by simp
qed (simp add: splitCSV_def)

lemma digits_val_decimal: "list_all is_digit ds \<Longrightarrow> digits_val (int n) ds = Some (int (decimal n ds))"
proof (induction ds arbitrary: n)
  case (Cons c ds)
  then have "digits_val (int (10 * n + (of_char c - 48))) ds = Some (int (decimal (10 * n + (of_char c - 48)) ds))"
    by (intro Cons.IH) simp
  with Cons.prems show ?case by (simp add: digit_val_decimal mult.commute [of "int n"])
qed simp

lemma Atoi_show_int: "int64_range x \<Longrightarrow> Atoi (show_int x) = Some x"
proof -
  assume x: "int64_range x"
  have val: "digits_val 0 (show_nat n) = Some (int n)" for n
    using digits_val_decimal [OF digits_show_nat, of 0 n] by (simp add: decimal_show_nat)
  have hd: "hd (show_nat n) \<noteq> CHR ''-'' \<and> hd (show_nat n) \<noteq> CHR ''+''" for n
    using hd_show_nat_digit [of n "[]"] by (auto simp: is_digit_def)
  have sign: "(case show_nat n of [] \<Rightarrow> (False, []) | c # r \<Rightarrow> if c = CHR ''-'' then (True, r)
      else if c = CHR ''+'' then (False, r) else (False, show_nat n)) = (False, show_nat n)" for n
    using hd [of n] by (cases "show_nat n") simp_all
  show ?thesis
    using x val [of "nat x"] val [of "nat (- x)"] sign [of "nat x"] by (simp add: Atoi_def show_int_def)
qed

interpretation decimal_text: text_form show_int Atoi int64_range
  by unfold_locales (simp add: Atoi_show_int, simp add: Atoi_def)

lemma getEnv_read_or:
  "getEnvInt ev key n = read_or Atoi n (ev key)" "getEnvDuration ev key d = read_or ParseDuration d (ev key)"
  by (simp_all add: getEnvInt_def getEnvDuration_def read_or_def)

definition env_of :: "config \<Rightarrow> env_vars" where
  "env_of c = map_of
     [(''DATABASE_URL'', DatabaseURL c), (''REDIS_URL'', RedisURL c), (''HTTP_ADDR'', HTTPAddr c),
      (''WORKER_CONCURRENCY'', show_int (WorkerConcurrency c)),
      (''HEARTBEAT_INTERVAL'', Duration_String (HeartbeatInterval c)),
      (''HEARTBEAT_TTL'', Duration_String (HeartbeatTTL c)),
      (''COORDINATOR_SWEEP_INTERVAL'', Duration_String (CoordinatorSweepInterval c)),
      (''RETRY_BASE_DELAY'', Duration_String (RetryBaseDelay c)),
      (''RETRY_MAX_DELAY'', Duration_String (RetryMaxDelay c)),
      (''LEASE_TTL'', Duration_String (LeaseTTL c)), (''TASK_TYPES'', joined (TaskTypes c))]"

definition printable :: "config \<Rightarrow> bool" where
  "printable c \<longleftrightarrow> DatabaseURL c \<noteq> '''' \<and> RedisURL c \<noteq> '''' \<and> HTTPAddr c \<noteq> '''' \<and>
     list_all int64_range [WorkerConcurrency c, HeartbeatInterval c, HeartbeatTTL c, CoordinatorSweepInterval c,
       RetryBaseDelay c, RetryMaxDelay c, LeaseTTL c] \<and>
     list_all (\<lambda>f. f \<noteq> [] \<and> CHR '','' \<notin> set f) (TaskTypes c)"

lemma env_of_lookup:
  "env_of c ''DATABASE_URL'' = Some (DatabaseURL c)" "env_of c ''REDIS_URL'' = Some (RedisURL c)"
  "env_of c ''HTTP_ADDR'' = Some (HTTPAddr c)"
  "env_of c ''WORKER_CONCURRENCY'' = Some (show_int (WorkerConcurrency c))"
  "env_of c ''HEARTBEAT_INTERVAL'' = Some (Duration_String (HeartbeatInterval c))"
  "env_of c ''HEARTBEAT_TTL'' = Some (Duration_String (HeartbeatTTL c))"
  "env_of c ''COORDINATOR_SWEEP_INTERVAL'' = Some (Duration_String (CoordinatorSweepInterval c))"
  "env_of c ''RETRY_BASE_DELAY'' = Some (Duration_String (RetryBaseDelay c))"
  "env_of c ''RETRY_MAX_DELAY'' = Some (Duration_String (RetryMaxDelay c))"
  "env_of c ''LEASE_TTL'' = Some (Duration_String (LeaseTTL c))"
  "env_of c ''TASK_TYPES'' = Some (joined (TaskTypes c))"
  by (simp_all add: env_of_def)

text \<open>
  C39. A configuration is loaded as it was written: when the environment holds the URLs, the
  concurrency as a decimal number, every duration the way Go prints it and the task types
  separated by commas, \<open>Load\<close> returns exactly that configuration; and the summary it prints does not
  depend on the two URLs, which hold the credentials.
\<close>

theorem Load_env_of:
  assumes "printable c"
  shows "Load (env_of c) = c \<and> Config_String (c\<lparr>DatabaseURL := u, RedisURL := v\<rparr>) = Config_String c"
proof -
  have dur: "getEnvDuration (env_of c) key dflt = d"
    if "env_of c key = Some (Duration_String d)" and "int64_range d" for key dflt d
    using that by (simp add: getEnv_read_or duration_text.read_or_printed)
  have str: "getEnv (env_of c) key dflt = s" if "env_of c key = Some s" "s \<noteq> ''''" for key dflt s
    using that by (simp add: getEnv_def)
  have n: "getEnvInt (env_of c) ''WORKER_CONCURRENCY'' 4 = WorkerConcurrency c"
    using assms by (simp add: getEnv_read_or env_of_lookup printable_def decimal_text.read_or_printed)
  have ts: "splitCSV (case env_of c ''TASK_TYPES'' of Some v \<Rightarrow> v | None \<Rightarrow> '''') = TaskTypes c"
    using assms by (simp add: env_of_lookup printable_def splitCSV_joined)
  have "Load (env_of c) = c"
    unfolding Load_def n ts using assms
    by (simp add: printable_def env_of_lookup(5-10) [THEN dur] env_of_lookup(1-3) [THEN str])
  then show ?thesis by (simp add: Config_String_def)
qed

theorem Load_env_of_witness: "Load (env_of (Load (\<lambda>_. None))) = Load (\<lambda>_. None)"
  by (rule Load_env_of [THEN conjunct1])
    (simp add: printable_def Load_def getEnv_def getEnvInt_def getEnvDuration_def splitCSV_def int64_range_def)

end
