(* ===== verification/Worker.thy ===== *)
theory Worker
  imports Queue_Spec Store Backoff Config
begin

section \<open>The worker runtime (Worker of internal/scheduler/scheduler.go)\<close>

text \<open>
  A worker leases envelopes, runs their handlers and reports the outcomes. Its operations get
  the Redis server \<open>R\<close>, the codec \<open>C\<close> and the database \<open>Q\<close>. A handler is a function of
  the registry together with the time it takes; the canceled context of a worker that shuts
  down is a network that loses the calls. \<open>execute\<close> is split at the handler call, where
  other processes may act: \<open>execute_begin\<close> is what comes before it and
  \<open>execute_end\<close> what comes after it.
\<close>

record worker =
  WID :: string
  WHostname :: string
  wcfg :: config
  wregistry :: registry
  Completed :: int
  Failed :: int
  Dead :: int

text \<open>\<open>u8\<close> is the first eight characters of the UUID that the worker would draw.\<close>

definition NewWorker :: "env_vars \<Rightarrow> string \<Rightarrow> string \<Rightarrow> config \<Rightarrow> registry \<Rightarrow> worker" where
  "NewWorker ev u8 host cfg reg =
     (let i = (case ev ''WORKER_ID'' of Some v \<Rightarrow> v | None \<Rightarrow> '''');
          i = (if i = '''' then ''worker-'' @ u8 else i)
      in \<lparr>WID = i, WHostname = host, wcfg = cfg, wregistry = reg, Completed = 0, Failed = 0, Dead = 0\<rparr>)"

subsection \<open>Executing one envelope\<close>

definition publishEvent ::
  "'r redis \<Rightarrow> codec \<Rightarrow> worker \<Rightarrow> envelope \<Rightarrow> string \<Rightarrow> string \<Rightarrow> 'r world \<Rightarrow> 'r world" where
  "publishEvent R C wk env status msg w =
     snd (Publish R C \<lparr>TaskID = EnvID env, EvType = EnvType env, EvStatus = status,
       EvWorkerID = WID wk, Message = msg, Timestamp = clk w\<rparr> w)"

definition add64 :: "int \<Rightarrow> int \<Rightarrow> int" where
  "add64 a b = wrap64 (a + b)"

definition job_task :: "envelope \<Rightarrow> task" where
  "job_task env = zero_task\<lparr>ID := EnvID env, Type := EnvType env, Payload := EnvPayload env,
     Priority := EnvPriority env, Attempts := EnvAttempts env, MaxAttempts := EnvMaxAttempts env\<rparr>"

text \<open>No handler: the envelope is dead at once.\<close>

definition execute_unknown ::
  "'r redis \<Rightarrow> codec \<Rightarrow> pg \<Rightarrow> worker \<Rightarrow> envelope \<Rightarrow> 'r world \<Rightarrow> worker \<times> 'r world" where
  "execute_unknown R C Q wk env w =
     (let w = snd (Nack R C (WID wk) (EnvID env) w);
          w = snd (DeadLetter R C env ''no handler registered'' w);
          w = snd (MarkDead Q (EnvID env) ''no handler registered'' w);
          w = publishEvent R C wk env StatusDead ''no handler registered'' w
      in (wk\<lparr>Dead := add64 (Dead wk) 1\<rparr>, w))"

definition execute_begin ::
  "'r redis \<Rightarrow> codec \<Rightarrow> pg \<Rightarrow> worker \<Rightarrow> envelope \<Rightarrow> 'r world \<Rightarrow> 'r world" where
  "execute_begin R C Q wk env w =
     (let w = snd (MarkRunning Q (EnvID env) (WID wk) w)
      in publishEvent R C wk env StatusRunning '''' w)"

text \<open>
  After the handler returned \<open>outc\<close>, a result or the text of an error. \<open>conv\<close> and
  \<open>k\<close> are the arguments of \<open>BackoffDelay\<close>.
\<close>

definition execute_end ::
  "'r redis \<Rightarrow> codec \<Rightarrow> pg \<Rightarrow> (gofloat \<Rightarrow> int) \<Rightarrow> int \<Rightarrow> worker \<Rightarrow> envelope \<Rightarrow> string + string \<Rightarrow>
   'r world \<Rightarrow> worker \<times> 'r world" where
  "execute_end R C Q conv k wk env0 outc w =
     (case outc of
        Inr result \<Rightarrow>
          (let w = snd (Ack R C (WID wk) (EnvID env0) w);
               w = snd (MarkSucceeded Q (EnvID env0) result w);
               w = publishEvent R C wk env0 StatusSucceeded '''' w
           in (wk\<lparr>Completed := add64 (Completed wk) 1\<rparr>, w))
      | Inl err \<Rightarrow>
          (let wk = wk\<lparr>Failed := add64 (Failed wk) 1\<rparr>;
               env = env0\<lparr>EnvAttempts := add64 (EnvAttempts env0) 1\<rparr>;
               w = snd (Nack R C (WID wk) (EnvID env) w)
           in if EnvAttempts env \<ge> EnvMaxAttempts env
              then (let w = snd (DeadLetter R C env err w);
                        w = snd (MarkDead Q (EnvID env) err w);
                        w = publishEvent R C wk env StatusDead err w
                    in (wk\<lparr>Dead := add64 (Dead wk) 1\<rparr>, w))
              else (let delay = BackoffDelay conv k (EnvAttempts env) (RetryBaseDelay (wcfg wk))
                                  (RetryMaxDelay (wcfg wk));
                        availableAt = clk w + delay;
                        w = snd (EnqueueDelayed R C env availableAt w);
                        w = snd (MarkRetry Q (EnvID env) availableAt err w);
                        w = publishEvent R C wk env StatusRetrying err w
                    in (wk, w))))"

definition execute ::
  "'r redis \<Rightarrow> codec \<Rightarrow> pg \<Rightarrow> (gofloat \<Rightarrow> int) \<Rightarrow> int \<Rightarrow> nat \<Rightarrow> worker \<Rightarrow> envelope \<Rightarrow> 'r world \<Rightarrow>
   worker \<times> 'r world" where
  "execute R C Q conv k dur wk env w =
     (case Lookup (wregistry wk) (EnvType env) of
        None \<Rightarrow> execute_unknown R C Q wk env w
      | Some h \<Rightarrow>
          (let w = execute_begin R C Q wk env w;
               outc = h (job_task env);
               w = w\<lparr>clk := clk w + int dur\<rparr>
           in execute_end R C Q conv k wk env outc w))"

subsection \<open>The loops\<close>

text \<open>What \<open>Run\<close> does before its loop; the result is the list of types it leases.\<close>

definition run_start ::
  "'r redis \<Rightarrow> pg \<Rightarrow> (string list \<Rightarrow> string list) \<Rightarrow> worker \<Rightarrow> 'r world \<Rightarrow> (err + string list) \<times> 'r world" where
  "run_start R Q ranging wk w =
     (case UpsertWorker Q (WID wk) (WHostname wk) ''alive'' w of
        (Inl e, w1) \<Rightarrow> (Inl (wrap_err ''register worker: '' e), w1)
      | (Inr _, w1) \<Rightarrow>
          (case Heartbeat R (WID wk) (HeartbeatTTL (wcfg wk)) w1 of
             (Inl e, w2) \<Rightarrow> (Inl (wrap_err ''initial heartbeat: '' e), w2)
           | (Inr _, w2) \<Rightarrow>
               (let types = TaskTypes (wcfg wk);
                    types = (if length types = 0 then Types ranging (wregistry wk) else types)
                in if length types = 0
                   then (Inl (Err ''no task handlers registered and no TASK_TYPES configured''), w2)
                   else (Inr types, w2))))"

definition heartbeat_tick :: "'r redis \<Rightarrow> pg \<Rightarrow> worker \<Rightarrow> 'r world \<Rightarrow> 'r world" where
  "heartbeat_tick R Q wk w =
     (let w = snd (Heartbeat R (WID wk) (HeartbeatTTL (wcfg wk)) w)
      in snd (TouchWorker Q (WID wk) w))"

text \<open>
  The main loop of \<open>Run\<close> as steps: \<open>slots\<close> is the number of tokens in the semaphore
  channel, \<open>jobs\<close> the envelopes whose goroutines have not finished. The last rule is what
  other processes do in the meantime.
\<close>

datatype phase = Looping | Stopping | Stopped

record pool =
  phase :: phase
  slots :: nat
  jobs :: "envelope list"
  pworker :: worker

inductive run_step ::
  "'r redis \<Rightarrow> codec \<Rightarrow> pg \<Rightarrow> string list \<Rightarrow> pool \<times> 'r world \<Rightarrow> pool \<times> 'r world \<Rightarrow> bool"
  for R C Q types where
  leased: "phase p = Looping \<Longrightarrow> int (slots p) < WorkerConcurrency (wcfg (pworker p)) \<Longrightarrow>
    LeaseAny R C types (WID (pworker p)) w = (Inr env, w1) \<Longrightarrow>
    run_step R C Q types (p, w) (p\<lparr>slots := Suc (slots p), jobs := jobs p @ [env]\<rparr>, w1)"
| empty: "phase p = Looping \<Longrightarrow> int (slots p) < WorkerConcurrency (wcfg (pworker p)) \<Longrightarrow>
    LeaseAny R C types (WID (pworker p)) w = (Inl ErrEmpty, w1) \<Longrightarrow> 0 \<le> d \<Longrightarrow> d \<le> 200 * millisecond \<Longrightarrow>
    run_step R C Q types (p, w) (p, w1\<lparr>clk := clk w1 + d\<rparr>)"
| lease_error: "phase p = Looping \<Longrightarrow> int (slots p) < WorkerConcurrency (wcfg (pworker p)) \<Longrightarrow>
    LeaseAny R C types (WID (pworker p)) w = (Inl e, w1) \<Longrightarrow> e \<noteq> ErrEmpty \<Longrightarrow>
    run_step R C Q types (p, w) (p, w1\<lparr>clk := clk w1 + 500 * millisecond\<rparr>)"
| job_done: "env \<in> set (jobs p) \<Longrightarrow> execute R C Q conv k dur (pworker p) env w = (wk', w1) \<Longrightarrow>
    run_step R C Q types (p, w)
      (p\<lparr>slots := slots p - 1, jobs := remove1 env (jobs p), pworker := wk'\<rparr>, w1)"
| beat: "phase p = Looping \<Longrightarrow>
    run_step R C Q types (p, w) (p, heartbeat_tick R Q (pworker p) w)"
| stop: "phase p = Looping \<Longrightarrow> run_step R C Q types (p, w) (p\<lparr>phase := Stopping\<rparr>, w)"
| stopped: "phase p = Stopping \<Longrightarrow> jobs p = [] \<Longrightarrow>
    run_step R C Q types (p, w)
      (p\<lparr>phase := Stopped\<rparr>, snd (MarkWorkerDead Q (WID (pworker p)) w))"
| others: "run_step R C Q types (p, w) (p, w')"

subsection \<open>What an execution leaves alone\<close>

lemma publishEvent_frame [simp, frame]:
  "db (publishEvent R C wk env st msg w) = db w" "pok (publishEvent R C wk env st msg w) = pok w"
  "rok w \<Longrightarrow> rok (publishEvent R C wk env st msg w)"
  by (simp_all add: publishEvent_def)

context task_queue
begin

lemma Publish_pubs: "\<exists>ps. view R (rds (snd (Publish R C ev w))) = (view R (rds w))\<lparr>pubs := ps\<rparr>"
proof (cases "marshal_event C ev")
  case None
  then show ?thesis by (intro exI [of _ "pubs (view R (rds w))"]) (simp add: Publish_def)
next
  case (Some b)
  show ?thesis
    using rcall_rds [of "\<lambda>r. ((), PUBLISH R EventsChannel b r)" w]
  proof
    assume "rds (snd (rcall (\<lambda>r. ((), PUBLISH R EventsChannel b r)) w)) = rds w"
    with Some show ?thesis by (intro exI [of _ "pubs (view R (rds w))"]) (simp add: Publish_def)
  qed (auto simp: Publish_def Some)
qed

lemma Publish_structs [simp]:
  "zset (view R (rds (snd (Publish R C ev w)))) = zset (view R (rds w))"
  "hash (view R (rds (snd (Publish R C ev w)))) = hash (view R (rds w))"
  "rlist (view R (rds (snd (Publish R C ev w)))) = rlist (view R (rds w))"
  "strs (view R (rds (snd (Publish R C ev w)))) = strs (view R (rds w))"
  using Publish_pubs [of ev w] by auto

lemma publishEvent_structs [simp]:
  "zset (view R (rds (publishEvent R C wk env st msg w))) = zset (view R (rds w))"
  "hash (view R (rds (publishEvent R C wk env st msg w))) = hash (view R (rds w))"
  "rlist (view R (rds (publishEvent R C wk env st msg w))) = rlist (view R (rds w))"
  "strs (view R (rds (publishEvent R C wk env st msg w))) = strs (view R (rds w))"
  by (simp_all add: publishEvent_def)

lemma publishEvent_inv:
  "queue_inv R C P (rds w) \<Longrightarrow> queue_inv R C P (rds (publishEvent R C wk env st msg w))"
  by (simp add: publishEvent_def Publish_inv)

end

text \<open>An envelope that still has an attempt left.\<close>

definition live :: "envelope \<Rightarrow> bool" where
  "live e \<longleftrightarrow> EnvAttempts e < EnvMaxAttempts e"

lemma live_cond: "task_cond live"
  by (simp add: task_cond_def live_def)

context task_queue
begin

text \<open>
  Whatever the network does and whatever the handler returns, an execution puts only
  envelopes with attempts left back into Redis.
\<close>

lemma execute_end_inv:
  assumes "queue_inv R C live (rds w)" and "env_wf C env"
  shows "queue_inv R C live (rds (snd (execute_end R C Q conv k wk env outc w)))"
proof (cases outc)
  case (Inl err)
  let ?env = "env\<lparr>EnvAttempts := add64 (EnvAttempts env) 1\<rparr>"
  have wf: "env_wf C ?env" using assms(2) by (simp add: env_wf_def add64_def wrap64_range)
  have n: "queue_inv R C live (rds (snd (Nack R C (WID wk) (EnvID env) w)))"
    using assms(1) by (rule Nack_inv)
  have d: "queue_inv R C live (rds (snd (DeadLetter R C ?env err (snd (Nack R C (WID wk) (EnvID env) w)))))"
    by (rule DeadLetter_inv [OF n])
  have e: "queue_inv R C live (rds (snd (EnqueueDelayed R C ?env due (snd (Nack R C (WID wk) (EnvID env) w)))))"
    if "live ?env" for due by (rule EnqueueDelayed_inv [OF n live_cond that wf])
  show ?thesis
    using d e by (auto simp: execute_end_def Inl Let_def live_def intro!: publishEvent_inv)
next
  case (Inr result)
  then show ?thesis
    using Ack_inv [OF assms(1)] by (simp add: execute_end_def Let_def publishEvent_inv)
qed

lemma execute_begin_inv:
  "queue_inv R C P (rds w) \<Longrightarrow> queue_inv R C P (rds (execute_begin R C Q wk env w))"
  by (simp add: execute_begin_def Let_def publishEvent_inv)

lemma execute_unknown_inv:
  "queue_inv R C P (rds w) \<Longrightarrow> queue_inv R C P (rds (snd (execute_unknown R C Q wk env w)))"
  by (simp add: execute_unknown_def Let_def publishEvent_inv DeadLetter_inv Nack_inv)

lemma execute_inv:
  assumes "queue_inv R C live (rds w)" and "env_wf C env"
  shows "queue_inv R C live (rds (snd (execute R C Q conv k dur wk env w)))"
  using assms
  by (auto simp: execute_def Let_def execute_unknown_inv intro!: execute_end_inv execute_begin_inv
      split: option.splits)

text \<open>What an execution does to Redis over a network that delivers.\<close>

lemma DeadLetter_view:
  assumes "rok w" and "raw_ok C (EnvPayload env)"
  shows "\<exists>body. marshal_dead C env reason (UnixMilli (clk w)) = Some body \<and>
    view R (rds (snd (DeadLetter R C env reason w))) = (view R (rds w))\<lparr>rlist :=
      (rlist (view R (rds w)))(DLQKey (EnvType env) := dlq R w (EnvType env) @ [body])\<rparr>"
  using assms marshal_dead_ok [of env reason "UnixMilli (clk w)"] by (auto simp: DeadLetter_def)

lemma execute_end_success:
  assumes "rok w"
  shows "let w' = snd (execute_end R C Q conv k wk env (Inr result) w)
    in hash (view R (rds w')) = (hash (view R (rds w)))(InflightKey (WID wk) :=
         (inflight R w (WID wk))(UUID_String C (EnvID env) := None)) \<and>
       zset (view R (rds w')) = zset (view R (rds w)) \<and> rlist (view R (rds w')) = rlist (view R (rds w))"
  using assms by (simp add: execute_end_def Let_def Ack_view)

lemma execute_end_retry:
  assumes "rok w" and "raw_ok C (EnvPayload env)"
    and "add64 (EnvAttempts env) 1 < EnvMaxAttempts env"
  shows "let w' = snd (execute_end R C Q conv k wk env (Inl err) w);
      env' = env\<lparr>EnvAttempts := add64 (EnvAttempts env) 1\<rparr>;
      delay = BackoffDelay conv k (EnvAttempts env') (RetryBaseDelay (wcfg wk)) (RetryMaxDelay (wcfg wk))
    in hash (view R (rds w')) = (hash (view R (rds w)))(InflightKey (WID wk) :=
         (inflight R w (WID wk))(UUID_String C (EnvID env) := None)) \<and>
       rlist (view R (rds w')) = rlist (view R (rds w)) \<and>
       (\<exists>body t. marshal C env' = Some body \<and> clk w \<le> t \<and>
         zset (view R (rds w')) = (zset (view R (rds w)))(DelayedKey (EnvType env) :=
           (delayed R w (EnvType env))(body \<mapsto> f64 (UnixMilli (t + delay)))))"
proof -
  let ?env = "env\<lparr>EnvAttempts := add64 (EnvAttempts env) 1\<rparr>"
  let ?w1 = "snd (Nack R C (WID wk) (EnvID env) w)"
  obtain body where b: "marshal C ?env = Some body" using marshal_ok [of ?env] assms(2) by auto
  have ok: "rok ?w1" using assms(1) by simp
  have t: "clk w \<le> clk ?w1" unfolding Nack_def by (rule rcall_clk)
  note v = EnqueueDelayed_view(2) [OF ok b] Nack_view(2) [OF assms(1), of "WID wk" "EnvID env"]
  show ?thesis
    using assms(3) b t by (simp add: execute_end_def Let_def v) (intro exI [of _ "clk ?w1"], simp)
qed

lemma execute_end_dead:
  assumes "rok w" and "raw_ok C (EnvPayload env)"
    and "EnvMaxAttempts env \<le> add64 (EnvAttempts env) 1"
  shows "let w' = snd (execute_end R C Q conv k wk env (Inl err) w);
      env' = env\<lparr>EnvAttempts := add64 (EnvAttempts env) 1\<rparr>
    in hash (view R (rds w')) = (hash (view R (rds w)))(InflightKey (WID wk) :=
         (inflight R w (WID wk))(UUID_String C (EnvID env) := None)) \<and>
       zset (view R (rds w')) = zset (view R (rds w)) \<and>
       (\<exists>body ms. marshal_dead C env' err ms = Some body \<and>
         rlist (view R (rds w')) = (rlist (view R (rds w)))(DLQKey (EnvType env) :=
           dlq R w (EnvType env) @ [body]))"
proof -
  let ?env = "env\<lparr>EnvAttempts := add64 (EnvAttempts env) 1\<rparr>"
  let ?w1 = "snd (Nack R C (WID wk) (EnvID env) w)"
  have ok: "rok ?w1" using assms(1) by simp
  have "raw_ok C (EnvPayload ?env)" using assms(2) by simp
  from DeadLetter_view [OF ok this, of err] obtain body
    where b: "marshal_dead C ?env err (UnixMilli (clk ?w1)) = Some body"
      and v: "view R (rds (snd (DeadLetter R C ?env err ?w1))) = (view R (rds ?w1))\<lparr>rlist :=
        (rlist (view R (rds ?w1)))(DLQKey (EnvType ?env) := dlq R ?w1 (EnvType ?env) @ [body])\<rparr>" by blast
  note n = Nack_view(2) [OF assms(1), of "WID wk" "EnvID env"]
  show ?thesis
    using assms(3) b by (simp add: execute_end_def Let_def v n) (intro exI [of _ body], auto)
qed

end

subsection \<open>What an execution does to the rows\<close>

definition started_row :: "time \<Rightarrow> string \<Rightarrow> task \<Rightarrow> task" where
  "started_row t wk r = r\<lparr>Status := StatusRunning, StartedAt := Some t, WorkerID := Some wk,
     UpdatedAt := t, Attempts := Attempts r + 1\<rparr>"

lemma MarkRunning_tasks:
  assumes "pok w" and "text_in Q wk"
    and "\<forall>r\<in>set (tasks (db w)). ID r = i \<longrightarrow> int4_range (Attempts r + 1)"
  shows "tasks (db (snd (MarkRunning Q i wk w))) =
    map (\<lambda>r. if ID r = i then started_row (usec (clk w)) wk r else r) (tasks (db w))"
  using assms unfolding marks_then_log started_row_def
  by (subst then_log_tasks [where T = "update_tasks (\<lambda>r. ID r = i) (\<lambda>r. r\<lparr>Status := StatusRunning,
       StartedAt := Some (usec (clk w)), WorkerID := Some wk, UpdatedAt := usec (clk w),
       Attempts := Attempts r + 1\<rparr>) (db w)"]) (auto simp: update_tasks_def)

lemma MarkSucceeded_tasks:
  assumes "pok w" and "jsonb_in Q (if length res = 0 then ''null'' else res) = Some j"
  shows "tasks (db (snd (MarkSucceeded Q i res w))) =
    map (\<lambda>r. if ID r = i then r\<lparr>Status := StatusSucceeded, FinishedAt := Some (usec (clk w)),
      UpdatedAt := usec (clk w), Result := j\<rparr> else r) (tasks (db w))"
  unfolding marks_then_log
  by (subst then_log_tasks [where T = "update_tasks (\<lambda>r. ID r = i) (\<lambda>r. r\<lparr>Status := StatusSucceeded,
       FinishedAt := Some (usec (clk w)), UpdatedAt := usec (clk w), Result := j\<rparr>) (db w)"])
    (use assms in \<open>auto simp: update_tasks_def\<close>)

lemma MarkRetry_tasks:
  assumes "pok w" and "text_in Q msg"
  shows "tasks (db (snd (MarkRetry Q i due msg w))) =
    map (\<lambda>r. if ID r = i then r\<lparr>Status := StatusRetrying, AvailableAt := usec due, LastError := msg,
      WorkerID := None, UpdatedAt := usec (clk w)\<rparr> else r) (tasks (db w))"
  unfolding marks_then_log
  by (subst then_log_tasks [where T = "update_tasks (\<lambda>r. ID r = i) (\<lambda>r. r\<lparr>Status := StatusRetrying,
       AvailableAt := usec due, LastError := msg, WorkerID := None, UpdatedAt := usec (clk w)\<rparr>) (db w)"])
    (use assms in \<open>auto simp: update_tasks_def\<close>)

lemma execute_begin_facts:
  assumes "pok w" and "text_in Q (WID wk)"
    and "\<forall>r\<in>set (tasks (db w)). ID r = EnvID env \<longrightarrow> int4_range (Attempts r + 1)"
  shows "tasks (db (execute_begin R C Q wk env w)) =
      map (\<lambda>r. if ID r = EnvID env then started_row (usec (clk w)) (WID wk) r else r) (tasks (db w))"
    and "pok (execute_begin R C Q wk env w)"
    and "rok w \<Longrightarrow> rok (execute_begin R C Q wk env w)"
  using assms by (simp_all add: execute_begin_def Let_def MarkRunning_tasks)

lemma then_log_dead_letters:
  assumes "\<And>T. dead_letters (snd (f T)) = dead_letters T"
  shows "dead_letters (db (snd (then_log f Q i ty msg w))) = dead_letters (db w)"
  by (rule then_log_keeps [where P = "\<lambda>T. dead_letters T = dead_letters (db w)"]) (simp_all add: assms)

lemma execute_handled:
  assumes "Lookup (wregistry wk) (EnvType env) = Some h"
  shows "execute R C Q conv k dur wk env w = execute_end R C Q conv k wk env (h (job_task env))
    ((execute_begin R C Q wk env w)\<lparr>clk := clk (execute_begin R C Q wk env w) + int dur\<rparr>)"
  by (simp add: execute_def assms Let_def)

lemma execute_begin_clk: "clk w \<le> clk (execute_begin R C Q wk env w)"
proof -
  have "clk w \<le> clk (snd (MarkRunning Q (EnvID env) (WID wk) w))"
    unfolding marks_then_log by (rule then_log_clk)
  also have "\<dots> \<le> clk (execute_begin R C Q wk env w)"
    unfolding execute_begin_def publishEvent_def Publish_def Let_def
    by (auto split: option.splits simp: rcall_clk)
  finally show ?thesis .
qed

lemma execute_begin_dead_letters: "dead_letters (db (execute_begin R C Q wk env w)) = dead_letters (db w)"
  by (simp add: execute_begin_def Let_def marks_then_log, rule then_log_dead_letters) auto

lemma MarkDead_effect:
  assumes "postgres Q" and "store_wf (db w)" and "pok w" and "r \<in> set (tasks (db w))" and "ID r = i"
    and "text_in Q msg" and "jsonb_in Q (Payload r) = Some p"
  shows "tasks (db (snd (MarkDead Q i msg w))) = map (\<lambda>x. if ID x = i then x\<lparr>Status := StatusDead,
      FinishedAt := Some (usec (clk w)), UpdatedAt := usec (clk w), LastError := msg\<rparr> else x) (tasks (db w))"
    and "\<exists>d. dead_letters (db (snd (MarkDead Q i msg w))) = dead_letters (db w) @ [d] \<and> DlTaskID d = i \<and>
      Reason d = msg \<and> DlPayload d = p"
proof -
  have "fst (MarkDead Q i msg w) = Inr ()"
    using MarkDead_ok [OF assms(1,2,3,4,6,7)] by (simp add: assms(5))
  then have dc: "dead_committed Q i msg (clk w) (db w) (db (snd (MarkDead Q i msg w)))" by (rule MarkDead_committed)
  then show "tasks (db (snd (MarkDead Q i msg w))) = map (\<lambda>x. if ID x = i then x\<lparr>Status := StatusDead,
      FinishedAt := Some (usec (clk w)), UpdatedAt := usec (clk w), LastError := msg\<rparr> else x) (tasks (db w))"
    by (simp add: dead_committed_def)
  have "x = r" if "x \<in> set (tasks (db w))" "ID x = i" for x
    using that assms(2,4,5) by (auto simp: store_wf_def distinct_map inj_on_def)
  with dc assms(7) show "\<exists>d. dead_letters (db (snd (MarkDead Q i msg w))) = dead_letters (db w) @ [d] \<and>
      DlTaskID d = i \<and> Reason d = msg \<and> DlPayload d = p"
    unfolding dead_committed_def by fastforce
qed

lemma execute_begin_wf:
  "store_wf (db w) \<Longrightarrow> store_wf (db (execute_begin R C Q wk env w))"
  by (simp add: execute_begin_def Let_def marks_wf)

context task_queue
begin

lemma execute_begin_structs [simp]:
  "zset (view R (rds (execute_begin R C Q wk env w))) = zset (view R (rds w))"
  "hash (view R (rds (execute_begin R C Q wk env w))) = hash (view R (rds w))"
  "rlist (view R (rds (execute_begin R C Q wk env w))) = rlist (view R (rds w))"
  by (simp_all add: execute_begin_def Let_def)

end

subsection \<open>Properties\<close>

text \<open>
  C22. An execution whose handler succeeds, over networks that deliver: the envelope leaves the
  worker's in-flight hash and nothing else in the queues changes; the task's row is succeeded
  with the handler's result, one more attempt and the worker's name, and all other rows stay.
\<close>

theorem execute_success:
  assumes "task_queue R C" and "rok w" and "pok w"
    and "Lookup (wregistry wk) (EnvType env) = Some h" and "h (job_task env) = Inr result"
    and "jsonb_in Q (if length result = 0 then ''null'' else result) = Some j" and "text_in Q (WID wk)"
    and "\<forall>r\<in>set (tasks (db w)). ID r = EnvID env \<longrightarrow> int4_range (Attempts r + 1)"
  shows "let (wk', w') = execute R C Q conv k dur wk env w
    in wk' = wk\<lparr>Completed := add64 (Completed wk) 1\<rparr> \<and>
       hash (view R (rds w')) = (hash (view R (rds w)))(InflightKey (WID wk) :=
         (inflight R w (WID wk))(UUID_String C (EnvID env) := None)) \<and>
       zset (view R (rds w')) = zset (view R (rds w)) \<and> rlist (view R (rds w')) = rlist (view R (rds w)) \<and>
       (\<exists>t0 t1. tasks (db w') = map (\<lambda>r. if ID r = EnvID env then (started_row t0 (WID wk) r)
          \<lparr>Status := StatusSucceeded, FinishedAt := Some t1, UpdatedAt := t1, Result := j\<rparr> else r) (tasks (db w)))"
proof -
  let ?w1 = "(execute_begin R C Q wk env w)\<lparr>clk := clk (execute_begin R C Q wk env w) + int dur\<rparr>"
  let ?w2 = "snd (Ack R C (WID wk) (EnvID env) ?w1)"
  note b = execute_begin_facts [OF assms(3,7,8), of R C]
  have ok: "rok ?w1" "pok ?w1" using b(2) b(3) [OF assms(2)] by (simp_all add: rok_def pok_def)
  note ex = execute_handled [OF assms(4), of R C Q conv k dur w, unfolded assms(5)]
  have "pok ?w2" "db ?w2 = db (execute_begin R C Q wk env w)" using ok(2) by simp_all
  from MarkSucceeded_tasks [OF this(1) assms(6), of "EnvID env"] this(2)
  have "tasks (db (snd (execute_end R C Q conv k wk env (Inr result) ?w1))) =
      map (\<lambda>r. if ID r = EnvID env then (started_row (usec (clk w)) (WID wk) r)\<lparr>Status := StatusSucceeded,
        FinishedAt := Some (usec (clk ?w2)), UpdatedAt := usec (clk ?w2), Result := j\<rparr> else r) (tasks (db w))"
    by (simp add: execute_end_def Let_def b(1) started_row_def)
  moreover have "fst (execute_end R C Q conv k wk env (Inr result) ?w1) = wk\<lparr>Completed := add64 (Completed wk) 1\<rparr>"
    by (simp add: execute_end_def Let_def)
  ultimately show ?thesis
    using task_queue.execute_end_success [OF assms(1) ok(1), of Q conv k wk env result]
    unfolding ex case_prod_beta Let_def
    by (simp add: task_queue.execute_begin_structs [OF assms(1)]) blast
qed

definition demo_world :: "ref_redis world" where
  "demo_world = (snd (Lease ref_redis json_std ''email'' ''worker-1'' queued_world))\<lparr>db := db row_world\<rparr>"

definition demo_worker :: "handler \<Rightarrow> worker" where
  "demo_worker h = NewWorker (\<lambda>_. None) ''1'' ''host'' (Load (\<lambda>_. None))
     (Register ''email'' h NewRegistry)"

lemma demo_facts:
  "rok demo_world" "pok demo_world" "store_wf (db demo_world)" "db demo_world = db row_world"
  "Lookup (wregistry (demo_worker h)) (EnvType email_env) = Some h"
  "text_in std_pg (WID (demo_worker h))"
  "filter (\<lambda>r. ID r = EnvID email_env \<and> \<not> int4_range (Attempts r + 1)) (tasks (db demo_world)) = []"
proof -
  have db: "db demo_world = db row_world" by (simp add: demo_world_def)
  show "rok demo_world" "pok demo_world"
    using queued_facts by (simp_all add: demo_world_def rok_def pok_def) (simp_all flip: rok_def pok_def)
  show "store_wf (db demo_world)" using row_world_facts db by simp
  show "db demo_world = db row_world" by (rule db)
  show "Lookup (wregistry (demo_worker h)) (EnvType email_env) = Some h"
    by (simp add: demo_worker_def NewWorker_def Lookup_Register email_env_def)
  have "WID (demo_worker h) = ''worker-1''" by (simp add: demo_worker_def NewWorker_def)
  then show "text_in std_pg (WID (demo_worker h))" by (simp add: std_pg_def) code_simp
  show "filter (\<lambda>r. ID r = EnvID email_env \<and> \<not> int4_range (Attempts r + 1)) (tasks (db demo_world)) = []"
    unfolding db by code_simp
qed

lemma demo_attempts:
  "\<forall>r\<in>set (tasks (db demo_world)). ID r = EnvID email_env \<longrightarrow> int4_range (Attempts r + 1)"
  using demo_facts(7) by (auto simp: filter_empty_conv)

theorem execute_success_witness:
  "Completed (fst (execute ref_redis json_std std_pg (\<lambda>_. 0) 0 0 (demo_worker (\<lambda>t. Inr (Payload t)))
     email_env demo_world)) = 1"
proof -
  let ?h = "\<lambda>t. Inr (Payload t)"
  have j: "jsonb_in std_pg (if length (Payload (job_task email_env)) = 0 then ''null''
      else Payload (job_task email_env)) = Some ''{}''" by code_simp
  have "Completed (demo_worker ?h) = 0" by (simp add: demo_worker_def NewWorker_def)
  with execute_success [where wk = "demo_worker ?h" and env = email_env and h = ?h, OF std_queue
      demo_facts(1,2) demo_facts(5) refl j demo_facts(6) demo_attempts]
  show ?thesis by (auto simp: case_prod_beta Let_def add64_def wrap64_def)
qed

text \<open>
  C23. An execution whose handler fails while attempts are left, over networks that deliver:
  the envelope moves from the in-flight hash to the delayed set of its type with one more attempt,
  due after the backoff delay, which is at least the base delay and at most the larger of the base
  delay and the capped exponential; the row is retrying with the error, without a worker. Nothing
  is dead-lettered.
\<close>

theorem execute_retry:
  assumes "task_queue R C" and "rok w" and "pok w"
    and "Lookup (wregistry wk) (EnvType env) = Some h" and "h (job_task env) = Inl err"
    and "raw_ok C (EnvPayload env)" and "add64 (EnvAttempts env) 1 < EnvMaxAttempts env"
    and "text_in Q err" and "text_in Q (WID wk)"
    and "\<forall>r\<in>set (tasks (db w)). ID r = EnvID env \<longrightarrow> int4_range (Attempts r + 1)"
    and "accepted k" and "0 < RetryBaseDelay (wcfg wk)" and "int64_range (RetryBaseDelay (wcfg wk))"
    and "0 \<le> RetryMaxDelay (wcfg wk)" and "int64_range (RetryMaxDelay (wcfg wk))"
  shows "let (wk', w') = execute R C Q conv k dur wk env w; n = add64 (EnvAttempts env) 1
    in wk' = wk\<lparr>Failed := add64 (Failed wk) 1\<rparr> \<and>
       hash (view R (rds w')) = (hash (view R (rds w)))(InflightKey (WID wk) :=
         (inflight R w (WID wk))(UUID_String C (EnvID env) := None)) \<and>
       rlist (view R (rds w')) = rlist (view R (rds w)) \<and>
       (\<exists>body t0 t1 t2 delay. marshal C (env\<lparr>EnvAttempts := n\<rparr>) = Some body \<and> clk w + int dur \<le> t1 \<and>
         RetryBaseDelay (wcfg wk) \<le> delay \<and>
         delay \<le> max (RetryBaseDelay (wcfg wk))
           (capped_exp (max 1 n) (RetryBaseDelay (wcfg wk)) (RetryMaxDelay (wcfg wk))) \<and>
         zset (view R (rds w')) = (zset (view R (rds w)))(DelayedKey (EnvType env) :=
           (delayed R w (EnvType env))(body \<mapsto> f64 (UnixMilli (t1 + delay)))) \<and>
         tasks (db w') = map (\<lambda>r. if ID r = EnvID env then (started_row t0 (WID wk) r)
           \<lparr>Status := StatusRetrying, AvailableAt := usec (t1 + delay), LastError := err,
            WorkerID := None, UpdatedAt := t2\<rparr> else r) (tasks (db w)))"
proof -
  let ?w1 = "(execute_begin R C Q wk env w)\<lparr>clk := clk (execute_begin R C Q wk env w) + int dur\<rparr>"
  let ?n = "add64 (EnvAttempts env) 1"
  let ?env = "env\<lparr>EnvAttempts := ?n\<rparr>"
  let ?w2 = "snd (Nack R C (WID wk) (EnvID env) ?w1)"
  let ?delay = "BackoffDelay conv k ?n (RetryBaseDelay (wcfg wk)) (RetryMaxDelay (wcfg wk))"
  let ?at = "clk ?w2 + ?delay"
  let ?w3 = "snd (EnqueueDelayed R C ?env ?at ?w2)"
  note b = execute_begin_facts [OF assms(3,9,10), of R C]
  have ok: "rok ?w1" "pok ?w1" using b(2) b(3) [OF assms(2)] by (simp_all add: rok_def pok_def)
  note ex = execute_handled [OF assms(4), of R C Q conv k dur w, unfolded assms(5)]
  have en: "execute_end R C Q conv k wk env (Inl err) ?w1 = (wk\<lparr>Failed := add64 (Failed wk) 1\<rparr>,
      publishEvent R C (wk\<lparr>Failed := add64 (Failed wk) 1\<rparr>) ?env StatusRetrying err
        (snd (MarkRetry Q (EnvID env) ?at err ?w3)))"
    using assms(7) by (simp add: execute_end_def Let_def)
  obtain body where body: "marshal C ?env = Some body"
    using envelope_codec.marshal_ok [OF task_queue.axioms(2) [OF assms(1)], of ?env] assms(6) by auto
  have ok2: "rok ?w2" "pok ?w3" using ok by simp_all
  note nv = task_queue.Nack_view(2) [OF assms(1) ok(1), of "WID wk" "EnvID env"]
  note ev = task_queue.EnqueueDelayed_view(2) [OF assms(1) ok2(1) body, of ?at]
  note st = task_queue.execute_begin_structs [OF assms(1), of Q wk env w]
  have c: "clk w + int dur \<le> clk ?w2"
  proof -
    have "clk w + int dur \<le> clk ?w1" using execute_begin_clk [of w R C Q wk env] by simp
    also have "\<dots> \<le> clk ?w2" unfolding Nack_def by (rule rcall_clk)
    finally show ?thesis .
  qed
  have rows: "tasks (db (snd (MarkRetry Q (EnvID env) ?at err ?w3))) =
      map (\<lambda>r. if ID r = EnvID env then (started_row (usec (clk w)) (WID wk) r)\<lparr>Status := StatusRetrying,
        AvailableAt := usec ?at, LastError := err, WorkerID := None, UpdatedAt := usec (clk ?w3)\<rparr> else r)
        (tasks (db w))"
    using MarkRetry_tasks [OF ok2(2) assms(8), of "EnvID env" ?at] by (simp add: b(1) started_row_def)
  note bd = BackoffDelay_le [OF assms(11-15), of conv ?n]
  show ?thesis
    unfolding ex en prod.case Let_def
    by (intro conjI exI [of _ body] exI [of _ "usec (clk w)"] exI [of _ "clk ?w2"] exI [of _ "usec (clk ?w3)"]
        exI [of _ ?delay])
      (use body c bd rows in \<open>simp_all add: ev nv st task_queue.publishEvent_structs [OF assms(1)]\<close>)
qed

lemma demo_config:
  "accepted 0" "0 < RetryBaseDelay (wcfg (demo_worker h))" "int64_range (RetryBaseDelay (wcfg (demo_worker h)))"
  "0 \<le> RetryMaxDelay (wcfg (demo_worker h))" "int64_range (RetryMaxDelay (wcfg (demo_worker h)))"
  by (simp_all add: accepted_def f64_small demo_worker_def NewWorker_def Load_def getEnvDuration_def int64_range_def)

lemma demo_env: "raw_ok json_std (EnvPayload email_env)" "add64 (EnvAttempts email_env) 1 < EnvMaxAttempts email_env"
  "EnvMaxAttempts (email_env\<lparr>EnvAttempts := 2\<rparr>) \<le> add64 (EnvAttempts (email_env\<lparr>EnvAttempts := 2\<rparr>)) 1"
  "text_in std_pg ''boom''"
  by code_simp+

theorem execute_retry_witness:
  "Failed (fst (execute ref_redis json_std std_pg (\<lambda>_. 0) 0 5 (demo_worker (\<lambda>t. Inl ''boom''))
     email_env demo_world)) = 1"
proof -
  let ?h = "\<lambda>t. Inl ''boom''"
  have "Failed (demo_worker ?h) = 0" by (simp add: demo_worker_def NewWorker_def)
  with execute_retry [where wk = "demo_worker ?h" and env = email_env and h = ?h, OF std_queue
      demo_facts(1,2) demo_facts(5) refl demo_env(1,2,4) demo_facts(6) demo_attempts demo_config]
  show ?thesis by (auto simp: case_prod_beta Let_def add64_def wrap64_def)
qed

text \<open>
  C24. An execution whose handler fails at the last attempt, over networks that deliver: the envelope
  leaves the in-flight hash and its record with the error is appended to the dead-letter list of
  its type; no queue changes. The row is dead with the error, and one dead letter with the task's
  payload was added to the database.
\<close>

theorem execute_last_failure:
  assumes "task_queue R C" and "postgres Q" and "rok w" and "pok w" and "store_wf (db w)"
    and "Lookup (wregistry wk) (EnvType env) = Some h" and "h (job_task env) = Inl err"
    and "raw_ok C (EnvPayload env)" and "EnvMaxAttempts env \<le> add64 (EnvAttempts env) 1"
    and "text_in Q err" and "text_in Q (WID wk)"
    and "r \<in> set (tasks (db w))" and "ID r = EnvID env" and "jsonb_in Q (Payload r) = Some p"
    and "int4_range (Attempts r + 1)"
  shows "let (wk', w') = execute R C Q conv k dur wk env w
    in wk' = wk\<lparr>Failed := add64 (Failed wk) 1, Dead := add64 (Dead wk) 1\<rparr> \<and>
       hash (view R (rds w')) = (hash (view R (rds w)))(InflightKey (WID wk) :=
         (inflight R w (WID wk))(UUID_String C (EnvID env) := None)) \<and>
       zset (view R (rds w')) = zset (view R (rds w)) \<and>
       (\<exists>body ms. marshal_dead C (env\<lparr>EnvAttempts := add64 (EnvAttempts env) 1\<rparr>) err ms = Some body \<and>
         rlist (view R (rds w')) = (rlist (view R (rds w)))(DLQKey (EnvType env) :=
           dlq R w (EnvType env) @ [body])) \<and>
       (\<exists>t0 t1. tasks (db w') = map (\<lambda>x. if ID x = EnvID env then (started_row t0 (WID wk) x)
          \<lparr>Status := StatusDead, FinishedAt := Some t1, UpdatedAt := t1, LastError := err\<rparr> else x) (tasks (db w))) \<and>
       (\<exists>d. dead_letters (db w') = dead_letters (db w) @ [d] \<and> DlTaskID d = EnvID env \<and>
          Reason d = err \<and> DlPayload d = p)"
proof -
  let ?b = "execute_begin R C Q wk env w"
  let ?w1 = "?b\<lparr>clk := clk ?b + int dur\<rparr>"
  let ?env = "env\<lparr>EnvAttempts := add64 (EnvAttempts env) 1\<rparr>"
  let ?w3 = "snd (DeadLetter R C ?env err (snd (Nack R C (WID wk) (EnvID env) ?w1)))"
  let ?r = "started_row (usec (clk w)) (WID wk) r"
  have "x = r" if "x \<in> set (tasks (db w))" "ID x = EnvID env" for x
    using that assms(5,12,13) by (auto simp: store_wf_def distinct_map inj_on_def)
  then have int4: "\<forall>x\<in>set (tasks (db w)). ID x = EnvID env \<longrightarrow> int4_range (Attempts x + 1)"
    using assms(15) by blast
  note b = execute_begin_facts [OF assms(4,11) int4, of R C]
  have ok: "rok ?w1" "pok ?w3" using b(2) b(3) [OF assms(3)] by (simp_all add: rok_def pok_def)
  note ex = execute_handled [OF assms(6), of R C Q conv k dur w, unfolded assms(7)]
  have en: "execute_end R C Q conv k wk env (Inl err) ?w1 =
      (wk\<lparr>Failed := add64 (Failed wk) 1, Dead := add64 (Dead wk) 1\<rparr>,
       publishEvent R C (wk\<lparr>Failed := add64 (Failed wk) 1\<rparr>) ?env StatusDead err (snd (MarkDead Q (EnvID env) err ?w3)))"
    using assms(9) by (simp add: execute_end_def Let_def)
  have r1: "?r \<in> set (tasks (db ?w3))" using assms(12,13) by (force simp: b(1))
  have wf: "store_wf (db ?w3)" using execute_begin_wf [OF assms(5)] by simp
  have idp: "ID ?r = EnvID env" "jsonb_in Q (Payload ?r) = Some p" by (simp_all add: started_row_def assms(13,14))
  note md = MarkDead_effect [OF assms(2) wf ok(2) r1 idp(1) assms(10) idp(2)]
  have rows: "tasks (db (snd (MarkDead Q (EnvID env) err ?w3))) =
      map (\<lambda>x. if ID x = EnvID env then (started_row (usec (clk w)) (WID wk) x)
        \<lparr>Status := StatusDead, FinishedAt := Some (usec (clk ?w3)), UpdatedAt := usec (clk ?w3), LastError := err\<rparr>
        else x) (tasks (db w))"
    unfolding md(1) by (simp add: b(1) started_row_def)
  from task_queue.execute_end_dead [OF assms(1) ok(1) assms(8,9), of Q conv k wk err] rows md(2) show ?thesis
    unfolding ex en prod.case Let_def
    by (simp add: task_queue.execute_begin_structs [OF assms(1)] task_queue.publishEvent_structs [OF assms(1)]
        execute_begin_dead_letters) blast
qed

theorem execute_last_failure_witness:
  "Dead (fst (execute ref_redis json_std std_pg (\<lambda>_. 0) 0 5 (demo_worker (\<lambda>t. Inl ''boom''))
     (email_env\<lparr>EnvAttempts := 2\<rparr>) demo_world)) = 1"
proof -
  let ?h = "\<lambda>t. Inl ''boom''" and ?e = "email_env\<lparr>EnvAttempts := 2\<rparr>"
  have "\<exists>r\<in>set (tasks (db row_world)). ID r = EnvID ?e \<and> jsonb_in std_pg (Payload r) = Some ''{}'' \<and>
      int4_range (Attempts r + 1)" by code_simp
  then obtain r where r: "r \<in> set (tasks (db demo_world))" "ID r = EnvID ?e"
    "jsonb_in std_pg (Payload r) = Some ''{}''" "int4_range (Attempts r + 1)" unfolding demo_facts(4) by blast
  have e: "Lookup (wregistry (demo_worker ?h)) (EnvType ?e) = Some ?h" "raw_ok json_std (EnvPayload ?e)"
    using demo_facts(5) demo_env(1) by simp_all
  have "Dead (demo_worker ?h) = 0" by (simp add: demo_worker_def NewWorker_def)
  with execute_last_failure [where wk = "demo_worker ?h" and env = ?e and h = ?h, OF std_queue
      spg.postgres_axioms demo_facts(1-3) e(1) refl e(2) demo_env(3,4) demo_facts(6) r]
  show ?thesis by (auto simp: case_prod_beta Let_def add64_def wrap64_def)
qed

text \<open>
  C25. Whatever the network does and whatever the handler returns, an execution leaves only
  envelopes with attempts left in the queues, and no retry is scheduled beyond the maximum.
\<close>

theorem execute_respects_max_attempts:
  assumes "task_queue R C" and "queue_inv R C live (rds w)" and "env_wf C env"
  shows "queue_inv R C live (rds (snd (execute R C Q conv k dur wk env w)))"
  using assms by (rule task_queue.execute_inv)

theorem execute_respects_max_attempts_witness:
  "queue_inv ref_redis json_std live (rds (snd (execute ref_redis json_std std_pg (\<lambda>_. 0) 0 5
     (demo_worker (\<lambda>t. Inl ''boom'')) email_env (queued_world\<lparr>rnet :=
       [\<lparr>latency = 3, outcome = LostReply ''reset''\<rparr>, \<lparr>latency = 0, outcome = LostRequest ''reset''\<rparr>]\<rparr>))))"
  by (rule execute_respects_max_attempts [OF std_queue _ email_wf])
    (use queued_inv [OF live_cond] in \<open>simp add: live_def email_env_def\<close>)

subsection \<open>The bound on concurrent jobs\<close>

inductive run_steps ::
  "'r redis \<Rightarrow> codec \<Rightarrow> pg \<Rightarrow> string list \<Rightarrow> pool \<times> 'r world \<Rightarrow> pool \<times> 'r world \<Rightarrow> bool"
  for R C Q types where
  stay: "run_steps R C Q types s s"
| after: "run_steps R C Q types s s1 \<Longrightarrow> run_step R C Q types s1 s2 \<Longrightarrow> run_steps R C Q types s s2"

lemma execute_cfg: "wcfg (fst (execute R C Q conv k dur wk env w)) = wcfg wk"
  by (auto simp: execute_def execute_unknown_def execute_end_def Let_def split: option.splits sum.splits)

definition pool_inv :: "config \<Rightarrow> pool \<Rightarrow> bool" where
  "pool_inv cfg p \<longleftrightarrow> wcfg (pworker p) = cfg \<and> slots p = length (jobs p) \<and>
     (jobs p = [] \<or> int (length (jobs p)) \<le> WorkerConcurrency cfg) \<and> (phase p = Stopped \<longrightarrow> jobs p = [])"

lemma run_step_pool:
  assumes "run_step R C Q types s s'" and "pool_inv cfg (fst s)"
  shows "pool_inv cfg (fst s')"
  using assms
proof (induction rule: run_step.induct)
  case (job_done env p conv k dur w wk' w1)
  have "wcfg wk' = wcfg (pworker p)" using execute_cfg [of R C Q conv k dur "pworker p" env w] job_done(2) by simp
  moreover have "length (remove1 env (jobs p)) = length (jobs p) - 1" using job_done(1) by (simp add: length_remove1)
  ultimately show ?case using job_done(1,3) by (auto simp: pool_inv_def)
qed (auto simp: pool_inv_def)

text \<open>
  C26. A worker never runs more jobs at once than its configured concurrency (none when that is
  not positive), holds one semaphore slot per job, and has none left when it stops.
\<close>

theorem concurrency_bounded:
  assumes "run_steps R C Q types (\<lparr>phase = Looping, slots = 0, jobs = [], pworker = wk\<rparr>, w) (p, w')"
  shows "int (length (jobs p)) \<le> max 0 (WorkerConcurrency (wcfg wk)) \<and> slots p = length (jobs p) \<and>
    (phase p = Stopped \<longrightarrow> jobs p = [])"
proof -
  have "pool_inv (wcfg wk) (fst (p, w'))"
    using assms
  proof (induction "(\<lparr>phase = Looping, slots = 0, jobs = [], pworker = wk\<rparr>, w)" "(p, w')"
      arbitrary: p w' rule: run_steps.induct)
    case stay
    show ?case by (simp add: pool_inv_def)
  next
    case (after s1 p w')
    then show ?case by (metis run_step_pool prod.collapse)
  qed
  then show ?thesis by (auto simp: pool_inv_def)
qed

theorem concurrency_bounded_witness:
  "\<exists>p w'. run_steps ref_redis json_std std_pg [''email''] (\<lparr>phase = Looping, slots = 0, jobs = [],
     pworker = demo_worker (\<lambda>t. Inr (Payload t))\<rparr>, queued_world) (p, w') \<and> length (jobs p) = 1 \<and>
     int (length (jobs p)) \<le> 4"
proof -
  let ?wk = "demo_worker (\<lambda>t. Inr (Payload t))"
  let ?p = "\<lparr>phase = Looping, slots = 0, jobs = [], pworker = ?wk\<rparr>"
  have c: "WorkerConcurrency (wcfg ?wk) = 4" by (simp add: demo_worker_def NewWorker_def Load_def getEnvInt_def)
  obtain e w1 where "LeaseAny ref_redis json_std [''email''] (WID ?wk) queued_world = (Inr e, w1)"
  proof -
    obtain e where e: "fst (Lease ref_redis json_std ''email'' (WID ?wk) queued_world) = Inr e"
      using task_queue.Lease_pops [OF std_queue queued_facts(1) queued_inv [OF live_cond] queued_nonempty, of "WID ?wk"]
      by (auto simp: live_def email_env_def)
    then show ?thesis
      by (intro that [of e "snd (Lease ref_redis json_std ''email'' (WID ?wk) queued_world)"])
        (cases "Lease ref_redis json_std ''email'' (WID ?wk) queued_world", auto)
  qed
  then have "run_step ref_redis json_std std_pg [''email''] (?p, queued_world)
      (?p\<lparr>slots := Suc (slots ?p), jobs := jobs ?p @ [e]\<rparr>, w1)"
    by (intro run_step.leased) (simp_all add: c)
  from run_steps.after [OF run_steps.stay this]
  have s: "run_steps ref_redis json_std std_pg [''email''] (?p, queued_world)
      (?p\<lparr>slots := Suc (slots ?p), jobs := jobs ?p @ [e]\<rparr>, w1)" .
  from concurrency_bounded [OF this] s c show ?thesis
    by (intro exI [of _ "?p\<lparr>slots := Suc (slots ?p), jobs := jobs ?p @ [e]\<rparr>"] exI [of _ w1]) simp
qed

end
