(* ===== verification/Horizon.thy ===== *)
theory Horizon
  imports Queue_Spec Store
begin

section \<open>The latest time a computation can reach\<close>

text \<open>
  Every operation is a finite sequence of round trips, each of which takes the delay that the
  network schedule gives it. The clock together with all the delays that are still to come is
  therefore the same before and after an operation, and it bounds the clock at any point:
  a world whose horizon fits into Go's integers never meets a clock that does not.
\<close>

definition horizon :: "'r world \<Rightarrow> time" where
  "horizon w = clk w + int (sum_list (map latency (rnet w))) + int (sum_list (map latency (pgnet w)))"

lemma clk_le_horizon: "clk w \<le> horizon w"
  by (simp add: horizon_def)

lemma horizon_quiet: "rnet w = [] \<Longrightarrow> pgnet w = [] \<Longrightarrow> horizon w = clk w"
  by (simp add: horizon_def)

lemma next_fault_sum:
  "next_fault fs = (ft, fs') \<Longrightarrow> sum_list (map latency fs) = latency ft + sum_list (map latency fs')"
  by (cases fs) auto

lemma rcall_horizon [simp]: "horizon (snd (rcall f w)) = horizon w"
  by (auto simp: rcall_def Let_def horizon_def dest!: next_fault_sum split: prod.splits outcome.splits)

lemma pgcall_horizon [simp]: "horizon (snd (pgcall f w)) = horizon w"
  by (auto simp: pgcall_def Let_def horizon_def dest!: next_fault_sum split: prod.splits outcome.splits)

lemma rcall_horizonD: "rcall f w = (a, w1) \<Longrightarrow> horizon w1 = horizon w"
  using rcall_horizon [of f w] by simp

lemma pgcall_horizonD: "pgcall f w = (a, w1) \<Longrightarrow> horizon w1 = horizon w"
  using pgcall_horizon [of f w] by simp

lemma queue_horizon [simp]:
  "horizon (snd (Enqueue R C env w)) = horizon w" "horizon (snd (EnqueueDelayed R C env due w)) = horizon w"
  "horizon (snd (Lease R C t wk w)) = horizon w" "horizon (snd (Ack R C wk i w)) = horizon w"
  "horizon (snd (Nack R C wk i w)) = horizon w" "horizon (snd (DeadLetter R C env reason w)) = horizon w"
  "horizon (snd (Heartbeat R wk ttl w)) = horizon w" "horizon (snd (Publish R C ev w)) = horizon w"
  by (simp_all add: Enqueue_def EnqueueDelayed_def Lease_snd Ack_def Nack_def DeadLetter_def
      Heartbeat_def Publish_def Let_def split: option.splits)

lemma queue_horizon2 [simp]:
  "horizon (snd (IsAlive R wk w)) = horizon w" "horizon (snd (ReclaimInflight R C wk w)) = horizon w"
  "horizon (snd (PromoteDelayed R C t now w)) = horizon w"
  by (auto simp: IsAlive_def ReclaimInflight_def PromoteDelayed_def Let_def dest!: rcall_horizonD
      split: prod.splits sum.splits)

lemma then_log_horizon [simp]: "horizon (snd (then_log f Q i ty msg w)) = horizon w"
  by (auto simp: then_log_def LogEvent_def dest: pgcall_horizonD split: prod.splits sum.splits)

lemma pgquery_horizon [simp]: "horizon (snd (pgquery Q f w)) = horizon w"
  by (auto simp: pgquery_def dest: pgcall_horizonD split: prod.splits sum.splits option.splits)

lemma tx_then_horizon:
  "(\<And>a V1 w1. horizon (snd (g a V1 w1)) = horizon w1) \<Longrightarrow> horizon (snd (tx_then f V w g)) = horizon w"
  by (auto simp: tx_then_def tx_call_def tx_rollback_def dest: pgcall_horizonD split: prod.splits sum.splits)

lemma MarkDead_horizon [simp]: "horizon (snd (MarkDead Q i msg w)) = horizon w"
proof -
  have f: "horizon (snd (tx_finish V w)) = horizon w" for V and w :: "'a world"
    by (auto simp: tx_finish_def tx_commit_def tx_rollback_def dest: pgcall_horizonD split: prod.splits sum.splits)
  have b: "horizon w1 = horizon w" if "tx_begin w = (a, w1)" for a w1
    using that unfolding tx_begin_def by (rule pgcall_horizonD)
  have "horizon (snd (tx_then (update_dead Q i msg (clk w)) (db w1) w1 (\<lambda>payload V2 w2.
      tx_then (insert_dead_letter Q i msg payload (clk w)) V2 w2 (\<lambda>_ V3 w3.
      tx_then (insert_event Q (clk w1) i ''dead'' msg) V3 w3 (\<lambda>_ V4 w4. tx_finish V4 w4))))) = horizon w1"
    for w1 :: "'a world" by (intro tx_then_horizon f)
  then show ?thesis by (auto simp: MarkDead_chain dest: b split: prod.splits sum.splits)
qed

lemma log_orphans_horizon [simp]: "horizon (snd (log_orphans Q rows (w :: 'a world))) = horizon w"
proof (induction rows arbitrary: w)
  case (Cons r rows)
  have e: "horizon (snd (LogEvent Q i ty msg w)) = horizon w" for i ty msg and w :: "'a world"
    by (simp add: LogEvent_def)
  have l: "horizon w2 = horizon w1" if "log_orphans Q rows w1 = (a, w2)" for a and w1 w2 :: "'a world"
    using Cons.IH [of w1] that by simp
  show ?case by (auto simp: e dest!: l split: sum.splits prod.splits)
qed simp

lemma RequeueOrphans_horizon [simp]: "horizon (snd (RequeueOrphans Q wks (w :: 'a world))) = horizon w"
proof -
  have q: "horizon w1 = horizon w" if "pgquery Q f w = (a, w1)" for f :: "tables \<Rightarrow> (err + task list) \<times> tables" and a w1
    using pgquery_horizon [of Q f w] that by simp
  have l: "horizon w2 = horizon w1" if "log_orphans Q rows w1 = (a, w2)" for rows a and w1 w2 :: "'a world"
    using log_orphans_horizon [of Q rows w1] that by simp
  show ?thesis
    by (auto simp: RequeueOrphans_def split: prod.splits sum.splits option.splits dest!: q l)
qed

lemma store_horizon [simp]:
  "horizon (snd (MarkRunning Q i wk w)) = horizon w" "horizon (snd (MarkSucceeded Q i res w)) = horizon w"
  "horizon (snd (MarkRetry Q i due msg w)) = horizon w" "horizon (snd (MarkCanceled Q i w)) = horizon w"
  "horizon (snd (MarkWorkerDead Q wk w)) = horizon w" "horizon (snd (ListWorkers Q w)) = horizon w"
  "horizon (snd (TouchWorker Q wk w)) = horizon w" "horizon (snd (UpsertWorker Q wk h st w)) = horizon w"
  by (simp_all add: marks_then_log MarkWorkerDead_def ListWorkers_def TouchWorker_def UpsertWorker_def)

lemma scan_loop_horizon: "scan_loop R pat n c w = Some (res, w1) \<Longrightarrow> horizon w1 = horizon w"
proof (induction n arbitrary: c w res w1)
  case (Suc n)
  obtain a w0 where r: "rcall (\<lambda>r. (SCAN R c pat 100 r, r)) w = (a, w0)" by fastforce
  note r' = rcall_horizonD [OF r]
  show ?case
  proof (cases a)
    case (Inl e)
    with Suc.prems r r' show ?thesis by auto
  next
    case (Inr p)
    obtain ks c' where p: "p = (ks, c')" by fastforce
    with Suc.prems r r' Inr Suc.IH [of c' w0 _ w1] show ?thesis
      by (auto split: if_splits option.splits prod.splits sum.splits)
  qed
qed simp

lemma horizon_range:
  assumes "0 \<le> clk w" and "int64_range (UnixMilli (horizon w))" and "clk w \<le> clk w'" and "horizon w' = horizon w"
  shows "int64_range (UnixMilli (clk w'))"
proof -
  have "UnixMilli (clk w') \<le> UnixMilli (horizon w)"
    using zdiv_mono1 [OF clk_le_horizon [of w'], of 1000000] assms(4) by (simp add: UnixMilli_def)
  moreover have "0 \<le> UnixMilli (clk w')" using assms(1,3) by (simp add: UnixMilli_def)
  ultimately show ?thesis using assms(2) by (simp add: int64_range_def)
qed

end
