(* ===== verification/Coordinator.thy ===== *)
theory Coordinator
  imports Worker Horizon
begin

section \<open>The coordinator (Coordinator of internal/scheduler/scheduler.go)\<close>

text \<open>
  The periodic sweep: \<open>promoteDelayed\<close> moves due tasks to the ready queues and
  \<open>reclaimDead\<close> takes back the in-flight envelopes of workers without a heartbeat. The two
  scan loops get fuel; the theorems show from which amount on the result no longer depends on it.
\<close>

definition publishEvent_c ::
  "'r redis \<Rightarrow> codec \<Rightarrow> envelope \<Rightarrow> string \<Rightarrow> string \<Rightarrow> 'r world \<Rightarrow> 'r world" where
  "publishEvent_c R C env status msg w =
     (let ev = \<lparr>TaskID = EnvID env, EvType = EnvType env, EvStatus = status, EvWorkerID = '''',
            Message = msg, Timestamp = clk w\<rparr>;
          body = (case marshal_event C ev of Some b \<Rightarrow> b | None \<Rightarrow> '''')
      in snd (rcall (\<lambda>r. ((), PUBLISH R EventsChannel body r)) w))"

subsection \<open>Promotion\<close>

definition scanDelayedTypes ::
  "'r redis \<Rightarrow> nat \<Rightarrow> 'r world \<Rightarrow> ((err + string list) \<times> 'r world) option" where
  "scanDelayedTypes R fuel w =
     (case scan_loop R ''delayed:*'' fuel 0 w of
        None \<Rightarrow> None
      | Some (Inl e, w1) \<Rightarrow> Some (Inl e, w1)
      | Some (Inr ks, w1) \<Rightarrow> Some (Inr (remdups (map (drop (length ''delayed:'')) ks)), w1))"

fun promote_loop ::
  "'r redis \<Rightarrow> codec \<Rightarrow> string list \<Rightarrow> string list \<Rightarrow> 'r world \<Rightarrow> 'r world" where
  "promote_loop R C seen [] w = w"
| "promote_loop R C seen (t # ts) w =
     (if t \<in> set seen then promote_loop R C seen ts w
      else promote_loop R C (t # seen) ts (snd (PromoteDelayed R C t (clk w) w)))"

definition promoteDelayed :: "'r redis \<Rightarrow> codec \<Rightarrow> nat \<Rightarrow> 'r world \<Rightarrow> 'r world option" where
  "promoteDelayed R C fuel w =
     (case ListTypes R fuel w of
        None \<Rightarrow> None
      | Some (Inl e, w1) \<Rightarrow> Some w1
      | Some (Inr types, w1) \<Rightarrow>
          (case scanDelayedTypes R fuel w1 of
             None \<Rightarrow> None
           | Some (res, w2) \<Rightarrow>
               (let delayedTypes = (case res of Inl _ \<Rightarrow> [] | Inr ts \<Rightarrow> ts)
                in Some (promote_loop R C [] (types @ delayedTypes) w2))))"

subsection \<open>Reclaiming\<close>

definition reclaim_env ::
  "'r redis \<Rightarrow> codec \<Rightarrow> pg \<Rightarrow> string \<Rightarrow> envelope \<Rightarrow> 'r world \<Rightarrow> 'r world" where
  "reclaim_env R C Q wid env0 w =
     (let env = env0\<lparr>EnvAttempts := add64 (EnvAttempts env0) 1\<rparr>
      in if EnvAttempts env \<ge> EnvMaxAttempts env
         then (let w = snd (DeadLetter R C env ''worker died'' w);
                   w = snd (MarkDead Q (EnvID env) ''worker died mid-task'' w)
               in publishEvent_c R C env StatusDead ''worker died mid-task'' w)
         else (case Enqueue R C env w of
                 (Inl e, w1) \<Rightarrow> w1
               | (Inr _, w1) \<Rightarrow>
                   publishEvent_c R C env StatusQueued (''reassigned from dead worker '' @ wid) w1))"

fun reclaim_envs ::
  "'r redis \<Rightarrow> codec \<Rightarrow> pg \<Rightarrow> string \<Rightarrow> envelope list \<Rightarrow> 'r world \<Rightarrow> 'r world" where
  "reclaim_envs R C Q wid [] w = w"
| "reclaim_envs R C Q wid (env # envs) w = reclaim_envs R C Q wid envs (reclaim_env R C Q wid env w)"

definition reclaim_worker ::
  "'r redis \<Rightarrow> codec \<Rightarrow> pg \<Rightarrow> worker_row \<Rightarrow> 'r world \<Rightarrow> 'r world" where
  "reclaim_worker R C Q wr w =
     (if WkStatus wr = ''dead'' then w
      else case IsAlive R (WkID wr) w of
             (Inl e, w1) \<Rightarrow> w1
           | (Inr alive, w1) \<Rightarrow>
               if alive then w1
               else (case ReclaimInflight R C (WkID wr) w1 of
                       (Inl e, w2) \<Rightarrow> w2
                     | (Inr envs, w2) \<Rightarrow>
                         (let w3 = reclaim_envs R C Q (WkID wr) envs w2;
                              w4 = snd (RequeueOrphans Q [WkID wr] w3)
                          in snd (MarkWorkerDead Q (WkID wr) w4))))"

fun reclaim_workers ::
  "'r redis \<Rightarrow> codec \<Rightarrow> pg \<Rightarrow> worker_row list \<Rightarrow> 'r world \<Rightarrow> 'r world" where
  "reclaim_workers R C Q [] w = w"
| "reclaim_workers R C Q (wr # wrs) w = reclaim_workers R C Q wrs (reclaim_worker R C Q wr w)"

definition reclaimDead :: "'r redis \<Rightarrow> codec \<Rightarrow> pg \<Rightarrow> 'r world \<Rightarrow> 'r world" where
  "reclaimDead R C Q w =
     (case ListWorkers Q w of
        (Inl e, w1) \<Rightarrow> w1
      | (Inr wrs, w1) \<Rightarrow> reclaim_workers R C Q wrs w1)"

definition tick :: "'r redis \<Rightarrow> codec \<Rightarrow> pg \<Rightarrow> nat \<Rightarrow> 'r world \<Rightarrow> 'r world option" where
  "tick R C Q fuel w = map_option (reclaimDead R C Q) (promoteDelayed R C fuel w)"

subsection \<open>Frames\<close>

lemma publishEvent_c_frame [simp, frame]:
  "db (publishEvent_c R C env st msg w) = db w" "pok (publishEvent_c R C env st msg w) = pok w"
  "rok w \<Longrightarrow> rok (publishEvent_c R C env st msg w)"
  by (simp_all add: publishEvent_c_def Let_def)

lemma Enqueue_sndD: "Enqueue R C env w = (res, w1) \<Longrightarrow> w1 = snd (Enqueue R C env w)"
  by simp

lemma reclaim_env_alt:
  "reclaim_env R C Q wid env0 w =
     (let env = env0\<lparr>EnvAttempts := add64 (EnvAttempts env0) 1\<rparr>
      in if EnvAttempts env \<ge> EnvMaxAttempts env
         then publishEvent_c R C env StatusDead ''worker died mid-task''
           (snd (MarkDead Q (EnvID env) ''worker died mid-task'' (snd (DeadLetter R C env ''worker died'' w))))
         else if (\<exists>e. fst (Enqueue R C env w) = Inl e) then snd (Enqueue R C env w)
         else publishEvent_c R C env StatusQueued (''reassigned from dead worker '' @ wid) (snd (Enqueue R C env w)))"
  by (cases "Enqueue R C (env0\<lparr>EnvAttempts := add64 (EnvAttempts env0) 1\<rparr>) w")
    (auto simp: reclaim_env_def Let_def split: sum.splits)

context task_queue
begin

lemma publishEvent_c_pubs:
  "\<exists>ps. view R (rds (publishEvent_c R C env st msg w)) = (view R (rds w))\<lparr>pubs := ps\<rparr>"
proof -
  obtain b where eq: "publishEvent_c R C env st msg w = snd (rcall (\<lambda>r. ((), PUBLISH R EventsChannel b r)) w)"
    by (simp add: publishEvent_c_def Let_def)
  show ?thesis
    using rcall_rds [of "\<lambda>r. ((), PUBLISH R EventsChannel b r)" w]
  proof
    assume "rds (snd (rcall (\<lambda>r. ((), PUBLISH R EventsChannel b r)) w)) = rds w"
    then show ?thesis by (intro exI [of _ "pubs (view R (rds w))"]) (simp add: eq)
  qed (auto simp: eq)
qed

lemma publishEvent_c_structs [simp]:
  "zset (view R (rds (publishEvent_c R C env st msg w))) = zset (view R (rds w))"
  "hash (view R (rds (publishEvent_c R C env st msg w))) = hash (view R (rds w))"
  "rlist (view R (rds (publishEvent_c R C env st msg w))) = rlist (view R (rds w))"
  "strs (view R (rds (publishEvent_c R C env st msg w))) = strs (view R (rds w))"
  using publishEvent_c_pubs [of env st msg w] by auto

lemma publishEvent_c_inv:
  "queue_inv R C P (rds w) \<Longrightarrow> queue_inv R C P (rds (publishEvent_c R C env st msg w))"
  by (simp add: queue_inv_def)

end

subsection \<open>Nothing is lost while reclaiming\<close>

text \<open>What becomes of an envelope that was in flight for a dead worker.\<close>

definition reclaimed :: "'r redis \<Rightarrow> codec \<Rightarrow> 'r world \<Rightarrow> envelope \<Rightarrow> bool" where
  "reclaimed R C w e \<longleftrightarrow>
     (if add64 (EnvAttempts e) 1 \<ge> EnvMaxAttempts e
      then \<exists>ms body. marshal_dead C (e\<lparr>EnvAttempts := add64 (EnvAttempts e) 1\<rparr>) ''worker died'' ms = Some body \<and>
             body \<in> set (dlq R w (EnvType e))
      else \<exists>m e'. ready R w (EnvType e) m \<noteq> None \<and> unmarshal C m = Some e' \<and> EnvID e' = EnvID e \<and>
             EnvType e' = EnvType e \<and> EnvPriority e' = EnvPriority e \<and>
             EnvAttempts e' = add64 (EnvAttempts e) 1 \<and> EnvMaxAttempts e' = EnvMaxAttempts e)"

text \<open>Ready members and dead-letter records only come, and no delayed member changes.\<close>

definition grows :: "'r redis \<Rightarrow> 'r world \<Rightarrow> 'r world \<Rightarrow> bool" where
  "grows R w w' \<longleftrightarrow> (\<forall>t m. ready R w t m \<noteq> None \<longrightarrow> ready R w' t m \<noteq> None) \<and>
     (\<forall>t. set (dlq R w t) \<subseteq> set (dlq R w' t)) \<and> (\<forall>t. delayed R w' t = delayed R w t)"

lemma grows_refl [simp]: "grows R w w"
  by (simp add: grows_def)

lemma grows_trans: "grows R w w1 \<Longrightarrow> grows R w1 w2 \<Longrightarrow> grows R w w2"
  unfolding grows_def by (intro conjI allI impI) (blast, blast, simp)

lemma grows_same:
  "zset (view R (rds w')) = zset (view R (rds w)) \<Longrightarrow> rlist (view R (rds w')) = rlist (view R (rds w)) \<Longrightarrow>
   grows R w w'"
  by (simp add: grows_def)

lemma reclaimed_grows: "reclaimed R C w e \<Longrightarrow> grows R w w' \<Longrightarrow> reclaimed R C w' e"
proof (cases "add64 (EnvAttempts e) 1 \<ge> EnvMaxAttempts e")
  case True
  assume "reclaimed R C w e" "grows R w w'"
  with True show ?thesis unfolding reclaimed_def grows_def if_P [OF True] by blast
next
  case False
  assume "reclaimed R C w e" "grows R w w'"
  with False show ?thesis unfolding reclaimed_def grows_def if_not_P [OF False] by blast
qed

definition taken_back :: "'r redis \<Rightarrow> codec \<Rightarrow> 'r world \<Rightarrow> 'r world \<Rightarrow> string \<Rightarrow> bool" where
  "taken_back R C w w' wid \<longleftrightarrow> inflight R w' wid = Map.empty \<and>
     (\<forall>f v e. inflight R w wid f = Some v \<and> unmarshal C v = Some e \<longrightarrow> reclaimed R C w' e)"

definition handled :: "'r redis \<Rightarrow> codec \<Rightarrow> 'r world \<Rightarrow> 'r world \<Rightarrow> string \<Rightarrow> bool" where
  "handled R C w w' wid \<longleftrightarrow> inflight R w' wid = inflight R w wid \<or> taken_back R C w w' wid"

lemma handled_trans:
  assumes "handled R C w w1 wid" and "handled R C w1 w2 wid" and "grows R w1 w2"
  shows "handled R C w w2 wid"
  using assms reclaimed_grows [OF _ assms(3)]
  unfolding handled_def taken_back_def by (metis (no_types, lifting))

lemma taken_back_handled:
  assumes "taken_back R C w w1 wid" and "handled R C w1 w2 wid" and "grows R w1 w2"
  shows "taken_back R C w w2 wid"
  using assms reclaimed_grows [OF _ assms(3)] unfolding handled_def taken_back_def by metis

lemma handled_taken_back:
  assumes "handled R C w w1 wid" and "taken_back R C w1 w2 wid" and "grows R w1 w2"
  shows "taken_back R C w w2 wid"
  using assms reclaimed_grows [OF _ assms(3)] unfolding handled_def taken_back_def by metis

lemma clock_range:
  "0 \<le> clk w \<Longrightarrow> clk w \<le> clk w' \<Longrightarrow> int64_range (UnixMilli (clk w')) \<Longrightarrow> int64_range (UnixMilli (clk w))"
  using zdiv_mono1 [of "clk w" "clk w'" 1000000] by (auto simp: int64_range_def UnixMilli_def)

lemma publishEvent_c_clk: "clk w \<le> clk (publishEvent_c R C env st msg w)"
  by (simp add: publishEvent_c_def Let_def rcall_clk)

lemma reclaim_env_clk: "clk w \<le> clk (reclaim_env R C Q wid env w)"
  by (auto simp: reclaim_env_alt Let_def intro: order_trans [OF queue_clk(1) publishEvent_c_clk] queue_clk(1)
      order_trans [OF order_trans [OF queue_clk(6) MarkDead_clk] publishEvent_c_clk])

lemma reclaim_envs_clk: "clk w \<le> clk (reclaim_envs R C Q wid envs w)"
  by (induction envs arbitrary: w) (auto intro: order_trans [OF reclaim_env_clk])

lemma reclaim_env_rok [simp]: "rok w \<Longrightarrow> rok (reclaim_env R C Q wid env w)"
  by (simp add: reclaim_env_alt Let_def)

lemma reclaim_envs_rok [simp]: "rok w \<Longrightarrow> rok (reclaim_envs R C Q wid envs w)"
  by (induction envs arbitrary: w) simp_all

lemma reclaim_worker_clk: "clk w \<le> clk (reclaim_worker R C Q wr w)"
proof -
  have a: "clk w \<le> clk w1" if "IsAlive R wk w = (x, w1)" for wk x w1
    using queue_clk2(1) [of w R wk] that by simp
  have r: "clk w1 \<le> clk w2" if "ReclaimInflight R C wk w1 = (x, w2)" for wk x w1 w2
    using queue_clk2(2) [of w1 R C wk] that by simp
  have b: "clk w2 \<le> clk (snd (MarkWorkerDead Q wk (snd (RequeueOrphans Q wks (reclaim_envs R C Q wk envs w2)))))"
    for wk wks envs w2
    by (rule order_trans [OF order_trans [OF reclaim_envs_clk RequeueOrphans_clk] store_clk(1)])
  show ?thesis
    by (auto simp: reclaim_worker_def Let_def split: prod.splits sum.splits
        dest: a intro: order_trans [OF a r] order_trans [OF order_trans [OF a r] b])
qed

lemma reclaim_worker_rok [simp]: "rok w \<Longrightarrow> rok (reclaim_worker R C Q wr w)"
proof -
  assume ok: "rok w"
  have a: "rok w1" if "IsAlive R wk w = (x, w1)" for wk x w1
    using queue_rok2(1) [OF ok, of R wk] that by simp
  have r: "rok w2" if "ReclaimInflight R C wk w1 = (x, w2)" "rok w1" for wk x w1 w2
    using queue_rok2(2) [OF that(2), of R C wk] that(1) by simp
  show ?thesis
    using ok by (auto simp: reclaim_worker_def Let_def split: prod.splits sum.splits dest: a r)
qed

lemma reclaim_workers_clk: "clk w \<le> clk (reclaim_workers R C Q wrs w)"
  by (induction wrs arbitrary: w) (auto intro: order_trans [OF reclaim_worker_clk])

context task_queue
begin

lemma Enqueue_grows: "grows R w (snd (Enqueue R C env w))"
proof -
  let ?e = "if EnqueuedAt env = 0 then env\<lparr>EnqueuedAt := UnixMilli (clk w)\<rparr> else env"
  show ?thesis
  proof (cases "marshal C ?e")
    case (Some body)
    let ?f = "\<lambda>r. ((), ZADD R (QueueKey (EnvType ?e)) (priorityScore (EnvPriority ?e) (EnqueuedAt ?e)) body r)"
    have "snd (Enqueue R C env w) = snd (rcall ?f w)" by (simp add: Enqueue_def Let_def Some)
    then show ?thesis using rcall_rds [of ?f w] by (auto simp: grows_def)
  qed (simp add: Enqueue_def Let_def)
qed

lemma DeadLetter_grows: "grows R w (snd (DeadLetter R C env reason w))"
proof (cases "marshal_dead C env reason (UnixMilli (clk w))")
  case (Some body)
  let ?f = "\<lambda>r. ((), RPUSH R (DLQKey (EnvType env)) body r)"
  have "snd (DeadLetter R C env reason w) = snd (rcall ?f w)" by (simp add: DeadLetter_def Some)
  then show ?thesis using rcall_rds [of ?f w] by (auto simp: grows_def)
qed (simp add: DeadLetter_def)

lemma publishEvent_c_grows: "grows R w (publishEvent_c R C env st msg w)"
  by (rule grows_same) simp_all

lemma MarkDead_grows: "grows R w (snd (MarkDead Q i msg w))"
  by (rule grows_same) simp_all

lemma reclaim_env_grows: "grows R w (reclaim_env R C Q wid env w)"
  by (auto simp: reclaim_env_alt Let_def intro: Enqueue_grows
      grows_trans [OF Enqueue_grows publishEvent_c_grows]
      grows_trans [OF grows_trans [OF DeadLetter_grows MarkDead_grows] publishEvent_c_grows])

lemma reclaim_envs_grows: "grows R w (reclaim_envs R C Q wid envs w)"
  by (induction envs arbitrary: w) (auto intro: grows_trans [OF reclaim_env_grows])

text \<open>Which part of the keyspace the two commands write to, whatever the network does.\<close>

lemma Enqueue_zset:
  "\<exists>z. view R (rds (snd (Enqueue R C env w))) = (view R (rds w))\<lparr>zset := z\<rparr>"
proof -
  let ?e = "if EnqueuedAt env = 0 then env\<lparr>EnqueuedAt := UnixMilli (clk w)\<rparr> else env"
  have triv: "\<exists>z. view R (rds w) = (view R (rds w))\<lparr>zset := z\<rparr>"
    by (intro exI [of _ "zset (view R (rds w))"]) simp
  show ?thesis
  proof (cases "marshal C ?e")
    case (Some body)
    let ?f = "\<lambda>r. ((), ZADD R (QueueKey (EnvType ?e)) (priorityScore (EnvPriority ?e) (EnqueuedAt ?e)) body r)"
    have "snd (Enqueue R C env w) = snd (rcall ?f w)" by (simp add: Enqueue_def Let_def Some)
    then show ?thesis using rcall_rds [of ?f w] triv by auto
  qed (use triv in \<open>simp add: Enqueue_def Let_def\<close>)
qed

lemma DeadLetter_rlist:
  "\<exists>l. view R (rds (snd (DeadLetter R C env reason w))) = (view R (rds w))\<lparr>rlist := l\<rparr>"
proof -
  have triv: "\<exists>l. view R (rds w) = (view R (rds w))\<lparr>rlist := l\<rparr>"
    by (intro exI [of _ "rlist (view R (rds w))"]) simp
  show ?thesis
  proof (cases "marshal_dead C env reason (UnixMilli (clk w))")
    case (Some body)
    let ?f = "\<lambda>r. ((), RPUSH R (DLQKey (EnvType env)) body r)"
    have "snd (DeadLetter R C env reason w) = snd (rcall ?f w)" by (simp add: DeadLetter_def Some)
    then show ?thesis using rcall_rds [of ?f w] triv by auto
  qed (use triv in \<open>simp add: DeadLetter_def\<close>)
qed

lemma Enqueue_structs [simp]:
  "hash (view R (rds (snd (Enqueue R C env w)))) = hash (view R (rds w))"
  "strs (view R (rds (snd (Enqueue R C env w)))) = strs (view R (rds w))"
  "rlist (view R (rds (snd (Enqueue R C env w)))) = rlist (view R (rds w))"
  using Enqueue_zset [of env w] by auto

lemma DeadLetter_structs [simp]:
  "hash (view R (rds (snd (DeadLetter R C env reason w)))) = hash (view R (rds w))"
  "strs (view R (rds (snd (DeadLetter R C env reason w)))) = strs (view R (rds w))"
  "zset (view R (rds (snd (DeadLetter R C env reason w)))) = zset (view R (rds w))"
  using DeadLetter_rlist [of env reason w] by auto

lemma reclaim_env_structs [simp]:
  "hash (view R (rds (reclaim_env R C Q wid env w))) = hash (view R (rds w))"
  "strs (view R (rds (reclaim_env R C Q wid env w))) = strs (view R (rds w))"
  by (simp_all add: reclaim_env_alt Let_def)

lemma reclaim_envs_structs [simp]:
  "hash (view R (rds (reclaim_envs R C Q wid envs w))) = hash (view R (rds w))"
  "strs (view R (rds (reclaim_envs R C Q wid envs w))) = strs (view R (rds w))"
  by (induction envs arbitrary: w) simp_all

text \<open>Over a network that delivers, a reclaimed envelope is ready again or dead-lettered.\<close>

lemma reclaim_env_reclaimed:
  assumes "rok w" and "env_wf C env" and "int64_range (UnixMilli (clk w))"
  shows "reclaimed R C (reclaim_env R C Q wid env w) env"
proof -
  define env1 where "env1 = env\<lparr>EnvAttempts := add64 (EnvAttempts env) 1\<rparr>"
  have e1: "EnvType env1 = EnvType env" "EnvID env1 = EnvID env" "EnvMaxAttempts env1 = EnvMaxAttempts env"
    "EnvAttempts env1 = add64 (EnvAttempts env) 1" "EnvPriority env1 = EnvPriority env"
    "raw_ok C (EnvPayload env1)"
    using assms(2) by (simp_all add: env1_def env_wf_def)
  show ?thesis
  proof (cases "add64 (EnvAttempts env) 1 \<ge> EnvMaxAttempts env")
    case True
    let ?d = "snd (DeadLetter R C env1 ''worker died'' w)"
    from DeadLetter_view [OF assms(1) e1(6), of "''worker died''"] obtain body
      where "marshal_dead C env1 ''worker died'' (UnixMilli (clk w)) = Some body"
        and "view R (rds ?d) = (view R (rds w))\<lparr>rlist := (rlist (view R (rds w)))
          (DLQKey (EnvType env1) := dlq R w (EnvType env1) @ [body])\<rparr>" by blast
    with True e1 have "reclaimed R C ?d env" by (auto simp: reclaimed_def env1_def)
    moreover have "reclaim_env R C Q wid env w = publishEvent_c R C env1 StatusDead ''worker died mid-task''
        (snd (MarkDead Q (EnvID env1) ''worker died mid-task'' ?d))"
      using True by (simp add: reclaim_env_alt Let_def env1_def)
    ultimately show ?thesis
      by (auto intro!: reclaimed_grows [OF _ grows_trans [OF MarkDead_grows publishEvent_c_grows]])
  next
    case False
    let ?e = "if EnqueuedAt env1 = 0 then env1\<lparr>EnqueuedAt := UnixMilli (clk w)\<rparr> else env1"
    have "env_wf C ?e" using assms(2,3) by (simp add: env_wf_def env1_def add64_def wrap64_range)
    then obtain m where m: "marshal C ?e = Some m" "written C m (compacted C ?e)" by (rule marshal_wf)
    note E = Enqueue_view [OF assms(1) m(1)]
    have "reclaimed R C (snd (Enqueue R C env1 w)) env"
      using False e1 writtenD(1) [OF m(2)]
      by (auto simp: reclaimed_def E(2) intro!: exI [of _ m])
    moreover have "reclaim_env R C Q wid env w =
        publishEvent_c R C env1 StatusQueued (''reassigned from dead worker '' @ wid) (snd (Enqueue R C env1 w))"
      using False E(1) by (simp add: reclaim_env_alt Let_def env1_def)
    ultimately show ?thesis by (auto intro: reclaimed_grows [OF _ publishEvent_c_grows])
  qed
qed

lemma reclaim_envs_reclaimed:
  assumes "rok w" and "\<forall>e\<in>set envs. env_wf C e" and "0 \<le> clk w"
    and "int64_range (UnixMilli (clk (reclaim_envs R C Q wid envs w)))" and "e \<in> set envs"
  shows "reclaimed R C (reclaim_envs R C Q wid envs w) e"
  using assms
proof (induction envs arbitrary: w)
  case (Cons env envs)
  let ?w1 = "reclaim_env R C Q wid env w"
  have c: "clk w \<le> clk ?w1" by (rule reclaim_env_clk)
  show ?case
  proof (cases "e = env")
    case True
    have "int64_range (UnixMilli (clk w))"
      by (rule clock_range [OF Cons.prems(3) reclaim_envs_clk Cons.prems(4)])
    with Cons.prems have "reclaimed R C ?w1 env" by (intro reclaim_env_reclaimed) simp_all
    with True show ?thesis by (auto intro: reclaimed_grows [OF _ reclaim_envs_grows])
  next
    case False
    with Cons.prems c show ?thesis by (auto intro!: Cons.IH)
  qed
qed simp

end

context task_queue
begin

lemma reclaim_env_inv:
  assumes "queue_inv R C live (rds w)" and "env_wf C env" and "int64_range (UnixMilli (clk w))"
  shows "queue_inv R C live (rds (reclaim_env R C Q wid env w))"
proof -
  let ?env = "env\<lparr>EnvAttempts := add64 (EnvAttempts env) 1\<rparr>"
  have wf: "env_wf C ?env" using assms(2) by (simp add: env_wf_def add64_def wrap64_range)
  have "queue_inv R C live (rds (snd (Enqueue R C ?env w)))" if "live ?env"
    by (rule Enqueue_inv [OF assms(1) live_cond that wf assms(3)])
  then show ?thesis
    using DeadLetter_inv [OF assms(1)]
    by (auto simp: reclaim_env_alt Let_def live_def intro!: publishEvent_c_inv)
qed

lemma reclaim_envs_inv:
  assumes "queue_inv R C live (rds w)" and "\<forall>e\<in>set envs. env_wf C e" and "0 \<le> clk w"
    and "int64_range (UnixMilli (clk (reclaim_envs R C Q wid envs w)))"
  shows "queue_inv R C live (rds (reclaim_envs R C Q wid envs w))"
  using assms
proof (induction envs arbitrary: w)
  case (Cons env envs)
  have "int64_range (UnixMilli (clk w))"
    by (rule clock_range [OF Cons.prems(3) reclaim_envs_clk Cons.prems(4)])
  with Cons.prems have "queue_inv R C live (rds (reclaim_env R C Q wid env w))"
    by (intro reclaim_env_inv) simp_all
  with Cons.prems show ?case using reclaim_env_clk [of w R C Q wid env] by (auto intro!: Cons.IH)
qed simp

lemma ReclaimInflight_wf:
  assumes "queue_inv R C P (rds w)" and "fst (ReclaimInflight R C wk w) = Inr envs"
  shows "\<forall>e\<in>set envs. env_wf C e \<and> P e"
proof -
  let ?c = "rcall (\<lambda>r. (HGETALL R (InflightKey wk) r, r)) w"
  have h: "distinct (map fst (HGETALL R (InflightKey wk) (rds w)))"
    "map_of (HGETALL R (InflightKey wk) (rds w)) = inflight R w wk"
    using HGETALL_map [of "InflightKey wk" "rds w"] by simp_all
  obtain all w1 where c: "?c = (Inr all, w1)" and envs: "envs = List.map_filter (\<lambda>(f, v). unmarshal C v) all"
    using assms(2) by (cases ?c) (auto simp: ReclaimInflight_def Let_def split: sum.splits)
  have all: "all = HGETALL R (InflightKey wk) (rds w)" using rcall_readInr [OF c] by simp
  show ?thesis
  proof
    fix e assume "e \<in> set envs"
    then obtain f v where fv: "(f, v) \<in> set all" "unmarshal C v = Some e"
      unfolding envs set_map_filter by auto
    then have "inflight R w wk f = Some v" using h map_of_is_SomeI [OF h(1)] all by fastforce
    from inflight_decodes [OF assms(1) this] obtain e' where "written C v e'" "P e'" by blast
    with fv(2) writtenD [OF this(1)] show "env_wf C e \<and> P e" by simp
  qed
qed

text \<open>One worker of the list, over a network that delivers to Redis and any other network.\<close>

lemma reclaim_worker_effect:
  fixes w wr Q
  defines "w' \<equiv> reclaim_worker R C Q wr w"
  assumes "rok w" and "queue_inv R C live (rds w)" and "0 \<le> clk w" and "int64_range (UnixMilli (clk w'))"
  shows "queue_inv R C live (rds w')" and "grows R w w'"
    and "strs (view R (rds w')) = strs (view R (rds w))" and "handled R C w w' wid"
    and "WkStatus wr \<noteq> ''dead'' \<Longrightarrow>
      \<not> key_alive (UnixMilli (clk w)) (strs (view R (rds w)) (HeartbeatKey (WkID wr))) \<Longrightarrow>
      taken_back R C w w' (WkID wr)"
proof -
  let ?id = "WkID wr"
  let ?alive = "key_alive (UnixMilli (clk w)) (strs (view R (rds w)) (HeartbeatKey ?id))"
  obtain w1 where a: "IsAlive R ?id w = (Inr ?alive, w1)"
    using IsAlive_result [OF assms(2), of ?id] by (cases "IsAlive R ?id w") simp
  have w1: "rds w1 = rds w" "rok w1" "clk w \<le> clk w1"
    using IsAlive_rds [of ?id w] queue_rok2(1) [OF assms(2), of R ?id] queue_clk2(1) [of w R ?id]
    unfolding a by simp_all
  have all: "queue_inv R C live (rds w') \<and> grows R w w' \<and> strs (view R (rds w')) = strs (view R (rds w)) \<and>
      handled R C w w' wid \<and> (WkStatus wr \<noteq> ''dead'' \<longrightarrow> \<not> ?alive \<longrightarrow> taken_back R C w w' ?id)"
  proof (cases "WkStatus wr = ''dead'' \<or> ?alive")
    case True
    have w': "w' = w \<or> w' = w1"
    proof (cases "WkStatus wr = ''dead''")
      case False
      with True have "?alive = True" by simp
      with a False have "reclaim_worker R C Q wr w = w1" by (simp only: reclaim_worker_def if_False prod.case sum.case if_True)
      then show ?thesis by (simp add: w'_def)
    qed (simp add: w'_def reclaim_worker_def)
    then have "rds w' = rds w" using w1(1) by auto
    then show ?thesis
      using True assms(3) by (auto simp: handled_def intro: grows_same)
  next
    case False
    have inv1: "queue_inv R C live (rds w1)" using assms(3) w1(1) by simp
    obtain envs w2 where rc: "ReclaimInflight R C ?id w1 = (Inr envs, w2)"
      and envs: "set envs = {e. \<exists>f v. inflight R w1 ?id f = Some v \<and> unmarshal C v = Some e}"
      using ReclaimInflight_view(1) [OF w1(2) inv1, of ?id] by (cases "ReclaimInflight R C ?id w1") auto
    have v2: "view R (rds w2) = (view R (rds w))\<lparr>hash := (hash (view R (rds w)))(InflightKey ?id := Map.empty)\<rparr>"
      using ReclaimInflight_view(2) [OF w1(2) inv1, of ?id] w1(1) by (simp add: rc)
    let ?w3 = "reclaim_envs R C Q ?id envs w2"
    have w': "w' = snd (MarkWorkerDead Q ?id (snd (RequeueOrphans Q [?id] ?w3)))"
      using False by (simp add: w'_def reclaim_worker_def a rc)
    have rds': "rds w' = rds ?w3" by (simp add: w')
    have c2: "0 \<le> clk w2" using assms(4) w1(3) queue_clk2(2) [of w1 R C ?id] unfolding rc by simp
    have c3: "clk ?w3 \<le> clk w'" unfolding w' by (rule order_trans [OF RequeueOrphans_clk store_clk(1)])
    have "0 \<le> clk ?w3" by (rule order_trans [OF c2 reclaim_envs_clk])
    from clock_range [OF this c3 assms(5)] have r3: "int64_range (UnixMilli (clk ?w3))" .
    have wf: "\<forall>e\<in>set envs. env_wf C e" using ReclaimInflight_wf [OF inv1, of ?id envs] by (simp add: rc)
    have ok2: "rok w2" using queue_rok2(2) [OF w1(2), of R C ?id] by (simp add: rc)
    have inv2: "queue_inv R C live (rds w2)" using ReclaimInflight_inv [OF inv1, of ?id] by (simp add: rc)
    have i: "queue_inv R C live (rds w')"
      unfolding rds' by (rule reclaim_envs_inv [OF inv2 wf c2 r3])
    have g: "grows R w2 w'"
      by (rule grows_trans [OF reclaim_envs_grows grows_same]) (simp_all add: rds')
    have g0: "grows R w w2" by (rule grows_same) (simp_all add: v2)
    have s: "strs (view R (rds w')) = strs (view R (rds w))" by (simp add: rds' v2)
    have h: "hash (view R (rds w')) = (hash (view R (rds w)))(InflightKey ?id := Map.empty)"
      by (simp add: rds' v2)
    have "reclaimed R C w' e" if "inflight R w ?id f = Some v" "unmarshal C v = Some e" for f v e
    proof -
      have "e \<in> set envs" using that envs w1(1) by auto
      from reclaim_envs_reclaimed [OF ok2 wf c2 r3 this] show ?thesis
        by (rule reclaimed_grows) (simp add: grows_same rds')
    qed
    then have t: "taken_back R C w w' ?id" by (auto simp: taken_back_def h)
    have hd: "handled R C w w' wid"
      by (cases "wid = ?id") (use t in \<open>simp_all add: handled_def h\<close>)
    show ?thesis
      using i grows_trans [OF g0 g] s hd t by simp
  qed
  show "queue_inv R C live (rds w')" and "grows R w w'"
    and "strs (view R (rds w')) = strs (view R (rds w))" and "handled R C w w' wid"
    and "WkStatus wr \<noteq> ''dead'' \<Longrightarrow> \<not> ?alive \<Longrightarrow> taken_back R C w w' ?id"
    using all by blast+
qed

lemma reclaim_workers_effect:
  assumes "rok w" and "queue_inv R C live (rds w)" and "0 \<le> clk w"
    and "int64_range (UnixMilli (clk (reclaim_workers R C Q wrs w)))"
  shows "queue_inv R C live (rds (reclaim_workers R C Q wrs w)) \<and> grows R w (reclaim_workers R C Q wrs w) \<and>
    handled R C w (reclaim_workers R C Q wrs w) wid \<and>
    (\<forall>wr\<in>set wrs. WkStatus wr \<noteq> ''dead'' \<and>
       \<not> key_alive (UnixMilli (clk w)) (strs (view R (rds w)) (HeartbeatKey (WkID wr))) \<longrightarrow>
       taken_back R C w (reclaim_workers R C Q wrs w) (WkID wr))"
  using assms
proof (induction wrs arbitrary: w wid)
  case Nil
  then show ?case by (simp add: handled_def)
next
  case (Cons wr wrs)
  let ?w1 = "reclaim_worker R C Q wr w"
  let ?w2 = "reclaim_workers R C Q wrs ?w1"
  have c1: "0 \<le> clk ?w1" using order_trans [OF Cons.prems(3) reclaim_worker_clk] .
  have r2: "int64_range (UnixMilli (clk ?w2))" using Cons.prems(4) by simp
  have r1: "int64_range (UnixMilli (clk ?w1))" by (rule clock_range [OF c1 reclaim_workers_clk r2])
  note E = reclaim_worker_effect [OF Cons.prems(1-3) r1]
  have ok: "rok ?w1" using Cons.prems(1) by simp
  note IH = Cons.IH [OF ok E(1) c1 r2]
  have later: "\<not> key_alive (UnixMilli (clk ?w1)) x" if "\<not> key_alive (UnixMilli (clk w)) x" for x
    using that zdiv_mono1 [OF reclaim_worker_clk [of w R C Q wr], of 1000000]
    by (auto simp: key_alive_def UnixMilli_def split: option.splits)
  have "taken_back R C w ?w2 (WkID wr')"
    if "wr' \<in> set (wr # wrs)" "WkStatus wr' \<noteq> ''dead''"
      "\<not> key_alive (UnixMilli (clk w)) (strs (view R (rds w)) (HeartbeatKey (WkID wr')))" for wr'
  proof (cases "wr' = wr")
    case True
    with that E(5) have "taken_back R C w ?w1 (WkID wr')" by simp
    with IH show ?thesis by (blast intro: taken_back_handled)
  next
    case False
    with that IH later have "taken_back R C ?w1 ?w2 (WkID wr')" by (simp add: E(3))
    with IH E(4) show ?thesis by (blast intro: handled_taken_back)
  qed
  moreover have "handled R C w ?w2 wid" using IH E(4) by (blast intro: handled_trans)
  ultimately show ?case using IH E(2) by (auto intro: grows_trans)
qed

end

subsection \<open>Everything due is promoted\<close>

lemma promote_loop_clk: "clk w \<le> clk (promote_loop R C seen ts w)"
  by (induction ts arbitrary: seen w) (auto intro: order_trans [OF queue_clk2(3)])

lemma scan_loop_mono:
  "scan_loop R pat n c w = Some (res, w1) \<Longrightarrow> clk w \<le> clk w1 \<and> (rok w \<longrightarrow> rok w1)"
proof (induction n arbitrary: c w res w1)
  case (Suc n)
  obtain a w0 where r: "rcall (\<lambda>r. (SCAN R c pat 100 r, r)) w = (a, w0)" by fastforce
  have 0: "clk w \<le> clk w0" "rok w \<Longrightarrow> rok w0" using rcall_clkD [OF r] rcall_okD [OF r] by auto
  show ?case
  proof (cases a)
    case (Inl e)
    with Suc.prems r 0 show ?thesis by auto
  next
    case (Inr p)
    obtain ks c' where p: "p = (ks, c')" by fastforce
    show ?thesis
    proof (cases "c' = 0")
      case True
      with Suc.prems r Inr p 0 show ?thesis by auto
    next
      case False
      with Suc.prems r Inr p obtain res' where "scan_loop R pat n c' w0 = Some (res', w1)"
        by (auto split: option.splits prod.splits sum.splits)
      from Suc.IH [OF this] 0 show ?thesis by auto
    qed
  qed
qed simp

text \<open>The members of a type that are due at the start leave the delayed set and become ready.\<close>

definition all_promoted :: "'r redis \<Rightarrow> codec \<Rightarrow> string \<Rightarrow> 'r world \<Rightarrow> 'r world \<Rightarrow> bool" where
  "all_promoted R C t w w' \<longleftrightarrow>
     (\<forall>m s. delayed R w t m = Some s \<and> s \<le> f64 (UnixMilli (clk w)) \<longrightarrow>
        delayed R w' t m = None \<and>
        (\<exists>n\<ge>UnixMilli (clk w). ready R w' t (the (marshal C (promoted C n m))) \<noteq> None))"

lemma all_promoted_keep:
  assumes "all_promoted R C t w w1" and "delayed R w2 t = delayed R w1 t"
    and "\<And>m. ready R w1 t m \<noteq> None \<Longrightarrow> ready R w2 t m \<noteq> None"
  shows "all_promoted R C t w w2"
  unfolding all_promoted_def
proof (intro allI impI conjI)
  fix m s assume m: "delayed R w t m = Some s \<and> s \<le> f64 (UnixMilli (clk w))"
  with assms(1) have d: "delayed R w1 t m = None" unfolding all_promoted_def by blast
  from m assms(1) obtain n where n: "UnixMilli (clk w) \<le> n"
    "ready R w1 t (the (marshal C (promoted C n m))) \<noteq> None" unfolding all_promoted_def by blast
  show "delayed R w2 t m = None" unfolding assms(2) by (rule d)
  show "\<exists>n\<ge>UnixMilli (clk w). ready R w2 t (the (marshal C (promoted C n m))) \<noteq> None"
    using n(1) assms(3) [OF n(2)] by blast
qed

lemma all_promoted_later:
  assumes "all_promoted R C t w1 w2" and "delayed R w1 t = delayed R w t" and "clk w \<le> clk w1"
  shows "all_promoted R C t w w2"
  unfolding all_promoted_def
proof (intro allI impI)
  have ms: "f64 (UnixMilli (clk w)) \<le> f64 (UnixMilli (clk w1))" "UnixMilli (clk w) \<le> UnixMilli (clk w1)"
    using zdiv_mono1 [OF assms(3), of 1000000] by (auto simp: UnixMilli_def intro: f64_mono)
  fix m s assume m: "delayed R w t m = Some s \<and> s \<le> f64 (UnixMilli (clk w))"
  with ms(1) have "delayed R w1 t m = Some s" "s \<le> f64 (UnixMilli (clk w1))"
    unfolding assms(2) by auto
  with assms(1) have d: "delayed R w2 t m = None"
    and "\<exists>n\<ge>UnixMilli (clk w1). ready R w2 t (the (marshal C (promoted C n m))) \<noteq> None"
    unfolding all_promoted_def by blast+
  with ms(2) show "delayed R w2 t m = None \<and>
      (\<exists>n\<ge>UnixMilli (clk w). ready R w2 t (the (marshal C (promoted C n m))) \<noteq> None)"
    by (blast intro: order_trans)
qed

context task_queue
begin

lemma PromoteDelayed_all:
  assumes "rok w" and "queue_inv R C P (rds w)" and "int64_range (UnixMilli (clk w))"
    and "card (dom (delayed R w t)) \<le> 256"
  shows "all_promoted R C t w (snd (PromoteDelayed R C t (clk w) w))"
proof -
  let ?due = "{m. \<exists>s\<le>f64 (UnixMilli (clk w)). delayed R w t m = Some s}"
  obtain ms where ms: "distinct ms" "set ms \<subseteq> ?due" "length ms = min 256 (card ?due)"
    and v: "view R (rds (snd (PromoteDelayed R C t (clk w) w))) = (view R (rds w))\<lparr>zset :=
      (zset (view R (rds w)))(DelayedKey t := delayed R w t |` (- set ms),
        QueueKey t := (ready R w t)
          (map (\<lambda>m. the (marshal C (promoted C (UnixMilli (clk w)) m))) ms [\<mapsto>]
           map (\<lambda>m. priorityScore (EnvPriority (promoted C (UnixMilli (clk w)) m)) (UnixMilli (clk w))) ms))\<rparr>"
    using PromoteDelayed_view [OF assms(1-3), of t] by blast
  have fin: "finite (dom (delayed R w t))" by (rule finite_zset)
  have sub: "?due \<subseteq> dom (delayed R w t)" by auto
  have "card ?due \<le> 256" using card_mono [OF fin sub] assms(4) by simp
  then have "card (set ms) = card ?due" using ms(1,3) by (simp add: distinct_card)
  with card_subset_eq [OF finite_subset [OF sub fin] ms(2)] have due: "set ms = ?due" by simp
  have upd: "(r(map b ms [\<mapsto>] map sc ms)) (b m) \<noteq> None" if "m \<in> set ms" for r b sc m
    using that by (auto simp: dom_map_upds simp del: not_None_eq simp flip: domIff)
  show "all_promoted R C t w (snd (PromoteDelayed R C t (clk w) w))"
    unfolding all_promoted_def v using due upd by (fastforce simp: restrict_map_def)
qed

lemma PromoteDelayed_other:
  assumes "rok w" and "queue_inv R C P (rds w)" and "int64_range (UnixMilli now)"
  shows "t' \<noteq> t \<Longrightarrow> delayed R (snd (PromoteDelayed R C t now w)) t' = delayed R w t'"
    and "ready R w t' m \<noteq> None \<Longrightarrow> ready R (snd (PromoteDelayed R C t now w)) t' m \<noteq> None"
proof -
  obtain z and ms :: "string list" and bs ss where
    v: "view R (rds (snd (PromoteDelayed R C t now w))) = (view R (rds w))\<lparr>zset :=
      (zset (view R (rds w)))(DelayedKey t := z, QueueKey t := (ready R w t)(map bs ms [\<mapsto>] map ss ms))\<rparr>"
    using PromoteDelayed_view [OF assms, of t] by blast
  show "t' \<noteq> t \<Longrightarrow> delayed R (snd (PromoteDelayed R C t now w)) t' = delayed R w t'"
    by (simp add: v)
  show "ready R w t' m \<noteq> None \<Longrightarrow> ready R (snd (PromoteDelayed R C t now w)) t' m \<noteq> None"
    by (auto simp: v dom_map_upds simp del: not_None_eq simp flip: domIff)
qed

lemma promote_loop_all:
  assumes "rok w" and "queue_inv R C P (rds w)" and "task_cond P" and "0 \<le> clk w"
    and "int64_range (UnixMilli (clk (promote_loop R C seen ts w)))"
  shows "(t \<in> set ts \<and> t \<notin> set seen \<and> card (dom (delayed R w t)) \<le> 256 \<longrightarrow>
      all_promoted R C t w (promote_loop R C seen ts w)) \<and>
    (t \<in> set seen \<longrightarrow> delayed R (promote_loop R C seen ts w) t = delayed R w t) \<and>
    (\<forall>m. ready R w t m \<noteq> None \<longrightarrow> ready R (promote_loop R C seen ts w) t m \<noteq> None)"
  using assms
proof (induction ts arbitrary: seen w)
  case (Cons t0 ts)
  show ?case
  proof (cases "t0 \<in> set seen")
    case True
    with Cons.IH [of w seen] Cons.prems show ?thesis by auto
  next
    case False
    let ?w1 = "snd (PromoteDelayed R C t0 (clk w) w)"
    let ?w2 = "promote_loop R C (t0 # seen) ts ?w1"
    have eq: "promote_loop R C seen (t0 # ts) w = ?w2" using False by simp
    have c1: "clk w \<le> clk ?w1" by (rule queue_clk2(3))
    have r: "int64_range (UnixMilli (clk ?w2))" using Cons.prems(5) unfolding eq .
    have r0: "int64_range (UnixMilli (clk w))"
      by (rule clock_range [OF Cons.prems(4) order_trans [OF c1 promote_loop_clk] r])
    have inv1: "queue_inv R C P (rds ?w1)" by (rule PromoteDelayed_inv [OF Cons.prems(2,3) r0])
    note other = PromoteDelayed_other [OF Cons.prems(1,2) r0, where t = t0]
    have IH: "(t \<in> set ts \<and> t \<notin> set (t0 # seen) \<and> card (dom (delayed R ?w1 t)) \<le> 256 \<longrightarrow>
        all_promoted R C t ?w1 ?w2) \<and>
      (t \<in> set (t0 # seen) \<longrightarrow> delayed R ?w2 t = delayed R ?w1 t) \<and>
      (\<forall>m. ready R ?w1 t m \<noteq> None \<longrightarrow> ready R ?w2 t m \<noteq> None)"
      by (rule Cons.IH) (use Cons.prems inv1 r c1 in auto)
    have "all_promoted R C t w ?w2"
      if "t \<in> set (t0 # ts)" "t \<notin> set seen" "card (dom (delayed R w t)) \<le> 256"
    proof (cases "t = t0")
      case True
      with PromoteDelayed_all [OF Cons.prems(1,2) r0, of t0] that(3)
      have "all_promoted R C t w ?w1" by simp
      moreover have "delayed R ?w2 t = delayed R ?w1 t" "\<And>m. ready R ?w1 t m \<noteq> None \<Longrightarrow> ready R ?w2 t m \<noteq> None"
        using IH True by auto
      ultimately show ?thesis by (rule all_promoted_keep)
    next
      case False
      with that IH other(1) [of t] have "all_promoted R C t ?w1 ?w2" by simp
      then show ?thesis using other(1) [OF False] c1 by (rule all_promoted_later)
    qed
    moreover have "delayed R ?w2 t = delayed R w t" if "t \<in> set seen"
      using IH other(1) [of t] that False by auto
    moreover have "ready R w t m \<noteq> None \<Longrightarrow> ready R ?w2 t m \<noteq> None" for m
      using IH other(2) [of t m] by blast
    ultimately show ?thesis unfolding eq by blast
  qed
qed simp

lemma scanDelayedTypes_complete:
  assumes "rok w"
  shows "\<exists>n types w1. (\<forall>fuel\<ge>n. scanDelayedTypes R fuel w = Some (Inr types, w1)) \<and>
    rds w1 = rds w \<and> set types = {t. delayed R w t \<noteq> Map.empty}"
proof -
  have "\<exists>n ks. scan_pages R (''delayed:'' @ ''*'') 100 n 0 (rds w) = Some ks \<and>
      set ks = {k. prefix ''delayed:'' k \<and> zset (view R (rds w)) k \<noteq> Map.empty}"
    by (rule SCAN_complete) simp_all
  then obtain n ks where "scan_pages R (''delayed:'' @ ''*'') 100 n 0 (rds w) = Some ks"
    and ks: "set ks = {k. prefix ''delayed:'' k \<and> zset (view R (rds w)) k \<noteq> Map.empty}" by blast
  from scan_loop_pages [OF assms this(1)] obtain w1
    where l: "scan_loop R ''delayed:*'' n 0 w = Some (Inr ks, w1)" and w1: "rds w1 = rds w"
    by auto
  let ?types = "remdups (map (drop (length ''delayed:'')) ks)"
  have "t \<in> set ?types \<longleftrightarrow> DelayedKey t \<in> set ks" for t
    using ks by (force simp: DelayedKey_def prefix_def image_iff)
  then have "set ?types = {t. delayed R w t \<noteq> Map.empty}" using ks by (auto simp: DelayedKey_def)
  moreover have "\<forall>fuel\<ge>n. scanDelayedTypes R fuel w = Some (Inr ?types, w1)"
    using scan_loop_fuel [OF l] by (simp add: scanDelayedTypes_def)
  ultimately show ?thesis using w1 by blast
qed

end

subsection \<open>Workers that are alive\<close>

context task_queue
begin

lemma IsAlive_Inr:
  "IsAlive R wk w = (Inr b, w1) \<Longrightarrow>
   b = key_alive (UnixMilli (clk w)) (strs (view R (rds w)) (HeartbeatKey wk))"
  by (auto simp: IsAlive_def EXISTS_alive dest!: rcall_readInr split: prod.splits sum.splits if_splits)

lemma ReclaimInflight_others:
  "wk \<noteq> wid \<Longrightarrow> inflight R (snd (ReclaimInflight R C wk w)) wid = inflight R w wid"
  "strs (view R (rds (snd (ReclaimInflight R C wk w)))) = strs (view R (rds w))"
proof -
  obtain a w1 where a: "rcall (\<lambda>r. (HGETALL R (InflightKey wk) r, r)) w = (a, w1)" by fastforce
  have "rds w1 = rds w" by (rule rcall_readD [OF a])
  then have v: "rds (snd (ReclaimInflight R C wk w)) = rds w \<or>
      rds (snd (ReclaimInflight R C wk w)) = DEL R (InflightKey wk) (rds w)"
    using rcall_rds [of "\<lambda>r. ((), DEL R (InflightKey wk) r)" w1]
    by (auto simp: ReclaimInflight_def Let_def a split: sum.splits)
  then show "wk \<noteq> wid \<Longrightarrow> inflight R (snd (ReclaimInflight R C wk w)) wid = inflight R w wid"
    and "strs (view R (rds (snd (ReclaimInflight R C wk w)))) = strs (view R (rds w))" by auto
qed

lemma reclaim_worker_strs [simp]:
  "strs (view R (rds (reclaim_worker R C Q wr w))) = strs (view R (rds w))"
proof -
  have a: "rds w1 = rds w" if "IsAlive R wk w = (x, w1)" for wk x w1
    using IsAlive_rds [of wk w] that by simp
  have r: "strs (view R (rds w2)) = strs (view R (rds w1))" if "ReclaimInflight R C wk w1 = (x, w2)" for wk x w1 w2
    using ReclaimInflight_others(2) [of wk w1] that by simp
  show ?thesis
    by (auto simp: reclaim_worker_def Let_def split: prod.splits sum.splits dest!: a r)
qed

lemma reclaim_worker_alive:
  assumes "key_alive (UnixMilli (clk w)) (strs (view R (rds w)) (HeartbeatKey wid))"
  shows "inflight R (reclaim_worker R C Q wr w) wid = inflight R w wid"
proof -
  obtain a w1 where a: "IsAlive R (WkID wr) w = (a, w1)" by fastforce
  have w1: "rds w1 = rds w" using IsAlive_rds [of "WkID wr" w] by (simp add: a)
  obtain x w2 where r: "ReclaimInflight R C (WkID wr) w1 = (x, w2)" by fastforce
  show ?thesis
  proof (cases "WkID wr = wid")
    case True
    with IsAlive_Inr [of wid w] a assms have "a = Inr b \<Longrightarrow> b" for b by auto
    then show ?thesis by (auto simp: reclaim_worker_def a w1 split: sum.splits)
  next
    case False
    from ReclaimInflight_others(1) [OF this, of w1] have "inflight R w2 wid = inflight R w1 wid"
      by (simp add: r)
    then show ?thesis by (auto simp: reclaim_worker_def Let_def a r w1 split: sum.splits)
  qed
qed

lemma reclaim_workers_alive:
  assumes "key_alive (UnixMilli (clk (reclaim_workers R C Q wrs w))) (strs (view R (rds w)) (HeartbeatKey wid))"
  shows "inflight R (reclaim_workers R C Q wrs w) wid = inflight R w wid"
  using assms
proof (induction wrs arbitrary: w)
  case (Cons wr wrs)
  have "clk w \<le> clk (reclaim_workers R C Q wrs (reclaim_worker R C Q wr w))"
    by (rule order_trans [OF reclaim_worker_clk reclaim_workers_clk])
  from zdiv_mono1 [OF this, of 1000000] Cons.prems
  have "key_alive (UnixMilli (clk w)) (strs (view R (rds w)) (HeartbeatKey wid))"
    by (auto simp: key_alive_def UnixMilli_def split: option.splits)
  with Cons show ?case by (simp add: reclaim_worker_alive)
qed simp

end

subsection \<open>What the coordinator promises\<close>

lemma key_alive_later:
  "\<not> key_alive (UnixMilli (clk w)) x \<Longrightarrow> clk w \<le> clk w1 \<Longrightarrow> \<not> key_alive (UnixMilli (clk w1)) x"
  using zdiv_mono1 [of "clk w" "clk w1" 1000000]
  by (auto simp: key_alive_def UnixMilli_def split: option.splits)

lemma ListWorkersD:
  assumes "ListWorkers Q w = (res, w1)"
  shows "rds w1 = rds w" and "rok w \<Longrightarrow> rok w1" and "clk w \<le> clk w1"
  using store_same_redis(11) [of w Q] store_clk(2) [of w Q] assms
  by (simp_all add: same_redis_def rok_def)

lemma ListWorkers_ok:
  assumes "pok w"
  shows "fst (ListWorkers Q w) = Inr (sort_key (\<lambda>r. - LastHeartbeat r) (scan_workers Q (workers (db w))))"
proof -
  let ?f = "\<lambda>T. (Inr (sort_key (\<lambda>r. - LastHeartbeat r) (scan_workers Q (workers T))), T) :: (err + worker_row list) \<times> tables"
  have "fst (pgquery Q ?f w) = Inr (sort_key (\<lambda>r. - LastHeartbeat r) (scan_workers Q (workers (db w))), None)"
    by (rule pgquery_ok(1) [OF assms]) simp
  then show ?thesis by (cases "pgquery Q ?f w") (simp add: ListWorkers_def collect_rows_def)
qed

lemma publishEvent_c_horizon [simp]: "horizon (publishEvent_c R C env st msg w) = horizon w"
  by (simp add: publishEvent_c_def Let_def)

lemma reclaim_env_horizon [simp]: "horizon (reclaim_env R C Q wid env w) = horizon w"
  by (simp add: reclaim_env_alt Let_def)

lemma reclaim_envs_horizon [simp]: "horizon (reclaim_envs R C Q wid envs w) = horizon w"
  by (induction envs arbitrary: w) simp_all

lemma reclaim_worker_horizon [simp]: "horizon (reclaim_worker R C Q wr w) = horizon w"
proof -
  obtain a w1 where a: "IsAlive R (WkID wr) w = (a, w1)" by fastforce
  obtain x w2 where r: "ReclaimInflight R C (WkID wr) w1 = (x, w2)" by fastforce
  have "horizon w1 = horizon w" "horizon w2 = horizon w1"
    using queue_horizon2(1) [of R "WkID wr" w] queue_horizon2(2) [of R C "WkID wr" w1] by (simp_all add: a r)
  then show ?thesis by (auto simp: reclaim_worker_def Let_def a r split: sum.splits)
qed

lemma reclaim_workers_horizon [simp]: "horizon (reclaim_workers R C Q wrs w) = horizon w"
  by (induction wrs arbitrary: w) simp_all

lemma reclaimDead_clk: "clk w \<le> clk (reclaimDead R C Q w)" "horizon (reclaimDead R C Q w) = horizon w"
proof -
  obtain res w1 where l: "ListWorkers Q w = (res, w1)" by fastforce
  note c = ListWorkersD(3) [OF l]
  have h: "horizon w1 = horizon w" using store_horizon(6) [of Q w] by (simp add: l)
  show "clk w \<le> clk (reclaimDead R C Q w)" "horizon (reclaimDead R C Q w) = horizon w"
    using c order_trans [OF c reclaim_workers_clk] h by (auto simp: reclaimDead_def l split: sum.splits)
qed

lemma reclaimDead_effect:
  assumes "task_queue R C" and "rok w" and "queue_inv R C live (rds w)" and "0 \<le> clk w"
    and "int64_range (UnixMilli (horizon w))"
    and "fst (ListWorkers Q w) = Inr wrs" and "wr \<in> set wrs" and "WkStatus wr \<noteq> ''dead''"
    and "\<not> key_alive (UnixMilli (clk w)) (strs (view R (rds w)) (HeartbeatKey (WkID wr)))"
  shows "taken_back R C w (reclaimDead R C Q w) (WkID wr) \<and> grows R w (reclaimDead R C Q w) \<and>
    handled R C w (reclaimDead R C Q w) wid"
proof -
  obtain w1 where l: "ListWorkers Q w = (Inr wrs, w1)" using assms(6) by (cases "ListWorkers Q w") simp
  note L = ListWorkersD [OF l]
  have eq: "reclaimDead R C Q w = reclaim_workers R C Q wrs w1" by (simp add: reclaimDead_def l)
  have same: "taken_back R C w1 w' i = taken_back R C w w' i" "grows R w1 w' = grows R w w'"
    "handled R C w1 w' i = handled R C w w' i" for w' i
    by (simp_all add: taken_back_def grows_def handled_def L(1))
  note E = task_queue.reclaim_workers_effect [OF assms(1) L(2) [OF assms(2)], of Q wrs]
  have inv: "queue_inv R C live (rds w1)" and c1: "0 \<le> clk w1" using assms(3,4) L by simp_all
  have "horizon w1 = horizon w" using store_horizon(6) [of Q w] by (simp add: l)
  then have "int64_range (UnixMilli (clk (reclaim_workers R C Q wrs w1)))"
    using horizon_range [OF c1 _ reclaim_workers_clk, of R C Q wrs] assms(5) by simp
  note E = E [OF inv c1 this]
  have "\<not> key_alive (UnixMilli (clk w1)) (strs (view R (rds w1)) (HeartbeatKey (WkID wr)))"
    unfolding L(1) by (rule key_alive_later [OF assms(9) L(3)])
  then show ?thesis
    using E [of wid] assms(7,8) unfolding eq same by blast
qed


definition crashed_world :: "ref_redis world" where
  "crashed_world = (snd (Lease ref_redis json_std ''email'' ''w1'' queued_world))\<lparr>db := db row_world\<rparr>"

lemma crashed_facts:
  "rok crashed_world" "queue_inv ref_redis json_std live (rds crashed_world)" 
  "horizon crashed_world = 1700000000000000000" "clk crashed_world = 1700000000000000000"
  "strs (view ref_redis (rds crashed_world)) k = None" "db crashed_world = db row_world" "pok crashed_world"
proof -
  let ?L = "snd (Lease ref_redis json_std ''email'' ''w1'' queued_world)"
  have q: "queue_inv ref_redis json_std live (rds queued_world)"
    by (rule queued_inv) (simp_all add: live_cond live_def email_env_def)
  from task_queue.Lease_inv [OF std_queue this]
  show "queue_inv ref_redis json_std live (rds crashed_world)" by (simp add: crashed_world_def)
  show "rok crashed_world" "pok crashed_world"
    using queued_facts by (simp_all add: crashed_world_def rok_def pok_def) (simp_all flip: rok_def pok_def)
  show "db crashed_world = db row_world" by (simp add: crashed_world_def)
  have "horizon fresh_world = clk fresh_world" by (rule horizon_quiet) (simp_all add: fresh_world_def)
  then have h: "horizon queued_world = clk fresh_world" by (simp add: queued_world_def)
  then show hz: "horizon crashed_world = 1700000000000000000"
    using queue_horizon(3) [of ref_redis json_std "''email''" "''w1''" queued_world]
    by (simp add: crashed_world_def horizon_def fresh_facts)
  have "clk queued_world = clk fresh_world"
    using clk_le_horizon [of queued_world] queue_clk(1) [of fresh_world ref_redis json_std email_env] h
    by (simp add: queued_world_def)
  then show "clk crashed_world = 1700000000000000000"
    using queue_clk(3) [of queued_world ref_redis json_std "''email''" "''w1''"] clk_le_horizon [of crashed_world] hz
    by (simp add: crashed_world_def fresh_facts)
  show "strs (view ref_redis (rds crashed_world)) k = None"
  proof -
    obtain zs hs where "view ref_redis (rds ?L) = (view ref_redis (rds queued_world))\<lparr>zset := zs, hash := hs\<rparr>"
      using task_queue.Lease_pops [OF std_queue queued_facts(1) q queued_nonempty, of "''w1''"] by blast
    moreover obtain zs' where "view ref_redis (rds queued_world) = (view ref_redis ref_empty)\<lparr>zset := zs'\<rparr>"
      using queued_view by blast
    moreover have "strs (view ref_redis ref_empty) k = None" by (simp add: ref_redis_def ref_empty_def)
    ultimately show ?thesis by (simp add: crashed_world_def)
  qed
qed


text \<open>
  C28. A sweep never takes envelopes away from a worker whose heartbeat key is still alive
  when the sweep ends, whatever the network does to the calls of the sweep.
\<close>

theorem reclaimDead_spares_alive:
  assumes "task_queue R C"
    and "key_alive (UnixMilli (clk (reclaimDead R C Q w))) (strs (view R (rds w)) (HeartbeatKey wid))"
  shows "inflight R (reclaimDead R C Q w) wid = inflight R w wid"
proof -
  obtain res w1 where l: "ListWorkers Q w = (res, w1)" by fastforce
  show ?thesis
    using task_queue.reclaim_workers_alive [OF assms(1), of Q _ w1 wid] assms(2)
    by (auto simp: reclaimDead_def l ListWorkersD(1) [OF l] split: sum.splits)
qed

theorem reclaimDead_spares_alive_witness:
  "inflight ref_redis (reclaimDead ref_redis json_std std_pg
     (snd (Heartbeat ref_redis ''w1'' 10000000000 crashed_world))) ''w1'' = inflight ref_redis crashed_world ''w1''"
proof -
  let ?w = "snd (Heartbeat ref_redis ''w1'' 10000000000 crashed_world)"
  let ?w' = "reclaimDead ref_redis json_std std_pg ?w"
  note H = task_queue.Heartbeat_view(2) [OF std_queue crashed_facts(1), of 10000000000 "''w1''", simplified]
  have "clk ?w' \<le> 1700000000000000000"
    using clk_le_horizon [of ?w'] by (simp add: reclaimDead_clk(2) crashed_facts)
  from zdiv_mono1 [OF this, of 1000000]
  have "key_alive (UnixMilli (clk ?w')) (strs (view ref_redis (rds ?w)) (HeartbeatKey ''w1''))"
    by (simp add: H key_alive_def crashed_facts UnixMilli_def)
  from reclaimDead_spares_alive [OF std_queue this] show ?thesis by (simp add: H)
qed

lemma promote_loop_horizon [simp]: "horizon (promote_loop R C seen ts w) = horizon w"
  by (induction ts arbitrary: seen w) simp_all



end
