(* ===== verification/Api.thy ===== *)
theory Api
  imports Coordinator
begin

section \<open>The REST interface (internal/api/api.go)\<close>

text \<open>
  The handlers of the HTTP server. A handler gets what it reads of the request (the value of
  the path parameter \<open>id\<close>, the query values, the body) and returns the response together with the
  new world; the body of a JSON response is the value handed to the encoder. \<open>uuid.Parse\<close>
  is the codec's \<open>UUID_Parse\<close>; the UUID that \<open>uuid.New\<close> would draw is an argument. Request bodies are
  valid UTF-8. A request whose context ends is a network that loses the remaining calls.
\<close>

subsection \<open>Responses\<close>

record QueueDepths =
  Ready :: int
  Delayed :: int
  DLQ :: int

record StatsResponse =
  StTasks :: stats
  Queues :: "string \<rightharpoonup> QueueDepths"
  Clients :: int

datatype body =
    NoBody
  | Text string
  | JError string
  | JStatus string
  | JTask task
  | JTasks "task list"
  | JEvents "task_event list"
  | JLetters "dead_letter list"
  | JWorkers "worker_row list"
  | JStats StatsResponse

record response =
  Code :: int
  Headers :: "(string \<times> string) list"
  Body :: body

definition writeJSON :: "int \<Rightarrow> body \<Rightarrow> response" where
  "writeJSON status v = \<lparr>Code = status, Headers = [(''Content-Type'', ''application/json'')], Body = v\<rparr>"

definition writeError :: "int \<Rightarrow> string \<Rightarrow> response" where
  "writeError status msg = writeJSON status (JError msg)"

text \<open>\<open>http.Error\<close> and a plain \<open>Write\<close>, whose status is 200.\<close>

definition http_Error :: "string \<Rightarrow> int \<Rightarrow> response" where
  "http_Error msg code = \<lparr>Code = code, Headers = [(''Content-Type'', ''text/plain; charset=utf-8''),
     (''X-Content-Type-Options'', ''nosniff'')], Body = Text (msg @ [CHR 0x0A])\<rparr>"

definition plain_ok :: "string \<Rightarrow> response" where
  "plain_ok s = \<lparr>Code = 200, Headers = [], Body = Text s\<rparr>"

text \<open>\<open>None\<close> is a handler that is still running.\<close>

definition corsMiddleware ::
  "(string \<Rightarrow> 'r world \<Rightarrow> (response \<times> 'r world) option) \<Rightarrow> string \<Rightarrow> 'r world \<Rightarrow>
   (response \<times> 'r world) option" where
  "corsMiddleware nxt method w =
     (let hs = [(''Access-Control-Allow-Origin'', ''*''), (''Access-Control-Allow-Methods'', ''GET, POST, OPTIONS''),
            (''Access-Control-Allow-Headers'', ''Content-Type'')]
      in if method = ''OPTIONS'' then Some (\<lparr>Code = 204, Headers = hs, Body = NoBody\<rparr>, w)
         else map_option (\<lambda>(resp, w1). (resp\<lparr>Headers := hs @ Headers resp\<rparr>, w1)) (nxt method w))"

subsection \<open>Reading requests\<close>

text \<open>\<open>int(r - '0')\<close> for the digits; other runes end the loop with the default.\<close>

fun parseInt_loop :: "int \<Rightarrow> int \<Rightarrow> string \<Rightarrow> int" where
  "parseInt_loop dflt n [] = n"
| "parseInt_loop dflt n (r # s) =
     (case digit_val r of
        None \<Rightarrow> dflt
      | Some d \<Rightarrow> parseInt_loop dflt (wrap64 (wrap64 (n * 10) + d)) s)"

definition parseInt :: "string \<Rightarrow> int \<Rightarrow> int" where
  "parseInt s dflt = (if s = '''' then dflt else parseInt_loop dflt 0 s)"

record CreateTaskRequest =
  ReqType :: string
  ReqPayload :: string
  ReqPriority :: int
  ReqMaxAttempts :: int

text \<open>
  The folding under which \<open>encoding/json\<close> compares field names: besides ASCII case, the long s
  and the Kelvin sign fold to \<open>s\<close> and \<open>k\<close>.
\<close>

fun fold_name :: "string \<Rightarrow> string" where
  "fold_name [] = []"
| "fold_name (c # s) =
     (if c = CHR 0xC5 \<and> s \<noteq> [] \<and> hd s = CHR 0xBF then CHR ''s'' # fold_name (tl s)
      else if c = CHR 0xE2 \<and> take 2 s = [CHR 0x84, CHR 0xAA] then CHR ''k'' # fold_name (drop 2 s)
      else to_lower c # fold_name s)"

definition store_req ::
  "string \<times> string \<Rightarrow> CreateTaskRequest option \<Rightarrow> CreateTaskRequest option" where
  "store_req kv ro =
     (case ro of
        None \<Rightarrow> None
      | Some req \<Rightarrow>
          (case unquote (fst kv) of
             None \<Rightarrow> None
           | Some name \<Rightarrow>
               let n = fold_name name; v = snd kv
               in if n = ''payload'' then Some (req\<lparr>ReqPayload := v\<rparr>)
                  else if v = ''null'' then Some req
                  else if n = ''type'' then map_option (\<lambda>t. req\<lparr>ReqType := t\<rparr>) (unquote v)
                  else if n = ''priority'' then map_option (\<lambda>x. req\<lparr>ReqPriority := x\<rparr>) (ParseInt v)
                  else if n = ''max_attempts'' then
                    map_option (\<lambda>x. req\<lparr>ReqMaxAttempts := x\<rparr>) (ParseInt v)
                  else Some req))"

text \<open>
  \<open>json.NewDecoder(body).Decode(&req)\<close>: the first value of the body, whatever follows it, is
  read as an object.
\<close>

definition decode_request :: "string \<Rightarrow> CreateTaskRequest option" where
  "decode_request s =
     (let zero = \<lparr>ReqType = '''', ReqPayload = '''', ReqPriority = 0, ReqMaxAttempts = 0\<rparr>
      in case take_value start (skip_space s) of
           None \<Rightarrow> None
         | Some (v, _) \<Rightarrow>
             if v = ''null'' then Some zero
             else (case object_members v of
                     None \<Rightarrow> None
                   | Some ms \<Rightarrow> fold store_req ms (Some zero)))"

subsection \<open>Handlers\<close>

definition Ping_redis :: "'r world \<Rightarrow> (err + unit) \<times> 'r world" where
  "Ping_redis w = rcall (\<lambda>r. ((), r)) w"

definition Ping_pg :: "'r world \<Rightarrow> (err + unit) \<times> 'r world" where
  "Ping_pg w = pgcall (\<lambda>T. (Inr (), T)) w"

definition readyz :: "'r world \<Rightarrow> response \<times> 'r world" where
  "readyz w =
     (case Ping_redis w of
        (Inl e, w1) \<Rightarrow> (http_Error (''redis: '' @ err_text e) 503, w1)
      | (Inr _, w1) \<Rightarrow>
          (case Ping_pg w1 of
             (Inl e, w2) \<Rightarrow> (http_Error (''postgres: '' @ err_text e) 503, w2)
           | (Inr _, w2) \<Rightarrow> (plain_ok ''ready'', w2)))"

definition task_env :: "task \<Rightarrow> envelope" where
  "task_env t = \<lparr>EnvID = ID t, EnvType = Type t, EnvPriority = Priority t, EnvAttempts = 0,
     EnvMaxAttempts = MaxAttempts t, EnvPayload = Payload t, EnqueuedAt = 0\<rparr>"

definition new_task :: "CreateTaskRequest \<Rightarrow> task" where
  "new_task req =
     (let req = (if ReqMaxAttempts req \<le> 0 then req\<lparr>ReqMaxAttempts := 3\<rparr> else req);
          req = (if length (ReqPayload req) = 0 then req\<lparr>ReqPayload := ''{}''\<rparr> else req)
      in zero_task\<lparr>Type := ReqType req, Payload := ReqPayload req, Priority := ReqPriority req,
           MaxAttempts := ReqMaxAttempts req, Status := StatusQueued\<rparr>)"

definition createTask ::
  "'r redis \<Rightarrow> codec \<Rightarrow> pg \<Rightarrow> uuid \<Rightarrow> string \<Rightarrow> 'r world \<Rightarrow> response \<times> 'r world" where
  "createTask R C Q u body w =
     (case decode_request body of
        None \<Rightarrow> (writeError 400 ''invalid json'', w)
      | Some req \<Rightarrow>
          if ReqType req = '''' then (writeError 400 ''type is required'', w)
          else (case CreateTask Q u (new_task req) w of
                  (Inl e, t, w1) \<Rightarrow> (writeError 500 (err_text e), w1)
                | (Inr _, t, w1) \<Rightarrow>
                    (case Enqueue R C (task_env t) w1 of
                       (Inl e, w2) \<Rightarrow> (writeError 500 (''enqueue: '' @ err_text e), w2)
                     | (Inr _, w2) \<Rightarrow>
                         (let w3 = snd (Publish R C \<lparr>TaskID = ID t, EvType = Type t, EvStatus = StatusQueued,
                                EvWorkerID = '''', Message = '''', Timestamp = clk w2\<rparr> w2)
                          in (writeJSON 201 (JTask t), w3)))))"

definition listTasks ::
  "pg \<Rightarrow> string \<Rightarrow> string \<Rightarrow> string \<Rightarrow> 'r world \<Rightarrow> response \<times> 'r world" where
  "listTasks Q status typ limit w =
     (case ListTasks Q status typ (parseInt limit 100) w of
        (Inl e, w1) \<Rightarrow> (writeError 500 (err_text e), w1)
      | (Inr ts, w1) \<Rightarrow> (writeJSON 200 (JTasks ts), w1))"

definition getTask :: "codec \<Rightarrow> pg \<Rightarrow> string \<Rightarrow> 'r world \<Rightarrow> response \<times> 'r world" where
  "getTask C Q idp w =
     (case UUID_Parse C idp of
        None \<Rightarrow> (writeError 400 ''invalid id'', w)
      | Some i \<Rightarrow>
          (case GetTask Q i w of
             (Inl e, w1) \<Rightarrow>
               if e = ErrNotFound then (writeError 404 ''not found'', w1)
               else (writeError 500 (err_text e), w1)
           | (Inr t, w1) \<Rightarrow> (writeJSON 200 (JTask t), w1)))"

definition getTaskEvents :: "codec \<Rightarrow> pg \<Rightarrow> string \<Rightarrow> 'r world \<Rightarrow> response \<times> 'r world" where
  "getTaskEvents C Q idp w =
     (case UUID_Parse C idp of
        None \<Rightarrow> (writeError 400 ''invalid id'', w)
      | Some i \<Rightarrow>
          (case ListTaskEvents Q i w of
             (Inl e, w1) \<Rightarrow> (writeError 500 (err_text e), w1)
           | (Inr evs, w1) \<Rightarrow> (writeJSON 200 (JEvents evs), w1)))"

definition cancelTask :: "codec \<Rightarrow> pg \<Rightarrow> string \<Rightarrow> 'r world \<Rightarrow> response \<times> 'r world" where
  "cancelTask C Q idp w =
     (case UUID_Parse C idp of
        None \<Rightarrow> (writeError 400 ''invalid id'', w)
      | Some i \<Rightarrow>
          (case MarkCanceled Q i w of
             (Inl e, w1) \<Rightarrow> (writeError 500 (err_text e), w1)
           | (Inr _, w1) \<Rightarrow> (writeJSON 200 (JStatus ''canceled''), w1)))"

definition listDLQ :: "pg \<Rightarrow> string \<Rightarrow> 'r world \<Rightarrow> response \<times> 'r world" where
  "listDLQ Q limit w =
     (case ListDeadLetters Q (parseInt limit 100) w of
        (Inl e, w1) \<Rightarrow> (writeError 500 (err_text e), w1)
      | (Inr items, w1) \<Rightarrow> (writeJSON 200 (JLetters items), w1))"

definition redriveDLQ ::
  "'r redis \<Rightarrow> codec \<Rightarrow> pg \<Rightarrow> string \<Rightarrow> 'r world \<Rightarrow> response \<times> 'r world" where
  "redriveDLQ R C Q idp w =
     (case UUID_Parse C idp of
        None \<Rightarrow> (writeError 400 ''invalid id'', w)
      | Some i \<Rightarrow>
          (case Redrive Q i w of
             (Inl e, w1) \<Rightarrow> (writeError 500 (err_text e), w1)
           | (Inr t, w1) \<Rightarrow>
               (case Enqueue R C (task_env t) w1 of
                  (Inl e, w2) \<Rightarrow> (writeError 500 (''enqueue: '' @ err_text e), w2)
                | (Inr _, w2) \<Rightarrow> (writeJSON 200 (JTask t), w2))))"

definition listWorkers :: "pg \<Rightarrow> 'r world \<Rightarrow> response \<times> 'r world" where
  "listWorkers Q w =
     (case ListWorkers Q w of
        (Inl e, w1) \<Rightarrow> (writeError 500 (err_text e), w1)
      | (Inr wrs, w1) \<Rightarrow> (writeJSON 200 (JWorkers wrs), w1))"

text \<open>The loop over the types; a depth that cannot be read counts as 0.\<close>

definition depth_of :: "err + int \<Rightarrow> int" where
  "depth_of res = (case res of Inl _ \<Rightarrow> 0 | Inr n \<Rightarrow> n)"

fun depths_loop ::
  "'r redis \<Rightarrow> string list \<Rightarrow> (string \<rightharpoonup> QueueDepths) \<Rightarrow> 'r world \<Rightarrow> (string \<rightharpoonup> QueueDepths) \<times> 'r world" where
  "depths_loop R [] depths w = (depths, w)"
| "depths_loop R (t # ts) depths w =
     (let (rd, w1) = QueueDepth R t w;
          (dl, w2) = DelayedDepth R t w1;
          (dd, w3) = DLQDepth R t w2
      in depths_loop R ts (depths(t \<mapsto> \<lparr>Ready = depth_of rd, Delayed = depth_of dl, DLQ = depth_of dd\<rparr>)) w3)"

text \<open>\<open>hub\<close> is the number of WebSocket clients, or \<open>None\<close> without a hub.\<close>

definition getStats ::
  "'r redis \<Rightarrow> pg \<Rightarrow> int option \<Rightarrow> nat \<Rightarrow> 'r world \<Rightarrow> (response \<times> 'r world) option" where
  "getStats R Q hub fuel w =
     (case GetStats Q w of
        ((st, Some e), w1) \<Rightarrow> Some (writeError 500 (err_text e), w1)
      | ((st, None), w1) \<Rightarrow>
          (case ListTypes R fuel w1 of
             None \<Rightarrow> None
           | Some (Inl e, w2) \<Rightarrow> Some (writeError 500 (err_text e), w2)
           | Some (Inr types, w2) \<Rightarrow>
               (let (depths, w3) = depths_loop R types Map.empty w2;
                    resp = \<lparr>StTasks = st, Queues = depths, Clients = 0\<rparr>;
                    resp = (case hub of None \<Rightarrow> resp | Some n \<Rightarrow> resp\<lparr>Clients := n\<rparr>)
                in Some (writeJSON 200 (JStats resp), w3))))"

subsection \<open>Routes\<close>

datatype endpoint = EHealthz | EReadyz | ECreateTask | EListTasks | EGetTask | EGetTaskEvents
  | ECancelTask | EListDLQ | ERedriveDLQ | EListWorkers | EGetStats

definition routes :: "(string \<times> string \<times> endpoint) list" where
  "routes =
     [(''GET'', ''/healthz'', EHealthz), (''GET'', ''/readyz'', EReadyz),
      (''POST'', ''/api/tasks'', ECreateTask), (''GET'', ''/api/tasks'', EListTasks),
      (''GET'', ''/api/tasks/{id}'', EGetTask), (''GET'', ''/api/tasks/{id}/events'', EGetTaskEvents),
      (''POST'', ''/api/tasks/{id}/cancel'', ECancelTask),
      (''GET'', ''/api/dlq'', EListDLQ), (''POST'', ''/api/dlq/{id}/redrive'', ERedriveDLQ),
      (''GET'', ''/api/workers'', EListWorkers), (''GET'', ''/api/stats'', EGetStats)]"

text \<open>What the handlers read of a request; a query value that is not given is empty.\<close>

record request =
  IdParam :: string
  QStatus :: string
  QType :: string
  QLimit :: string
  ReqBody :: string

fun handle ::
  "'r redis \<Rightarrow> codec \<Rightarrow> pg \<Rightarrow> int option \<Rightarrow> nat \<Rightarrow> uuid \<Rightarrow> endpoint \<Rightarrow> request \<Rightarrow> 'r world \<Rightarrow>
   (response \<times> 'r world) option" where
  "handle R C Q hub fuel u EHealthz req w = Some (plain_ok ''ok'', w)"
| "handle R C Q hub fuel u EReadyz req w = Some (readyz w)"
| "handle R C Q hub fuel u ECreateTask req w = Some (createTask R C Q u (ReqBody req) w)"
| "handle R C Q hub fuel u EListTasks req w = Some (listTasks Q (QStatus req) (QType req) (QLimit req) w)"
| "handle R C Q hub fuel u EGetTask req w = Some (getTask C Q (IdParam req) w)"
| "handle R C Q hub fuel u EGetTaskEvents req w = Some (getTaskEvents C Q (IdParam req) w)"
| "handle R C Q hub fuel u ECancelTask req w = Some (cancelTask C Q (IdParam req) w)"
| "handle R C Q hub fuel u EListDLQ req w = Some (listDLQ Q (QLimit req) w)"
| "handle R C Q hub fuel u ERedriveDLQ req w = Some (redriveDLQ R C Q (IdParam req) w)"
| "handle R C Q hub fuel u EListWorkers req w = Some (listWorkers Q w)"
| "handle R C Q hub fuel u EGetStats req w = getStats R Q hub fuel w"

text \<open>
  The router of \<open>go-chi\<close> is the argument \<open>mt\<close>: it matches the pattern of a route against a path and
  returns the value of the parameter. A request that no route matches is answered by the router
  itself, by \<open>nf\<close>.
\<close>

definition Router ::
  "(string \<Rightarrow> string \<Rightarrow> string option) \<Rightarrow> (string \<Rightarrow> string \<Rightarrow> response) \<Rightarrow> 'r redis \<Rightarrow> codec \<Rightarrow> pg \<Rightarrow>
   int option \<Rightarrow> nat \<Rightarrow> uuid \<Rightarrow> string \<Rightarrow> string \<Rightarrow> request \<Rightarrow> 'r world \<Rightarrow> (response \<times> 'r world) option" where
  "Router mt nf R C Q hub fuel u method path req w =
     corsMiddleware (\<lambda>method w.
       case find (\<lambda>(m, pat, ep). m = method \<and> mt pat path \<noteq> None) routes of
         None \<Rightarrow> Some (nf method path, w)
       | Some (m, pat, ep) \<Rightarrow>
           handle R C Q hub fuel u ep (req\<lparr>IdParam := the (mt pat path)\<rparr>) w) method w"

subsection \<open>Numbers in query strings\<close>

lemma wrap64_eq: "wrap64 x = wrap64 y \<longleftrightarrow> x mod 2 ^ 64 = y mod 2 ^ 64"
proof -
  have "wrap64 x = wrap64 y \<longleftrightarrow> (x + 2 ^ 63) mod 2 ^ 64 = (y + 2 ^ 63) mod 2 ^ 64"
    by (simp add: wrap64_def)
  also have "\<dots> \<longleftrightarrow> x mod 2 ^ 64 = y mod 2 ^ 64"
    unfolding mod_eq_dvd_iff by simp
  finally show ?thesis .
qed

lemma wrap64_mod: "wrap64 x mod 2 ^ 64 = x mod 2 ^ 64"
  unfolding wrap64_def by (simp add: mod_diff_left_eq)

lemma wrap64_step: "wrap64 (wrap64 (wrap64 n * 10) + d) = wrap64 (n * 10 + d)"
  unfolding wrap64_eq by (metis mod_add_left_eq mod_mult_left_eq wrap64_mod)

lemma parseInt_loop_value:
  "parseInt_loop dflt (wrap64 (int n)) s =
     (if list_all is_digit s then wrap64 (int (decimal n s)) else dflt)"
proof (induction s arbitrary: n)
  case (Cons c s)
  show ?case
  proof (cases "is_digit c")
    case True
    then have "(48 :: nat) \<le> of_char c" by (simp add: is_digit_def)
    then have "int (10 * n + (of_char c - 48)) = int n * 10 + (of_char c - 48)"
      by (simp add: of_nat_diff of_nat_of_char)
    with True Cons.IH [of "10 * n + (of_char c - 48)"] show ?thesis
      by (simp add: digit_val_is_digit wrap64_step mult.commute)
  qed (simp add: digit_val_is_digit)
qed simp

text \<open>
  \<open>parseInt\<close> is, for every string, the 64-bit value of the decimal number when the string
  is a non-empty sequence of digits (wrapping around when it does not fit), and the default
  otherwise; so a number that fits into 63 bits is read exactly.
\<close>

theorem parseInt_value:
  "parseInt s dflt = (if s \<noteq> '''' \<and> list_all is_digit s then wrap64 (int (read_nat s)) else dflt) \<and>
   (s \<noteq> '''' \<and> list_all is_digit s \<and> read_nat s < 2 ^ 63 \<longrightarrow> parseInt s dflt = int (read_nat s))"
proof -
  have "wrap64 (int 0) = 0" by (simp add: wrap64_def)
  with parseInt_loop_value [of dflt 0 s] have p: "parseInt s dflt =
      (if s \<noteq> '''' \<and> list_all is_digit s then wrap64 (int (read_nat s)) else dflt)"
    by (auto simp: parseInt_def decimal_def read_nat_def)
  have "wrap64 (int (read_nat s)) = int (read_nat s)" if "read_nat s < 2 ^ 63"
    by (rule wrap64_id) (use that in \<open>simp add: int64_range_def\<close>)
  with p show ?thesis by simp
qed

theorem parseInt_value_witness: "parseInt ''250'' 100 = 250"
  using parseInt_value [of "''250''" 100] by (simp add: is_digit_def read_nat_def)

subsection \<open>Creating tasks\<close>

text \<open>The row and the envelope of a task that has been created.\<close>

definition queued_row :: "task \<Rightarrow> tables \<Rightarrow> bool" where
  "queued_row t T \<longleftrightarrow> (\<exists>r\<in>set (tasks T). ID r = ID t \<and> Type r = Type t \<and> Priority r = Priority t \<and>
     Status r = StatusQueued \<and> Attempts r = 0 \<and> MaxAttempts r = MaxAttempts t)"

definition ready_env :: "'r redis \<Rightarrow> codec \<Rightarrow> 'r world \<Rightarrow> envelope \<Rightarrow> bool" where
  "ready_env R C w env \<longleftrightarrow> (\<exists>m e. ready R w (EnvType env) m \<noteq> None \<and> unmarshal C m = Some e \<and>
     EnvID e = EnvID env \<and> EnvType e = EnvType env \<and> EnvPriority e = EnvPriority env \<and>
     EnvAttempts e = EnvAttempts env \<and> EnvMaxAttempts e = EnvMaxAttempts env)"

lemma CreateTask_task: "fst (snd (CreateTask Q u t0 w)) = task_defaults u (clk w) t0"
  by (simp add: CreateTask_then_log Let_def)

lemma CreateTask_row:
  assumes "CreateTask Q u t0 w = (Inr (), t, w1)" and "Status t = StatusQueued" and "Attempts t = 0"
  shows "queued_row t (db w1)" and "int4_range (Priority t)" and "int4_range (MaxAttempts t)"
    and "t = task_defaults u (clk w) t0" and "rds w1 = rds w" and "clk w \<le> clk w1" and "horizon w1 = horizon w"
proof -
  show t: "t = task_defaults u (clk w) t0" using CreateTask_task [of Q u t0 w] assms(1) by simp
  have w1: "w1 = snd (then_log (insert_task Q t) Q (ID t) ''created'' '''' w)"
    and ok: "fst (then_log (insert_task Q t) Q (ID t) ''created'' '''' w) = Inr ()"
    and range: "int4_range (Priority t)" "int4_range (MaxAttempts t)"
    using CreateTask_created [of Q u t0 w] CreateTask_then_log [of Q u t0 w] assms(1)
    by (auto simp: Let_def t split: if_splits)
  then show "int4_range (Priority t)" "int4_range (MaxAttempts t)" by simp_all
  show "rds w1 = rds w" using store_same_redis(1) [of w Q u t0] by (simp add: assms(1) same_redis_def)
  show "clk w \<le> clk w1" unfolding w1 by (rule then_log_clk)
  show "horizon w1 = horizon w" by (simp add: w1)
  obtain w2 where p: "pgcall (insert_task Q t) w = (Inr (), w2)" and w2: "w1 = snd (LogEvent Q (ID t) ''created'' '''' w2)"
    using ok w1 by (auto simp: then_log_def split: prod.splits sum.splits)
  have "queued_row t (db w2)"
    using pgcall_Inr [OF p] assms(2,3)
    by (auto simp: insert_task_def queued_row_def split: if_splits option.splits)
  then show "queued_row t (db w1)" by (simp add: queued_row_def w2)
qed

context task_queue
begin

lemma Enqueue_ready:
  assumes "Enqueue R C env w = (Inr x, w1)" and "int64_range (EnvPriority env)" and "int64_range (EnvAttempts env)"
    and "int64_range (EnvMaxAttempts env)" and "text_ok C (EnvType env)"
    and "int64_range (if EnqueuedAt env = 0 then UnixMilli (clk w) else EnqueuedAt env)"
  shows "ready_env R C w1 env"
proof -
  let ?e = "if EnqueuedAt env = 0 then env\<lparr>EnqueuedAt := UnixMilli (clk w)\<rparr> else env"
  obtain b where b: "marshal C ?e = Some b" using assms(1) by (auto simp: Enqueue_def Let_def split: option.splits)
  let ?f = "\<lambda>r. ((), ZADD R (QueueKey (EnvType ?e)) (priorityScore (EnvPriority ?e) (EnqueuedAt ?e)) b r)"
  have "rcall ?f w = (Inr x, w1)" using assms(1) by (simp add: Enqueue_def Let_def b)
  from rcall_Inr [OF this] have "rds w1 = ZADD R (QueueKey (EnvType ?e)) (priorityScore (EnvPriority ?e) (EnqueuedAt ?e)) b (rds w)"
    by simp
  then have rd: "ready R w1 (EnvType env) b \<noteq> None" by simp
  have "raw_ok C (EnvPayload ?e)" using marshal_ok [of ?e] b by simp
  with assms(2-6) have "env_wf C ?e" by (auto simp: env_wf_def split: if_splits)
  from unmarshal_marshal [OF this b] rd show ?thesis
    unfolding ready_env_def by (intro exI [of _ b] exI [of _ "compacted C ?e"]) simp
qed

end

lemma ready_env_same:
  "zset (view R (rds w')) = zset (view R (rds w)) \<Longrightarrow> ready_env R C w' env = ready_env R C w env"
  by (simp add: ready_env_def)

lemma int4_int64: "int4_range x \<Longrightarrow> int64_range x"
  by (simp add: int4_range_def int64_range_def)

lemma new_task_fields:
  "ID (new_task req) = uuid_Nil" "Type (new_task req) = ReqType req" "Status (new_task req) = StatusQueued"
  "Attempts (new_task req) = 0" "MaxAttempts (new_task req) > 0"
  by (simp_all add: new_task_def Let_def zero_task_def)

lemma new_task_defaults:
  "ID (task_defaults u now (new_task req)) = u" "Type (task_defaults u now (new_task req)) = ReqType req"
  "Status (task_defaults u now (new_task req)) = StatusQueued" "Attempts (task_defaults u now (new_task req)) = 0"
  using new_task_fields [of req] by (simp_all add: task_defaults_def Let_def status_defs)

lemma createTask_durable:
  assumes "task_queue R C" and "decode_request body = Some req" and "text_ok C (ReqType req)"
    and "0 \<le> clk w" and "int64_range (UnixMilli (horizon w))"
  shows "let (resp, w') = createTask R C Q u body w; t = task_defaults u (clk w) (new_task req)
    in (zset (view R (rds w')) \<noteq> zset (view R (rds w)) \<longrightarrow> queued_row t (db w')) \<and>
       (Code resp = 201 \<longrightarrow> Body resp = JTask t \<and> queued_row t (db w') \<and> ready_env R C w' (task_env t))"
proof -
  let ?t = "task_defaults u (clk w) (new_task req)"
  obtain res t w1 where c: "CreateTask Q u (new_task req) w = (res, t, w1)" by (metis prod_cases3)
  have t: "t = ?t" using CreateTask_task [of Q u "new_task req" w] c by simp
  have w1: "rds w1 = rds w" using store_same_redis(1) [of w Q u "new_task req"] by (simp add: c same_redis_def)
  obtain r2 w2 where e: "Enqueue R C (task_env t) w1 = (r2, w2)" by fastforce
  let ?ev = "\<lparr>TaskID = ID t, EvType = Type t, EvStatus = StatusQueued, EvWorkerID = '''', Message = '''',
    Timestamp = clk w2\<rparr>"
  let ?w3 = "snd (Publish R C ?ev w2)"
  have db2: "db w2 = db w1" using queue_frame(1) [of R C "task_env t" w1] e by simp
  note P = task_queue.Publish_structs(1) [OF assms(1), of ?ev w2]
  show ?thesis
  proof (cases res)
    case (Inl er)
    then show ?thesis using c w1 assms(2) by (simp add: createTask_def writeError_def writeJSON_def)
  next
    case (Inr x)
    then have c': "CreateTask Q u (new_task req) w = (Inr (), t, w1)" using c by simp
    have st: "Status t = StatusQueued" "Attempts t = 0" by (simp_all add: t new_task_defaults)
    note row = CreateTask_row [OF c' st]
    have "int64_range (UnixMilli (clk w1))" by (rule horizon_range [OF assms(4,5) row(6,7)])
    then have rdy: "ready_env R C w2 (task_env t)" if "r2 = Inr y" for y
      using task_queue.Enqueue_ready [OF assms(1), of "task_env t" w1 y w2] e that row(2,3) assms(3)
      by (simp add: task_env_def int4_int64 t new_task_defaults(2)) (simp add: int64_range_def)
    have "queued_row t (db ?w3)" using row(1) db2 by simp
    then show ?thesis
      using c' e rdy row(1) db2 assms(2) ready_env_same [OF P]
      by (cases r2) (auto simp: createTask_def writeError_def writeJSON_def Let_def t)
  qed
qed

text \<open>
  C8. Write-ahead: whatever the two networks do, an envelope enters Redis only when the row of its
  task is in the database, and the client is told 201 only when the row is in the
  database, queued and with no attempts used, and the envelope of the task is ready, with the id
  and the limits of that row.
\<close>

theorem createTask_write_ahead:
  assumes "task_queue R C" and "decode_request body = Some req" and "text_ok C (ReqType req)"
    and "0 \<le> clk w" and "int64_range (UnixMilli (horizon w))"
  shows "let (resp, w') = createTask R C Q u body w; t = task_defaults u (clk w) (new_task req)
    in (zset (view R (rds w')) \<noteq> zset (view R (rds w)) \<longrightarrow> queued_row t (db w')) \<and>
       (Code resp = 201 \<longrightarrow> Body resp = JTask t \<and> queued_row t (db w') \<and> ready_env R C w' (task_env t))"
  by (rule createTask_durable [OF assms])

text \<open>Over networks that deliver, a request that the columns accept is answered with 201.\<close>

lemma createTask_accepted:
  assumes "task_queue R C" and "postgres Q" and "rok w" and "pok w" and "decode_request body = Some req"
    and "ReqType req \<noteq> ''''" and "t = task_defaults u (clk w) (new_task req)"
    and "u \<notin> ID ` set (tasks (db w))" and "int4_range (Priority t)" and "int4_range (MaxAttempts t)"
    and "text_in Q (ReqType req)" and "jsonb_in Q (Payload t) = Some p" and "raw_ok C (Payload t)"
  shows "Code (fst (createTask R C Q u body w)) = 201"
proof -
  note f = new_task_defaults [of u "clk w" req, folded assms(7)]
  have pl: "plain_text StatusQueued" by code_simp
  have lits: "text_in Q ''created''" "text_in Q ''''" "text_in Q StatusQueued"
    using assms(2) by (auto intro: postgres.text_ascii plain_literals pl)
  then obtain T where ins: "insert_task Q t (db w) = (Inr (), T)"
    using assms(8,11,12) f by (simp add: insert_task_def)
  have "fst (then_log (insert_task Q t) Q (ID t) ''created'' '''' w) = Inr ()"
    using then_log_ok(1) [where f = "insert_task Q t" and w = w, OF assms(4) ins lits(1,2), of "ID t"] by simp
  then have "fst (CreateTask Q u (new_task req) w) = Inr ()"
    using assms(9,10) f(4) by (simp add: CreateTask_created flip: assms(7)) (simp add: int4_range_def)
  moreover have "fst (snd (CreateTask Q u (new_task req) w)) = t" using assms(7) by (simp add: CreateTask_task)
  ultimately obtain w1 where c: "CreateTask Q u (new_task req) w = (Inr (), t, w1)"
    by (cases "CreateTask Q u (new_task req) w") auto
  have ok: "rok w1" using store_same_redis(1) [of w Q u "new_task req"] assms(3) by (simp add: c same_redis_def rok_def)
  let ?e = "if EnqueuedAt (task_env t) = 0 then (task_env t)\<lparr>EnqueuedAt := UnixMilli (clk w1)\<rparr> else task_env t"
  have "raw_ok C (EnvPayload ?e)" using assms(13) by (simp add: task_env_def)
  then obtain b where "marshal C ?e = Some b"
    using envelope_codec.marshal_ok [OF task_queue.axioms(2) [OF assms(1)], of ?e] by blast
  from task_queue.Enqueue_view(1) [OF assms(1) ok this] obtain w2 where "Enqueue R C (task_env t) w1 = (Inr (), w2)"
    by (cases "Enqueue R C (task_env t) w1") simp
  with c assms(5,6) show ?thesis by (simp add: createTask_def writeJSON_def Let_def)
qed

definition email_body :: string where
  "email_body = object_text [(quote ''type'', quote ''email'')]"

lemma email_decoded:
  "decode_request email_body =
     Some \<lparr>ReqType = ''email'', ReqPayload = '''', ReqPriority = 0, ReqMaxAttempts = 0\<rparr>"
  by code_simp

lemma email_accepted:
  "Code (fst (createTask ref_redis json_std std_pg 9 email_body fresh_world)) = 201"
  "text_ok json_std (ReqType \<lparr>ReqType = ''email'', ReqPayload = '''', ReqPriority = 0, ReqMaxAttempts = 0\<rparr>)"
  "horizon fresh_world = 1700000000000000000"
proof -
  let ?req = "\<lparr>ReqType = ''email'', ReqPayload = '''', ReqPriority = 0, ReqMaxAttempts = 0\<rparr>"
  let ?t = "task_defaults 9 (clk fresh_world) (new_task ?req)"
  have t: "int4_range (Priority ?t)" "int4_range (MaxAttempts ?t)" "Payload ?t = ''{}''" "ID ?t = 9"
    by (simp_all add: task_defaults_def new_task_def Let_def zero_task_def int4_range_def)
  have p: "text_in std_pg (ReqType ?req)" "raw_ok json_std ''{}''" "text_ok json_std (ReqType ?req)"
    by (simp_all add: std_pg_def) code_simp+
  have j: "jsonb_in std_pg (Payload ?t) = Some ''{}''" unfolding t(3) by (rule spg.jsonb_object)
  show "Code (fst (createTask ref_redis json_std std_pg 9 email_body fresh_world)) = 201"
    by (rule createTask_accepted [OF std_queue spg.postgres_axioms fresh_facts(1,2) email_decoded _ refl _ t(1,2) p(1) j])
      (use p(2) in \<open>simp_all only: t(3)\<close>, simp_all add: fresh_world_def no_rows_def)
  show "text_ok json_std (ReqType ?req)" by (rule p(3))
  show "horizon fresh_world = 1700000000000000000" by (simp add: horizon_def fresh_world_def)
qed

theorem createTask_write_ahead_witness:
  "\<exists>r\<in>set (tasks (db (snd (createTask ref_redis json_std std_pg 9 email_body fresh_world)))). ID r = 9"
proof -
  let ?t = "task_defaults 9 (clk fresh_world) (new_task \<lparr>ReqType = ''email'', ReqPayload = '''', ReqPriority = 0, ReqMaxAttempts = 0\<rparr>)"
  have "ID ?t = 9" by (simp add: new_task_defaults)
  then show ?thesis
    using createTask_write_ahead [OF std_queue email_decoded email_accepted(2), of fresh_world std_pg 9] email_accepted(1)
    by (auto simp: fresh_facts email_accepted(3) UnixMilli_def int64_range_def queued_row_def Let_def split: prod.splits)
qed

subsection \<open>Errors\<close>

text \<open>
  C31. Error answers of the handlers: a path parameter that is no UUID is answered with 400 by every
  handler that has one, a body that is not JSON and a request without a type with 400, all without any
  call to the services; an id that has no row is answered with 404 by \<open>getTask\<close>; but \<open>redriveDLQ\<close>
  answers an id that is not a dead task with 500, and in both cases no row and nothing in Redis
  changes.
\<close>

theorem handler_errors:
  assumes "UUID_Parse C bad = None" and "decode_request garbage = None" and "decode_request untyped = Some req"
    and "ReqType req = ''''" and "UUID_Parse C s = Some i" and "pok w" and "i \<notin> ID ` set (tasks (db w))"
    and "UUID_Parse C s' = Some j" and "\<forall>r\<in>set (tasks (db w)). ID r = j \<longrightarrow> Status r \<noteq> StatusDead"
  shows "getTask C Q bad w = (writeError 400 ''invalid id'', w) \<and>
    getTaskEvents C Q bad w = (writeError 400 ''invalid id'', w) \<and>
    cancelTask C Q bad w = (writeError 400 ''invalid id'', w) \<and>
    redriveDLQ R C Q bad w = (writeError 400 ''invalid id'', w) \<and>
    createTask R C Q u garbage w = (writeError 400 ''invalid json'', w) \<and>
    createTask R C Q u untyped w = (writeError 400 ''type is required'', w) \<and>
    fst (getTask C Q s w) = writeError 404 ''not found'' \<and> db (snd (getTask C Q s w)) = db w \<and>
    rds (snd (getTask C Q s w)) = rds w \<and>
    fst (redriveDLQ R C Q s' w) = writeError 500 ''not found'' \<and>
    db (snd (redriveDLQ R C Q s' w)) = db w \<and> rds (snd (redriveDLQ R C Q s' w)) = rds w"
proof -
  have "fst (GetTask Q i w) = Inl ErrNotFound" by (rule GetTask_absent [OF assms(6,7)])
  then obtain w1 where g: "GetTask Q i w = (Inl ErrNotFound, w1)" by (cases "GetTask Q i w") simp
  have w1: "rds w1 = rds w" "db w1 = db w"
    using store_same_redis(2) [of w Q i] g
    by (auto simp: same_redis_def GetTask_def dest: pgcall_readD split: prod.splits)
  note RA = Redrive_absent [OF assms(6) assms(9) [unfolded StatusDead_def], of Q]
  then obtain w2 where r: "Redrive Q j w = (Inl ErrNotFound, w2)" by (cases "Redrive Q j w") simp
  have w2: "rds w2 = rds w"
    using r by (auto simp: Redrive_def LogEvent_def dest: pgcall_frameD split: prod.splits sum.splits)
  show ?thesis
    using assms(1-5,8) g w1 r w2 RA(2)
    by (simp add: getTask_def getTaskEvents_def cancelTask_def redriveDLQ_def createTask_def)
qed

theorem handler_errors_witness:
  "fst (getTask json_std std_pg (uuid_text 9) fresh_world) = writeError 404 ''not found'' \<and>
   fst (redriveDLQ ref_redis json_std std_pg (uuid_text 9) fresh_world) = writeError 500 ''not found''"
proof -
  have "UUID_Parse json_std ''x'' = None" "UUID_Parse json_std (uuid_text 9) = Some 9"
    by (simp_all add: json_std_def json_codec_def) (code_simp, rule uuid_read_text)
  moreover have "decode_request ''?'' = None"
    "decode_request ''{}'' = Some \<lparr>ReqType = '''', ReqPayload = '''', ReqPriority = 0, ReqMaxAttempts = 0\<rparr>"
    by code_simp+
  ultimately show ?thesis
    using handler_errors [of json_std "''x''" "''?''" "''{}''" _ "uuid_text 9" 9 fresh_world "uuid_text 9" 9 std_pg ref_redis 0]
      fresh_facts(2) by (simp add: fresh_world_def no_rows_def)
qed

subsection \<open>Redriving dead tasks\<close>

lemma Redrive_rds: "rds (snd (Redrive Q i w)) = rds w" "rok w \<Longrightarrow> rok (snd (Redrive Q i w))"
  "clk w \<le> clk (snd (Redrive Q i w))" "horizon (snd (Redrive Q i w)) = horizon w"
proof -
  obtain row w1 where c: "pgcall (redrive_dead i (clk w)) w = (row, w1)" by fastforce
  have l: "clk w1 \<le> clk (snd (LogEvent Q i ''redriven'' '''' w1))" unfolding LogEvent_def by (rule pgcall_clk)
  note f = pgcall_frameD [OF c] pgcall_clkD [OF c] pgcall_horizonD [OF c]
  show "rds (snd (Redrive Q i w)) = rds w" "rok w \<Longrightarrow> rok (snd (Redrive Q i w))"
    "clk w \<le> clk (snd (Redrive Q i w))" "horizon (snd (Redrive Q i w)) = horizon w"
    using f l by (auto simp: Redrive_def c LogEvent_def rok_def split: sum.splits)
qed

text \<open>
  C32. Over networks that deliver, redriving a dead task answers 200 with the row reset to queued
  and no attempts used; that row is in the database, and a fresh envelope of the task, with all of
  its attempts, is ready.
\<close>

theorem redriveDLQ_requeues:
  assumes "task_queue R C" and "rok w" and "pok w" and "store_wf (db w)" and "0 \<le> clk w"
    and "int64_range (UnixMilli (horizon w))" and "UUID_Parse C s = Some i"
    and "r \<in> set (tasks (db w))" and "ID r = i" and "Status r = StatusDead"
    and "int4_range (Priority r)" and "int4_range (MaxAttempts r)" and "text_ok C (Type r)" and "raw_ok C (Payload r)"
  shows "let (resp, w') = redriveDLQ R C Q s w
    in resp = writeJSON 200 (JTask (redriven (clk w) r)) \<and> redriven (clk w) r \<in> set (tasks (db w')) \<and>
       ready_env R C w' (task_env (redriven (clk w) r))"
proof -
  let ?t = "redriven (clk w) r"
  note D = Redrive_dead [OF assms(4,3,8,9) assms(10) [unfolded StatusDead_def], of Q]
  obtain w1 where c: "Redrive Q i w = (Inr ?t, w1)" using D(1) by (cases "Redrive Q i w") simp
  have w1: "rok w1" "clk w \<le> clk w1" "horizon w1 = horizon w" "?t \<in> set (tasks (db w1))"
    using Redrive_rds [where Q = Q and i = i and w = w] D(2) assms(2) by (simp_all add: c)
  have env: "EnvPayload (task_env ?t) = Payload r" "EnvPriority (task_env ?t) = Priority r" "EnvAttempts (task_env ?t) = 0"
    "EnvMaxAttempts (task_env ?t) = MaxAttempts r" "EnvType (task_env ?t) = Type r" "EnqueuedAt (task_env ?t) = 0"
    by (simp_all add: task_env_def redriven_def)
  have rg: "int64_range (UnixMilli (clk w1))" by (rule horizon_range [OF assms(5,6) w1(2,3)])
  let ?e = "if EnqueuedAt (task_env ?t) = 0 then (task_env ?t)\<lparr>EnqueuedAt := UnixMilli (clk w1)\<rparr> else task_env ?t"
  have "raw_ok C (EnvPayload ?e)" using assms(14) env by simp
  then obtain b where "marshal C ?e = Some b"
    using envelope_codec.marshal_ok [OF task_queue.axioms(2) [OF assms(1)], of ?e] by blast
  from task_queue.Enqueue_view(1) [OF assms(1) w1(1) this] obtain w2 where e: "Enqueue R C (task_env ?t) w1 = (Inr (), w2)"
    by (cases "Enqueue R C (task_env ?t) w1") simp
  have db2: "db w2 = db w1" using queue_frame(1) [of R C "task_env ?t" w1] e by simp
  have "ready_env R C w2 (task_env ?t)"
    by (rule task_queue.Enqueue_ready [OF assms(1) e]) (use assms(11-13) rg env in \<open>simp_all add: int64_range_def int4_range_def\<close>)
  with c e w1(4) db2 assms(7) show ?thesis by (simp add: redriveDLQ_def)
qed

definition dead_world :: "ref_redis world" where
  "dead_world = fresh_world\<lparr>db := db row_world\<rparr>"

theorem redriveDLQ_requeues_witness:
  "Code (fst (redriveDLQ ref_redis json_std std_pg (uuid_text 8) dead_world)) = 200"
proof -
  let ?r = "zero_task\<lparr>ID := 8, Type := ''echo'', Payload := ''{}'', Status := ''dead'', Attempts := 3, MaxAttempts := 3\<rparr>"
  have w: "rok dead_world" "pok dead_world" "store_wf (db dead_world)" "clk dead_world = 1700000000000000000"
    "horizon dead_world = 1700000000000000000"
    using fresh_facts row_world_facts by (simp_all add: dead_world_def rok_def pok_def horizon_def fresh_world_def)
  have r: "?r \<in> set (tasks (db dead_world))" by (simp add: dead_world_def row_world_def)
  have p: "text_ok json_std ''echo''" "raw_ok json_std ''{}''" by code_simp+
  have u: "UUID_Parse json_std (uuid_text 8) = Some 8" by (simp add: json_std_def json_codec_def uuid_read_text)
  show ?thesis
    using redriveDLQ_requeues [OF std_queue w(1-3) _ _ u r, of std_pg] p
    by (simp add: w UnixMilli_def int64_range_def int4_range_def status_defs zero_task_def case_prod_beta writeJSON_def)
qed

subsection \<open>Statistics\<close>

context task_queue
begin

lemma depths_loop_result:
  assumes "rok w"
  shows "fst (depths_loop R ts ds w) t =
    (if t \<in> set ts
     then Some \<lparr>Ready = int (card (dom (ready R w t))), Delayed = int (card (dom (delayed R w t))),
       DLQ = int (length (dlq R w t))\<rparr>
     else ds t)"
  using assms
proof (induction ts arbitrary: ds w)
  case (Cons t0 ts)
  obtain a w1 where a: "QueueDepth R t0 w = (a, w1)" by fastforce
  obtain b w2 where b: "DelayedDepth R t0 w1 = (b, w2)" by fastforce
  obtain c w3 where c: "DLQDepth R t0 w2 = (c, w3)" by fastforce
  have 1: "a = Inr (int (card (dom (ready R w t0))))" "rds w1 = rds w" "rok w1"
    using rcall_ok(1,3) [OF Cons.prems, of "\<lambda>r. (ZCARD R (QueueKey t0) r, r)"] a [unfolded QueueDepth_def]
    by (simp_all add: ZCARD_card rcall_readD [OF a [unfolded QueueDepth_def]])
  have 2: "b = Inr (int (card (dom (delayed R w t0))))" "rds w2 = rds w" "rok w2"
    using rcall_ok(1,3) [OF 1(3), of "\<lambda>r. (ZCARD R (DelayedKey t0) r, r)"] b [unfolded DelayedDepth_def] 1(2)
    by (simp_all add: ZCARD_card rcall_readD [OF b [unfolded DelayedDepth_def]])
  have 3: "c = Inr (int (length (dlq R w t0)))" "rds w3 = rds w" "rok w3"
    using rcall_ok(1,3) [OF 2(3), of "\<lambda>r. (LLEN R (DLQKey t0) r, r)"] c [unfolded DLQDepth_def] 2(2)
    by (simp_all add: LLEN_length rcall_readD [OF c [unfolded DLQDepth_def]])
  show ?case
    using Cons.IH [OF 3(3)] by (simp add: a b c 1(1) 2(1) 3(1,2) depth_of_def)
qed simp

end

lemma GetStats_rds: "GetStats Q w = (res, w1) \<Longrightarrow> rds w1 = rds w \<and> rnet w1 = rnet w"
proof -
  have q: "rds w1 = rds w \<and> rnet w1 = rnet w" if "pgquery Q f w = (a, w1)" for f a w w1
    using pgquery_frame(1,2) [of Q f w] that by simp
  assume "GetStats Q w = (res, w1)"
  then show ?thesis by (auto simp: GetStats_def Let_def dest!: q split: prod.splits sum.splits)
qed

lemma GetStats_ok:
  assumes "pok w"
  shows "snd (fst (GetStats Q w)) = None"
proof -
  let ?g = "\<lambda>k T. (Inr (scan_groups Q (group_count k (tasks T))), T) :: (err + (string \<times> int) list) \<times> tables"
  obtain a w1 where a: "pgquery Q (?g Status) w = (Inr a, w1)" and "pok w1"
    using pgquery_ok [OF assms, of "?g Status", OF refl, of Q] by (cases "pgquery Q (?g Status) w") simp
  moreover obtain b w2 where "pgquery Q (?g Type) w1 = (Inr b, w2)"
    using pgquery_ok [OF \<open>pok w1\<close>, of "?g Type", OF refl, of Q] by (cases "pgquery Q (?g Type) w1") simp
  ultimately show ?thesis by (cases a; cases b) (simp add: GetStats_def Let_def)
qed



end
