(* ===== verification/Number.thy ===== *)
theory Number
  imports Json Float64
begin

section \<open>Floating point numbers as text (strconv, encoding/json)\<close>

text \<open>
  Number literals of JSON as \<open>float64\<close> values, and the shortest decimal that is read back as a given
  float, in the forms of \<open>%v\<close> and of \<open>encoding/json\<close>.
\<close>

subsection \<open>Reading\<close>

text \<open>The digits of an exponent; \<open>strconv\<close> stops counting at 10000.\<close>

fun exp_digits :: "int \<Rightarrow> string \<Rightarrow> int" where
  "exp_digits e [] = e"
| "exp_digits e (c # s) = exp_digits (if e < 10000 then e * 10 + int (of_char c - 48) else e) s"

definition exp_value :: "string \<Rightarrow> int" where
  "exp_value s =
     (case s of
        [] \<Rightarrow> 0
      | c # t \<Rightarrow> if c = CHR ''-'' then - exp_digits 0 t
          else if c = CHR ''+'' then exp_digits 0 t else exp_digits 0 s)"

text \<open>The exact value of an unsigned literal: digits, a fraction, an exponent.\<close>

definition unsigned_value :: "string \<Rightarrow> rat" where
  "unsigned_value s =
     (let ip = takeWhile is_digit s; s1 = dropWhile is_digit s;
          (fp, s2) = (if s1 \<noteq> [] \<and> hd s1 = CHR ''.''
            then (takeWhile is_digit (tl s1), dropWhile is_digit (tl s1)) else ([], s1));
          e = exp_value (tl s2)
      in of_nat (decimal 0 (ip @ fp)) * 10 powi (e - int (length fp)))"

definition literal_value :: "string \<Rightarrow> rat" where
  "literal_value s =
     (case s of c # t \<Rightarrow> if c = CHR ''-'' then - unsigned_value t else unsigned_value s | [] \<Rightarrow> 0)"

text \<open>What decoding a JSON value into a \<open>float64\<close> field gives; \<open>None\<close> is an error.\<close>

definition ParseFloat :: "string \<Rightarrow> rat option" where
  "ParseFloat v =
     (if v \<noteq> [] \<and> (hd v = CHR ''-'' \<or> is_digit (hd v))
      then (let x = literal_value v in if overflows x then None else Some (f64r x))
      else None)"

subsection \<open>Printing\<close>

text \<open>The position of the decimal point: \<open>10 ^ (dp - 1) \<le> x < 10 ^ dp\<close>.\<close>

definition dec_point :: "rat \<Rightarrow> int" where
  "dec_point x =
     (let (p, q) = quotient_of x; e = int (length (show_nat (nat p))) - int (length (show_nat (nat q)))
      in if 10 powi e \<le> x then e + 1 else e)"

text \<open>
  The shortest digits: \<open>n\<close> digits rounded down or up, whichever is read back as \<open>x\<close>, the nearer
  one when both are. The exact digits of a float are reached when \<open>n\<close> passes \<open>dp + 1074\<close>.
\<close>

definition reads_as :: "rat \<Rightarrow> int \<Rightarrow> nat \<Rightarrow> nat \<Rightarrow> bool" where
  "reads_as x dp n d \<longleftrightarrow> f64r (of_nat d * 10 powi (dp - int n)) = x"

function shortest :: "rat \<Rightarrow> int \<Rightarrow> nat \<Rightarrow> nat \<times> nat" where
  "shortest x dp n =
     (let y = x * 10 powi (int n - dp); d = nat \<lfloor>y\<rfloor>; down = reads_as x dp n d; up = reads_as x dp n (d + 1)
      in if down \<and> up then
           (if y - of_nat d < 1 / 2 \<or> (y - of_nat d = 1 / 2 \<and> even d) then (d, n) else (d + 1, n))
         else if down then (d, n)
         else if up then (d + 1, n)
         else if int n > dp + 1074 then (d, n)
         else shortest x dp (Suc n))"
  by pat_completeness auto
termination
  by (relation "measure (\<lambda>(x, dp, n). nat (dp + 1075 - int n))") auto

declare shortest.simps [simp del]

definition short_digits :: "rat \<Rightarrow> string \<times> int" where
  "short_digits x =
     (let dp = dec_point x; (d, n) = shortest x dp 1; ds = show_nat d
      in (rev (dropWhile (\<lambda>c. c = CHR ''0'') (rev ds)), int (length ds) + dp - int n))"

definition fmtF :: "string \<Rightarrow> int \<Rightarrow> string" where
  "fmtF ds dp =
     (if dp > 0 then take (nat dp) ds @ replicate (nat dp - length ds) (CHR ''0'') else ''0'') @
     (if int (length ds) > dp then CHR ''.'' # replicate (nat (- dp)) (CHR ''0'') @ drop (nat dp) ds else [])"

definition fmtE :: "string \<Rightarrow> int \<Rightarrow> string" where
  "fmtE ds dp =
     (let e = dp - 1; es = show_nat (nat \<bar>e\<bar>)
      in hd ds # (if length ds > 1 then CHR ''.'' # tl ds else []) @ CHR ''e'' #
         (if e < 0 then CHR ''-'' else CHR ''+'') # (if length es < 2 then CHR ''0'' # es else es))"

text \<open>\<open>fmt.Sprintf("%v", x)\<close>.\<close>

definition show_v :: "rat \<Rightarrow> string" where
  "show_v x =
     (if x = 0 then ''0''
      else let (ds, dp) = short_digits \<bar>x\<bar>;
               s = (if dp - 1 < - 4 \<or> dp - 1 \<ge> 6 then fmtE ds dp else fmtF ds dp)
           in if x < 0 then CHR ''-'' # s else s)"

text \<open>\<open>json.Marshal(x)\<close>: the zero in front of a single digit of a negative exponent goes.\<close>

definition trim_exp :: "string \<Rightarrow> string" where
  "trim_exp s =
     (let n = length s
      in if n \<ge> 4 \<and> s ! (n - 4) = CHR ''e'' \<and> (s ! (n - 3) = CHR ''-'' \<or> s ! (n - 3) = CHR ''+'') \<and> s ! (n - 2) = CHR ''0''
         then take (n - 2) s @ [last s] else s)"

definition show_json :: "rat \<Rightarrow> string" where
  "show_json x =
     (if x = 0 then ''0''
      else let (ds, dp) = short_digits \<bar>x\<bar>;
               s = (if \<bar>x\<bar> < f64r (1 / 1000000) \<or> \<bar>x\<bar> \<ge> 10 ^ 21 then trim_exp (fmtE ds dp) else fmtF ds dp)
           in if x < 0 then CHR ''-'' # s else s)"

subsection \<open>The shortest digits are read back\<close>

lemma float_form:
  assumes "f64r x = x"
  shows "\<exists>m u. - 1074 \<le> u \<and> x = of_int m * 2 powi u"
proof (cases "x = 0")
  case False
  then have "x = of_int (round_even (x / 2 powi ulp_exp x)) * 2 powi ulp_exp x"
    using assms by (simp add: f64r_def)
  moreover have "- 1074 \<le> ulp_exp x" by (simp add: ulp_exp_def)
  ultimately show ?thesis by blast
qed (intro exI [of _ 0], simp)

text \<open>Scaled by enough powers of ten, a float is an integer.\<close>

lemma float_scaled:
  assumes "f64r x = x" and "1074 \<le> k"
  shows "\<exists>j. x * 10 powi k = of_int j"
proof -
  obtain m u where u: "- 1074 \<le> u" "x = of_int m * 2 powi u" using float_form [OF assms(1)] by blast
  have "(10 :: rat) powi k = 2 powi k * 5 powi k" by (simp flip: power_int_mult_distrib)
  then have "x * 10 powi k = of_int m * 2 powi (u + k) * 5 powi k"
    by (simp add: u(2) power_int_add)
  also have "\<dots> = of_int (m * 2 ^ nat (u + k) * 5 ^ nat k)"
    using u(1) assms(2) by (simp add: power_int_def)
  finally show ?thesis by blast
qed

lemma shortest_reads:
  assumes "f64r x = x" and "0 < x"
  shows "reads_as x dp (snd (shortest x dp n)) (fst (shortest x dp n))"
  using assms
proof (induction x dp n rule: shortest.induct)
  case (1 x dp n)
  let ?y = "x * 10 powi (int n - dp)"
  let ?d = "nat \<lfloor>?y\<rfloor>"
  have last: "reads_as x dp n ?d" if "int n > dp + 1074"
  proof -
    have "1074 \<le> int n - dp" using that by simp
    from float_scaled [OF "1.prems"(1) this] obtain j where j: "?y = of_int j" by blast
    have "0 < ?y" using "1.prems"(2) by simp
    with j have "of_nat ?d = ?y" by simp
    then have "of_nat ?d * 10 powi (dp - int n) = x" by (simp add: power_int_diff)
    then show ?thesis using "1.prems"(1) by (simp add: reads_as_def)
  qed
  show ?case
  proof (cases "reads_as x dp n ?d \<or> reads_as x dp n (?d + 1)")
    case True
    then show ?thesis by (subst (1 2) shortest.simps) (auto simp: Let_def)
  next
    case False
    with last have n: "\<not> int n > dp + 1074" by blast
    have "shortest x dp n = shortest x dp (Suc n)" using False n by (subst shortest.simps) (simp add: Let_def)
    with "1.IH" [OF HOL.refl HOL.refl HOL.refl HOL.refl _ _ _ n "1.prems"] False show ?thesis by simp
  qed
qed

lemma dec_point_bounds:
  assumes "0 < x"
  shows "10 powi (dec_point x - 1) \<le> x" and "x < 10 powi dec_point x"
proof -
  obtain p q where pq: "quotient_of x = (p, q)" by fastforce
  have q: "0 < q" using quotient_of_denom_pos [OF pq] .
  have x: "x = of_int p / of_int q" using quotient_of_div [OF pq] .
  with assms q have p: "0 < p" by (simp add: zero_less_divide_iff)
  have len: "of_int n < (10 :: rat) ^ length (show_nat (nat n))" "(10 :: rat) ^ length (show_nat (nat n)) \<le> 10 * of_int n"
    if "0 < n" for n
  proof -
    let ?l = "length (show_nat (nat n))"
    have l: "0 < ?l" by simp
    have "int (nat n) < int (10 ^ ?l)" "int (10 ^ (?l - 1)) \<le> int (nat n)"
      using length_show_nat [of "nat n"] that by (simp_all only: of_nat_less_iff of_nat_le_iff zero_less_nat_eq)
    then have "n < 10 ^ ?l" "10 ^ (?l - 1) \<le> n" using that by simp_all
    then have "(of_int n :: rat) < of_int (10 ^ ?l)" "(of_int (10 ^ (?l - 1)) :: rat) \<le> of_int n"
      by (simp_all only: of_int_less_iff of_int_le_iff)
    moreover have "(10 :: rat) ^ ?l = 10 * 10 ^ (?l - 1)" using l by (cases ?l) simp_all
    ultimately show "of_int n < (10 :: rat) ^ ?l" "(10 :: rat) ^ ?l \<le> 10 * of_int n" by simp_all
  qed
  define a b where "a = length (show_nat (nat p))" and "b = length (show_nat (nat q))"
  note a = len [OF p, folded a_def] and b = len [OF q, folded b_def]
  define e where "e = int a - int b"
  have pe: "(10 :: rat) powi e = 10 ^ a / 10 ^ b" by (simp add: e_def power_int_diff)
  have q': "(0::rat) < of_int q" using q by simp
  have up: "x < 10 powi (e + 1)"
  proof -
    have "of_int p * 10 ^ b < 10 ^ a * (10 * of_int q :: rat)"
      using mult_less_le_imp_less [OF a(1) b(2)] p by simp
    then show ?thesis using q' by (simp add: x pe power_int_add field_simps)
  qed
  have low: "10 powi (e - 1) \<le> x"
  proof -
    have "(10 :: rat) ^ a * of_int q \<le> 10 * of_int p * 10 ^ b"
      using mult_mono [OF a(2) less_imp_le [OF b(1)]] p q' by simp
    then show ?thesis using q' by (simp add: x pe power_int_diff field_simps)
  qed
  have l: "dec_point x = (if 10 powi e \<le> x then e + 1 else e)"
    by (simp add: dec_point_def pq Let_def e_def a_def b_def)
  show "10 powi (dec_point x - 1) \<le> x" and "x < 10 powi dec_point x"
    using up low by (simp_all add: l)
qed

lemma shortest_near:
  "n \<le> snd (shortest x dp n) \<and>
   fst (shortest x dp n) \<in> (let d = nat \<lfloor>x * 10 powi (int (snd (shortest x dp n)) - dp)\<rfloor> in {d, d + 1})"
proof (induction x dp n rule: shortest.induct)
  case (1 x dp n)
  let ?d = "nat \<lfloor>x * 10 powi (int n - dp)\<rfloor>"
  show ?case
  proof (cases "reads_as x dp n ?d \<or> reads_as x dp n (?d + 1) \<or> int n > dp + 1074")
    case True
    then have "shortest x dp n = (?d, n) \<or> shortest x dp n = (?d + 1, n)"
      by (subst (1 2) shortest.simps) (auto simp: Let_def)
    then show ?thesis by (auto simp: Let_def)
  next
    case False
    then have "shortest x dp n = shortest x dp (Suc n)" by (subst shortest.simps) (simp add: Let_def)
    with "1.IH" [OF HOL.refl HOL.refl HOL.refl HOL.refl] False show ?thesis by simp
  qed
qed

lemma show_length_shortest:
  assumes "0 < x" and "shortest x (dec_point x) 1 = (d, n)"
  shows "n \<le> length (show_nat d)" and "length (show_nat d) \<le> n + 1"
proof -
  define y where "y = x * 10 powi (int n - dec_point x)"
  have n: "1 \<le> n" and d: "d = nat \<lfloor>y\<rfloor> \<or> d = nat \<lfloor>y\<rfloor> + 1"
    using shortest_near [of 1 x "dec_point x"] assms(2) by (auto simp: Let_def y_def)
  have "10 powi (dec_point x - 1) * 10 powi (int n - dec_point x) \<le> y"
    "y < 10 powi dec_point x * 10 powi (int n - dec_point x)"
    using dec_point_bounds [OF assms(1)] by (simp_all add: y_def)
  then have y: "10 ^ (n - 1) \<le> y" "y < 10 ^ n"
    using n by (simp_all add: of_nat_diff flip: power_int_add power_int_of_nat)
  have "(10 :: int) ^ (n - 1) \<le> \<lfloor>y\<rfloor>" using y(1) by (simp add: le_floor_iff)
  then have "10 ^ (n - 1) \<le> nat \<lfloor>y\<rfloor>" using y(1) by (subst le_nat_iff) (auto intro: order_trans [of 0 "10 ^ (n - 1)"])
  moreover have "nat \<lfloor>y\<rfloor> \<le> d" using d by auto
  ultimately have lo: "10 ^ (n - 1) \<le> d" by (rule le_trans)
  have "\<lfloor>y\<rfloor> < (10 :: int) ^ n" using y(2) by (simp add: floor_less_iff)
  then have "nat \<lfloor>y\<rfloor> < 10 ^ n" using n by (simp add: nat_less_iff)
  then have "nat \<lfloor>y\<rfloor> + 1 \<le> 10 ^ n" by (simp only: Suc_eq_plus1 [symmetric] Suc_le_eq)
  moreover have "d \<le> nat \<lfloor>y\<rfloor> + 1" using d by auto
  ultimately have hi: "d \<le> 10 ^ n" by (rule le_trans [rotated])
  have "(10 :: nat) ^ (n - 1) < 10 ^ length (show_nat d)" using lo length_show_nat(1) [of d] by (rule le_less_trans)
  then have "n - 1 < length (show_nat d)" by (simp add: power_strict_increasing_iff)
  then show "n \<le> length (show_nat d)" by simp
  have "0 < (10 :: nat) ^ (n - 1)" by simp
  from less_le_trans [OF this lo] have "0 < d" .
  from length_show_nat(2) [OF this] hi have "(10 :: nat) ^ (length (show_nat d) - 1) \<le> 10 ^ n" by (rule le_trans)
  then have "length (show_nat d) - 1 \<le> n" by (simp add: power_increasing_iff)
  then show "length (show_nat d) \<le> n + 1" by simp
qed

lemma powi10_less: "(10 :: rat) powi a < 10 powi b \<Longrightarrow> a < b"
  using power_int_increasing [of b a "10 :: rat"] by (cases "a < b") simp_all

lemma dec_point_range:
  assumes "f64r x = x" and "0 < x" and "x < 2 ^ 1024"
  shows "- 1074 \<le> dec_point x" and "dec_point x \<le> 1024"
proof -
  obtain m u where u: "- 1074 \<le> u" "x = of_int m * 2 powi u" using float_form [OF assms(1)] by blast
  have "(0 :: rat) < 2 powi u" by simp
  with assms(2) u(2) have "0 < m" by (auto simp: zero_less_mult_iff)
  then have m: "1 \<le> m" by simp
  have pow: "(10 :: rat) powi (- int k) \<le> 2 powi (- int k)" "(2 :: rat) ^ k \<le> 10 powi (int k)" for k
    by (simp_all add: power_int_minus power_mono)
  have "(10 :: rat) powi (- 1074) \<le> 2 powi (- 1074)" using pow(1) [of 1074] by (simp only: of_nat_numeral)
  also have "\<dots> \<le> 2 powi u" using u(1) by (intro power_int_increasing) simp_all
  also have "\<dots> \<le> x" using m mult_right_mono [of 1 "of_int m" "2 powi u :: rat"] by (simp add: u(2))
  also have "x < 10 powi dec_point x" using assms(2) by (rule dec_point_bounds)
  finally have "- 1074 < dec_point x" by (rule powi10_less)
  then show "- 1074 \<le> dec_point x" by simp
  have "(10 :: rat) powi (dec_point x - 1) \<le> x" using assms(2) by (rule dec_point_bounds)
  also have "x < 2 ^ 1024" by (rule assms(3))
  also have "(2 :: rat) ^ 1024 \<le> 10 powi 1024" using pow(2) [of 1024] by (simp only: of_nat_numeral)
  finally have "dec_point x - 1 < 1024" by (rule powi10_less)
  then show "dec_point x \<le> 1024" by simp
qed

text \<open>The digits that are printed: not empty, no leading zero, and their value is read as the float.\<close>

definition digits_of :: "rat \<Rightarrow> string \<Rightarrow> int \<Rightarrow> bool" where
  "digits_of x ds dp \<longleftrightarrow> list_all is_digit ds \<and> ds \<noteq> [] \<and> hd ds \<noteq> CHR ''0'' \<and> \<bar>dp\<bar> \<le> 1100 \<and>
     f64r (of_nat (decimal 0 ds) * 10 powi (dp - int (length ds))) = x"

lemma strip_zeros:
  obtains k where "s = rev (dropWhile (\<lambda>c. c = CHR ''0'') (rev s)) @ replicate k (CHR ''0'')"
proof -
  let ?z = "takeWhile (\<lambda>c. c = CHR ''0'') (rev s)"
  have "?z = replicate (length ?z) (CHR ''0'')"
    by (rule replicate_eqI [symmetric, THEN HOL.sym]) (auto dest: set_takeWhileD)
  then have "rev ?z = replicate (length ?z) (CHR ''0'')" by (metis rev_replicate)
  moreover have "s = rev (dropWhile (\<lambda>c. c = CHR ''0'') (rev s)) @ rev ?z"
    by (metis rev_append rev_rev_ident takeWhile_dropWhile_id)
  ultimately show thesis using that by metis
qed

lemma short_digits_ok:
  assumes "f64r x = x" and "0 < x" and "x < 2 ^ 1024" and "short_digits x = (ds, dp)"
  shows "digits_of x ds dp"
proof -
  obtain d n where sh: "shortest x (dec_point x) 1 = (d, n)" by fastforce
  let ?s = "show_nat d"
  have ds: "ds = rev (dropWhile (\<lambda>c. c = CHR ''0'') (rev ?s))" and dp: "dp = int (length ?s) + dec_point x - int n"
    using assms(4) sh [unfolded One_nat_def] by (simp_all add: short_digits_def Let_def)
  obtain k where k: "?s = ds @ replicate k (CHR ''0'')" using strip_zeros [of ?s] unfolding ds by blast
  have r: "f64r (of_nat d * 10 powi (dec_point x - int n)) = x"
    using shortest_reads [OF assms(1,2), of "dec_point x" 1] unfolding sh by (simp add: reads_as_def)
  have "0 < d" using r assms(2) by (cases "d = 0") (auto simp: f64r_def)
  have v: "d = decimal 0 ds * 10 ^ k"
    using decimal_show_nat [of d] by (subst (asm) k) (simp add: decimal_append)
  have len: "int (length ?s) = int (length ds) + int k" by (subst k) simp
  have "dec_point x - int n = (dp - int (length ds)) - int k" using dp len by simp
  then have "of_nat d * 10 powi (dec_point x - int n) = (of_nat (decimal 0 ds) * 10 powi (dp - int (length ds)) :: rat)"
    by (simp add: v power_int_diff)
  with r have val: "f64r (of_nat (decimal 0 ds) * 10 powi (dp - int (length ds))) = x" by simp
  have ne: "ds \<noteq> []" using v \<open>0 < d\<close> by auto
  have "hd ?s = hd ds" using ne by (subst k) simp
  then have "hd ds \<noteq> CHR ''0''" using hd_show_nat [OF \<open>0 < d\<close>] by simp
  moreover have "list_all is_digit ds" using digits_show_nat [of d] by (subst (asm) k) simp
  moreover have "\<bar>dp\<bar> \<le> 1100"
    using show_length_shortest [OF assms(2) sh] dec_point_range [OF assms(1-3)] unfolding dp by simp
  ultimately show ?thesis using ne val by (simp add: digits_of_def)
qed

subsection \<open>The text of a number\<close>

definition number_text :: "string \<Rightarrow> string \<Rightarrow> string \<Rightarrow> string" where
  "number_text ip fp ex = ip @ (if fp = [] then [] else CHR ''.'' # fp) @ ex"

definition int_part :: "string \<Rightarrow> bool" where
  "int_part ip \<longleftrightarrow> ip = ''0'' \<or> list_all is_digit ip \<and> ip \<noteq> [] \<and> hd ip \<noteq> CHR ''0''"

definition exp_part :: "string \<Rightarrow> bool" where
  "exp_part ex \<longleftrightarrow> ex = [] \<or> (\<exists>sg es. ex = CHR ''e'' # sg # es \<and> (sg = CHR ''+'' \<or> sg = CHR ''-'') \<and>
     list_all is_digit es \<and> es \<noteq> [])"

lemma int_part_digits: "int_part ip \<Longrightarrow> list_all is_digit ip \<and> ip \<noteq> []"
  by (auto simp: int_part_def is_digit_def)

lemma span_digits:
  assumes "list_all is_digit ds" and "r = [] \<or> \<not> is_digit (hd r)"
  shows "takeWhile is_digit (ds @ r) = ds" and "dropWhile is_digit (ds @ r) = r"
  using assms by (cases r; auto simp: list_all_iff takeWhile_append2 dropWhile_append2)+

lemma unsigned_value_text:
  assumes "int_part ip" and "list_all is_digit fp" and "exp_part ex"
  shows "unsigned_value (number_text ip fp ex) =
    of_nat (decimal 0 (ip @ fp)) * 10 powi (exp_value (tl ex) - int (length fp))"
proof -
  have ex: "ex = [] \<or> \<not> is_digit (hd ex) \<and> hd ex \<noteq> CHR ''.''"
    using assms(3) by (auto simp: exp_part_def is_digit_def)
  have ip: "list_all is_digit ip" using int_part_digits [OF assms(1)] by simp
  show ?thesis
  proof (cases "fp = []")
    case True
    have "takeWhile is_digit (number_text ip fp ex) = ip" "dropWhile is_digit (number_text ip fp ex) = ex"
      using span_digits [OF ip, of ex] ex True by (auto simp: number_text_def)
    with True ex show ?thesis by (auto simp: unsigned_value_def Let_def)
  next
    case False
    have "\<not> is_digit (CHR ''.'')" by (simp add: is_digit_def)
    then have "takeWhile is_digit (number_text ip fp ex) = ip"
      "dropWhile is_digit (number_text ip fp ex) = CHR ''.'' # fp @ ex"
      using span_digits [OF ip, of "CHR ''.'' # fp @ ex"] False by (simp_all add: number_text_def)
    moreover have "takeWhile is_digit (fp @ ex) = fp" "dropWhile is_digit (fp @ ex) = ex"
      using span_digits [OF assms(2), of ex] ex by blast+
    ultimately show ?thesis by (simp add: unsigned_value_def Let_def)
  qed
qed

lemma fmtF_text:
  assumes "list_all is_digit ds" and "ds \<noteq> []" and "hd ds \<noteq> CHR ''0''"
  shows "\<exists>ip fp. fmtF ds dp = number_text ip fp [] \<and> int_part ip \<and> list_all is_digit fp \<and>
    of_nat (decimal 0 (ip @ fp)) * 10 powi (0 - int (length fp)) =
      (of_nat (decimal 0 ds) * 10 powi (dp - int (length ds)) :: rat)"
proof -
  have zero: "is_digit (CHR ''0'')" by (simp add: is_digit_def)
  consider (small) "dp \<le> 0" | (mid) "0 < dp" "dp < int (length ds)" | (big) "int (length ds) \<le> dp" by linarith
  then show ?thesis
  proof cases
    case small
    let ?fp = "replicate (nat (- dp)) (CHR ''0'') @ ds"
    have "0 < int (length ds)" using assms(2) by simp
    then have "dp < int (length ds)" using small by linarith
    then have "fmtF ds dp = number_text ''0'' ?fp []"
      using small assms(2) by (simp add: fmtF_def number_text_def)
    moreover have "list_all is_digit ?fp" using assms(1) zero by (auto simp: list_all_iff)
    moreover have "decimal 0 (''0'' @ ?fp) = decimal 0 ds" by (simp add: decimal_append)
    moreover have "0 - int (length ?fp) = dp - int (length ds)" using small by simp
    ultimately show ?thesis by (intro exI [of _ "''0''"] exI [of _ ?fp]) (simp add: int_part_def)
  next
    case mid
    let ?ip = "take (nat dp) ds" and ?fp = "drop (nat dp) ds"
    have "fmtF ds dp = number_text ?ip ?fp []"
      using mid by (auto simp: fmtF_def number_text_def)
    moreover have "list_all is_digit ?ip" "list_all is_digit ?fp"
      using assms(1) by (auto simp: list_all_iff dest: in_set_takeD in_set_dropD)
    moreover have "?ip \<noteq> []" "hd ?ip \<noteq> CHR ''0''" using mid assms(2,3) by (cases ds; cases "nat dp"; simp)+
    moreover have "0 - int (length ?fp) = dp - int (length ds)" using mid by simp
    ultimately show ?thesis
      by (intro exI [of _ ?ip] exI [of _ ?fp]) (simp add: int_part_def)
  next
    case big
    let ?ip = "ds @ replicate (nat dp - length ds) (CHR ''0'')"
    have "0 < length ds" using assms(2) by simp
    then have dp: "0 < dp" using big by linarith
    have "fmtF ds dp = number_text ?ip [] []"
      using big dp by (simp add: fmtF_def number_text_def)
    moreover have "int_part ?ip" using assms zero by (auto simp: int_part_def list_all_iff)
    moreover have "of_nat (decimal 0 ?ip) = (of_nat (decimal 0 ds) * 10 powi (dp - int (length ds)) :: rat)"
      using big dp by (simp add: decimal_append power_int_def nat_diff_distrib)
    ultimately show ?thesis by (intro exI [of _ ?ip] exI [of _ "[]"]) simp
  qed
qed

lemma exp_digits_decimal: "decimal n es < 100000 \<Longrightarrow> exp_digits (int n) es = int (decimal n es)"
proof (induction es arbitrary: n)
  case (Cons c es)
  let ?n = "10 * n + (of_char c - 48)"
  have "10 * n \<le> decimal ?n es" using decimal_ge [of ?n es] by simp
  then have "int n < 10000" using Cons.prems by simp
  with Cons.IH [of ?n] Cons.prems show ?case by (simp add: mult.commute [of "int n"])
qed simp

definition exp_text :: "bool \<Rightarrow> int \<Rightarrow> string" where
  "exp_text pad e =
     (let es = show_nat (nat \<bar>e\<bar>)
      in CHR ''e'' # (if e < 0 then CHR ''-'' else CHR ''+'') # (if pad \<and> length es < 2 then CHR ''0'' # es else es))"

lemma exp_text_part: "exp_part (exp_text pad e)"
  using digits_show_nat [of "nat \<bar>e\<bar>"] by (auto simp: exp_part_def exp_text_def Let_def is_digit_def)

lemma exp_text_value: "\<bar>e\<bar> < 100000 \<Longrightarrow> exp_value (tl (exp_text pad e)) = e"
proof -
  assume e: "\<bar>e\<bar> < 100000"
  let ?es = "show_nat (nat \<bar>e\<bar>)"
  have "decimal 0 ?es < 100000" using e by (simp add: decimal_show_nat)
  then have v: "exp_digits 0 ?es = \<bar>e\<bar>" using exp_digits_decimal [of 0 ?es] by (simp add: decimal_show_nat)
  then have "exp_digits 0 (CHR ''0'' # ?es) = \<bar>e\<bar>" by simp
  with v show ?thesis by (auto simp: exp_text_def exp_value_def Let_def)
qed

lemma fmtE_text:
  assumes "list_all is_digit ds" and "ds \<noteq> []" and "hd ds \<noteq> CHR ''0''"
  shows "fmtE ds dp = number_text [hd ds] (tl ds) (exp_text True (dp - 1))"
    and "trim_exp (fmtE ds dp) = number_text [hd ds] (tl ds) (exp_text False (dp - 1))"
proof -
  show E: "fmtE ds dp = number_text [hd ds] (tl ds) (exp_text True (dp - 1))"
    using assms(2) by (cases "tl ds") (auto simp: fmtE_def number_text_def exp_text_def Let_def neq_Nil_conv)
  define es where "es = show_nat (nat \<bar>dp - 1\<bar>)"
  define A where "A = [hd ds] @ (if tl ds = [] then [] else CHR ''.'' # tl ds)"
  define sg where "sg = (if dp - 1 < 0 then CHR ''-'' else CHR ''+'')"
  have sg: "sg = CHR ''-'' \<or> sg = CHR ''+''" by (simp add: sg_def)
  have es: "list_all is_digit es" "es \<noteq> []" using digits_show_nat by (simp_all add: es_def)
  show "trim_exp (fmtE ds dp) = number_text [hd ds] (tl ds) (exp_text False (dp - 1))"
    unfolding E
  proof (cases "length es < 2")
    case True
    with es(2) obtain c where c: "es = [c]" by (cases es) auto
    have "number_text [hd ds] (tl ds) (exp_text True (dp - 1)) = A @ [CHR ''e'', sg, CHR ''0'', c]"
      "number_text [hd ds] (tl ds) (exp_text False (dp - 1)) = A @ [CHR ''e'', sg, c]"
      using c by (simp_all add: number_text_def exp_text_def Let_def A_def sg_def es_def)
    then show "trim_exp (number_text [hd ds] (tl ds) (exp_text True (dp - 1))) =
        number_text [hd ds] (tl ds) (exp_text False (dp - 1))"
      using sg by (simp add: trim_exp_def nth_append)
  next
    case False
    have t: "number_text [hd ds] (tl ds) (exp_text pad (dp - 1)) = A @ CHR ''e'' # sg # es" for pad
      using False by (simp add: number_text_def exp_text_def Let_def A_def sg_def es_def)
    have "trim_exp (A @ CHR ''e'' # sg # es) = A @ CHR ''e'' # sg # es"
    proof (cases "length es = 2")
      case True
      then obtain a b where ab: "es = [a, b]" by (auto simp: length_Suc_conv numeral_2_eq_2)
      have "0 < nat \<bar>dp - 1\<bar>"
      proof (rule ccontr)
        assume "\<not> 0 < nat \<bar>dp - 1\<bar>"
        then have "es = show_nat 0" by (simp add: es_def)
        with ab show False by (simp add: show_nat_digit)
      qed
      then have "a \<noteq> CHR ''0''" using hd_show_nat [of "nat \<bar>dp - 1\<bar>"] ab by (simp add: es_def [symmetric])
      then show ?thesis by (simp add: ab trim_exp_def nth_append)
    next
      case F: False
      define k where "k = length es - 3"
      have k: "length es = Suc (Suc (Suc k))" using F False by (simp add: k_def)
      have "(sg # es) ! k \<noteq> CHR ''e''"
      proof (cases k)
        case (Suc j)
        then have "es ! j \<in> set es" using k by simp
        then have "is_digit (es ! j)" using es(1) by (simp add: list_all_iff)
        then show ?thesis by (auto simp: Suc is_digit_def)
      qed (use sg in auto)
      moreover have "length A + Suc (Suc (length es)) - 4 = length A + Suc k" using k by simp
      ultimately show ?thesis by (simp add: trim_exp_def Let_def nth_append)
    qed
    then show "trim_exp (number_text [hd ds] (tl ds) (exp_text True (dp - 1))) =
        number_text [hd ds] (tl ds) (exp_text False (dp - 1))" by (simp only: t)
  qed
qed

text \<open>A printed float: a well-formed number whose exact value rounds to it.\<close>

definition prints :: "rat \<Rightarrow> string \<Rightarrow> bool" where
  "prints x s \<longleftrightarrow> (\<exists>ip fp ex. s = number_text ip fp ex \<and> int_part ip \<and> list_all is_digit fp \<and> exp_part ex \<and>
     f64r (of_nat (decimal 0 (ip @ fp)) * 10 powi (exp_value (tl ex) - int (length fp))) = x)"

lemma prints_fmtF:
  assumes "digits_of x ds dp"
  shows "prints x (fmtF ds dp)"
proof -
  have d: "list_all is_digit ds" "ds \<noteq> []" "hd ds \<noteq> CHR ''0''"
    and v: "f64r (of_nat (decimal 0 ds) * 10 powi (dp - int (length ds))) = x"
    using assms by (simp_all add: digits_of_def)
  obtain ip fp where "fmtF ds dp = number_text ip fp []" "int_part ip" "list_all is_digit fp"
    and e: "of_nat (decimal 0 (ip @ fp)) * 10 powi (0 - int (length fp)) =
      (of_nat (decimal 0 ds) * 10 powi (dp - int (length ds)) :: rat)"
    using fmtF_text [OF d, of dp] by blast
  moreover have "exp_value (tl []) = 0" "exp_part []" by (simp_all add: exp_value_def exp_part_def)
  ultimately show ?thesis using v unfolding prints_def by metis
qed

lemma prints_exp:
  assumes "digits_of x ds dp"
  shows "prints x (number_text [hd ds] (tl ds) (exp_text pad (dp - 1)))"
proof -
  have d: "list_all is_digit ds" "ds \<noteq> []" "hd ds \<noteq> CHR ''0''" "\<bar>dp\<bar> \<le> 1100"
    and v: "f64r (of_nat (decimal 0 ds) * 10 powi (dp - int (length ds))) = x"
    using assms by (simp_all add: digits_of_def)
  have ds: "[hd ds] @ tl ds = ds" using d(2) by simp
  have "exp_value (tl (exp_text pad (dp - 1))) = dp - 1" using d(4) by (intro exp_text_value) simp
  then have "exp_value (tl (exp_text pad (dp - 1))) - int (length (tl ds)) = dp - int (length ds)"
    using d(2) by (cases ds) simp_all
  moreover have "int_part [hd ds]" "list_all is_digit (tl ds)" using d(1-3) by (cases ds; simp add: int_part_def)+
  ultimately show ?thesis
    unfolding prints_def using v exp_text_part [of pad "dp - 1"] by (metis ds)
qed

lemma prints_show:
  assumes "f64r x = x" and "0 < x" and "x < 2 ^ 1024"
  shows "prints x (show_v x)" and "prints x (show_json x)"
proof -
  obtain ds dp where sd: "short_digits x = (ds, dp)" by fastforce
  have d: "digits_of x ds dp" by (rule short_digits_ok [OF assms sd])
  then have ds: "list_all is_digit ds" "ds \<noteq> []" "hd ds \<noteq> CHR ''0''" by (simp_all add: digits_of_def)
  have "prints x (fmtE ds dp)" by (simp only: fmtE_text(1) [OF ds] prints_exp [OF d])
  moreover have "prints x (trim_exp (fmtE ds dp))" by (simp only: fmtE_text(2) [OF ds] prints_exp [OF d])
  ultimately show "prints x (show_v x)" "prints x (show_json x)"
    using assms(2) sd prints_fmtF [OF d] by (simp_all add: show_v_def show_json_def)
qed

lemma ParseFloat_prints:
  assumes "prints x s" and "0 < x" and "x < 2 ^ 1024"
  shows "ParseFloat s = Some x"
proof -
  obtain ip fp ex where s: "s = number_text ip fp ex" and p: "int_part ip" "list_all is_digit fp" "exp_part ex"
    and v: "f64r (of_nat (decimal 0 (ip @ fp)) * 10 powi (exp_value (tl ex) - int (length fp))) = x"
    using assms(1) unfolding prints_def by blast
  obtain c t where c: "ip = c # t" "is_digit c" using int_part_digits [OF p(1)] by (cases ip) auto
  then have "c \<noteq> CHR ''-''" by (auto simp: is_digit_def)
  moreover have "hd s = c" "s \<noteq> []" using c by (simp_all add: s number_text_def)
  ultimately have "literal_value s = unsigned_value s" by (cases s) (auto simp: literal_value_def)
  with unsigned_value_text [OF p] v have "f64r (literal_value s) = x" by (simp add: s)
  with \<open>hd s = c\<close> \<open>s \<noteq> []\<close> c(2) assms(2,3) show ?thesis by (simp add: ParseFloat_def overflows_def Let_def)
qed

subsection \<open>Printed numbers are JSON\<close>

lemma plain_run:
  assumes "list_all is_digit ds" and "\<And>c. is_digit c \<Longrightarrow> step (st, []) c = Some (st, [])" and "plain (st, []) r"
  shows "plain (st, []) (ds @ r)"
  using assms(1) by (induction ds) (use assms(2,3) digit_plain in auto)

lemma plain_exp: "exp_part ex \<Longrightarrow> st \<in> {NumInt, NumZero, Dot0} \<Longrightarrow> plain (st, []) ex"
proof -
  assume ex: "exp_part ex" and st: "st \<in> {NumInt, NumZero, Dot0}"
  show "plain (st, []) ex"
  proof (cases "ex = []")
    case False
    then obtain sg d es where e: "ex = CHR ''e'' # sg # d # es" "sg = CHR ''+'' \<or> sg = CHR ''-''"
      "is_digit d" "list_all is_digit es"
      using ex by (auto simp: exp_part_def neq_Nil_conv)
    have "plain (Exp0, []) (es @ [])"
      by (rule plain_run [OF e(4)]) (simp_all add: final_def num_final_def)
    moreover have "\<not> is_digit (CHR ''e'')" by (simp add: is_digit_def)
    ultimately show ?thesis
      using st e(2,3) digit_plain [OF e(3)] by (auto simp: e(1) num0_def exp_sign_def is_space_def)
  qed (use st in \<open>auto simp: final_def num_final_def\<close>)
qed

lemma plain_prints:
  assumes "prints x s"
  shows "plain start s"
proof -
  obtain ip fp ex where s: "s = number_text ip fp ex" and p: "int_part ip" "list_all is_digit fp" "exp_part ex"
    using assms unfolding prints_def by blast
  define r where "r = (if fp = [] then [] else CHR ''.'' # fp) @ ex"
  have r: "plain (st, []) r" if "st \<in> {NumInt, NumZero}" for st
  proof (cases "fp = []")
    case True
    with plain_exp [OF p(3), of st] that show ?thesis by (auto simp: r_def)
  next
    case False
    then obtain d fs where f: "fp = d # fs" "is_digit d" "list_all is_digit fs" using p(2) by (cases fp) auto
    have "plain (Dot0, []) (fs @ ex)" by (rule plain_run [OF f(3)]) (simp_all add: plain_exp [OF p(3)])
    moreover have "\<not> is_digit (CHR ''.'')" by (simp add: is_digit_def)
    ultimately show ?thesis
      using that digit_plain [OF f(2)] f(1,2) by (auto simp: r_def num0_def is_space_def)
  qed
  show ?thesis
  proof (cases "ip = ''0''")
    case True
    then show ?thesis using r [of NumZero] by (simp add: s number_text_def r_def [symmetric] begin_value_def is_space_def)
  next
    case False
    with p(1) obtain c t where c: "ip = c # t" "is_digit c" "list_all is_digit t" "c \<noteq> CHR ''0''"
      by (cases ip) (auto simp: int_part_def)
    have "plain (NumInt, []) (t @ r)" by (rule plain_run [OF c(3)]) (simp_all add: r)
    then show ?thesis
      using c(2,4) digit_plain [OF c(2)] by (auto simp: s number_text_def r_def [symmetric] c(1) begin_value_def)
  qed
qed

text \<open>Both forms of a positive finite float are read back.\<close>

definition pos_float :: "rat \<Rightarrow> bool" where
  "pos_float x \<longleftrightarrow> f64r x = x \<and> 0 < x \<and> x < 2 ^ 1024"

interpretation v_text: text_form show_v ParseFloat pos_float
  by unfold_locales (auto simp: pos_float_def prints_show ParseFloat_prints, simp add: ParseFloat_def)

interpretation json_text: text_form show_json ParseFloat pos_float
  by unfold_locales (auto simp: pos_float_def prints_show ParseFloat_prints, simp add: ParseFloat_def)

end
