(* ===== verification/Json_Object.thy ===== *)
theory Json_Object
  imports Json
begin

section \<open>Objects are well-formed JSON\<close>

text \<open>
  The text of an object whose members are strings and well-formed values passes the scanner of
  \<open>encoding/json\<close>: a value is scanned inside an object as it is at the top level.
\<close>


text \<open>A configuration of the scanner inside further brackets.\<close>

definition nested :: "pstate list \<Rightarrow> conf \<Rightarrow> conf" where
  "nested stk cf = (if fst cf = EndTop then EndValue else fst cf, snd cf @ stk)"

definition opened :: "conf \<Rightarrow> bool" where
  "opened cf \<longleftrightarrow> (fst cf = BeginStringOrEmpty \<longrightarrow> snd cf \<noteq> []) \<and> (fst cf = EndTop \<longrightarrow> snd cf = [])"

lemma end_value_nested:
  assumes "end_value ps c = Some cf'" and "\<not> is_space c" and "stk \<noteq> []"
  shows "end_value (ps @ stk) c = Some (nested stk cf') \<and> opened cf'"
  using assms by (auto simp: end_value_def pop_def nested_def opened_def split: list.splits pstate.splits if_splits)

lemma begin_value_nested:
  assumes "begin_value ps c = Some cf'" and "\<not> is_space c"
  shows "begin_value (ps @ stk) c = Some (nested stk cf') \<and> opened cf'"
  using assms by (auto simp: begin_value_def nested_def opened_def split: if_splits)

lemma begin_string_nested:
  assumes "begin_string ps c = Some cf'" and "\<not> is_space c"
  shows "begin_string (ps @ stk) c = Some (nested stk cf') \<and> opened cf'"
  using assms by (auto simp: begin_string_def nested_def opened_def split: if_splits)

lemma num0_nested:
  assumes "num0 ps c = Some cf'" and "\<not> is_space c" and "stk \<noteq> []"
  shows "num0 (ps @ stk) c = Some (nested stk cf') \<and> opened cf'"
  using assms end_value_nested [OF _ assms(2,3), of ps cf']
  by (auto simp: num0_def nested_def opened_def split: if_splits)

lemma step_ignores_stack:
  assumes "step (st, ps) c = Some cf'" and "st \<in> {InString, InStringEsc, Neg, Dot, ExpE, ExpSign,
    LitT, LitTr, LitTru, LitF, LitFa, LitFal, LitFals, LitN, LitNu, LitNul}"
  shows "\<exists>st'. cf' = (st', ps) \<and> step (st, qs) c = Some (st', qs) \<and> st' \<noteq> BeginStringOrEmpty \<and> st' \<noteq> EndTop"
  using assms by (elim insertE) (simp_all add: exp_sign_def split: if_splits, auto)

lemma step_nested:
  assumes "step cf c = Some cf'" and "opened cf" and "\<not> (is_space c \<and> fst cf \<noteq> InString)" and "stk \<noteq> []"
  shows "step (nested stk cf) c = Some (nested stk cf') \<and> opened cf'"
proof -
  obtain st ps where cf: "cf = (st, ps)" by fastforce
  have n: "nested stk cf = (st, ps @ stk)" if "st \<noteq> EndTop" using that by (simp add: cf nested_def)
  have sp: "\<not> is_space c" if "st \<noteq> InString" using assms(3) that by (simp add: cf)
  show ?thesis
  proof (cases st)
    case BeginStringOrEmpty
    with assms(2) have ps: "ps \<noteq> []" by (simp add: cf opened_def)
    show ?thesis
    proof (cases "c = CHR ''}''")
      case True
      with BeginStringOrEmpty sp assms(1) have "end_value (ObjectValue # tl ps) c = Some cf'" by (simp add: cf)
      from end_value_nested [OF this _ assms(4)] True BeginStringOrEmpty sp ps n show ?thesis by simp
    next
      case False
      with BeginStringOrEmpty sp assms(1) have "begin_string ps c = Some cf'" by (simp add: cf)
      from begin_string_nested [OF this, of stk] False BeginStringOrEmpty sp n show ?thesis by simp
    qed
  next
    case BeginValueOrEmpty
    show ?thesis
    proof (cases "c = CHR '']''")
      case True
      with BeginValueOrEmpty sp assms(1) have "end_value ps c = Some cf'" by (simp add: cf)
      from end_value_nested [OF this _ assms(4)] True BeginValueOrEmpty sp n show ?thesis by simp
    next
      case False
      with BeginValueOrEmpty sp assms(1) have "begin_value ps c = Some cf'" by (simp add: cf)
      from begin_value_nested [OF this, of stk] False BeginValueOrEmpty sp n show ?thesis by simp
    qed
  next
    case BeginValue
    with assms(1) begin_value_nested [of ps c cf' stk] sp n show ?thesis by (simp add: cf)
  next
    case BeginString
    with assms(1) begin_string_nested [of ps c cf' stk] sp n show ?thesis by (simp add: cf)
  next
    case EndValue
    with assms(1) end_value_nested [of ps c cf' stk] sp n assms(4) show ?thesis by (simp add: cf)
  next
    case EndTop
    with assms(1) sp show ?thesis by (simp add: cf)
  next
    case NumInt
    with assms(1,4) num0_nested [of ps c cf' stk] sp n show ?thesis
      by (cases "is_digit c") (auto simp: cf nested_def opened_def)
  next
    case NumZero
    with assms(1,4) num0_nested [of ps c cf' stk] sp n show ?thesis by (simp add: cf)
  next
    case Dot0
    with assms(1,4) end_value_nested [of ps c cf' stk] sp n show ?thesis
      by (cases "is_digit c"; cases "c = CHR ''e'' \<or> c = CHR ''E''") (auto simp: cf nested_def opened_def)
  next
    case Exp0
    with assms(1,4) end_value_nested [of ps c cf' stk] sp n show ?thesis
      by (cases "is_digit c") (auto simp: cf nested_def opened_def)
  next
    case (InStringEscU m)
    with assms(1) show ?thesis by (cases m) (auto simp: cf nested_def opened_def split: if_splits)
  qed (use step_ignores_stack [OF assms(1) [unfolded cf], of "ps @ stk"] in
    \<open>auto simp: cf nested_def opened_def simp del: step.simps\<close>)
qed

text \<open>What follows a value inside an object.\<close>

lemma final_nested:
  assumes "final cf" and "c \<in> set '':,}''"
  shows "step (nested stk cf) c = step (EndValue, stk) c"
proof -
  have "\<not> is_digit c" "c \<noteq> CHR ''.''" "c \<noteq> CHR ''e''" "c \<noteq> CHR ''E''" using assms(2) by (auto simp: is_digit_def)
  with assms(1) show ?thesis by (cases cf) (auto simp: final_def num_final_def nested_def num0_def)
qed

lemma plain_nested:
  assumes "plain cf t" and "opened cf" and "plain (EndValue, stk) (c # r)" and "c \<in> set '':,}''" and "stk \<noteq> []"
  shows "plain (nested stk cf) (t @ c # r)"
  using assms(1,2)
proof (induction cf t rule: plain.induct)
  case (1 cf)
  have "\<not> is_space c" "c \<notin> set ''<>&''" using assms(4) by (auto simp: is_space_def)
  with final_nested [OF _ assms(4), of cf stk] 1 assms(3) show ?case by (cases "step (EndValue, stk) c") simp_all
next
  case (2 cf d s)
  then obtain cf' where st: "step cf d = Some cf'" and p: "plain cf' s" "\<not> (is_space d \<and> fst cf \<noteq> InString)" "d \<notin> set ''<>&''"
    by (auto split: option.splits)
  from step_nested [OF st "2.prems"(2) p(2) assms(5)]
  have n: "step (nested stk cf) d = Some (nested stk cf')" "opened cf'" by simp_all
  have "fst (nested stk cf) = InString \<longleftrightarrow> fst cf = InString" by (simp add: nested_def)
  with "2.IH" [OF st p(1) n(2)] n(1) p(2,3) show ?case by simp
qed

lemma plain_fields:
  assumes "\<forall>(k, v)\<in>set fs. (\<exists>n. k = quote n) \<and> plain start v" and "fs \<noteq> []"
  shows "plain (BeginString, [ObjectKey]) (fields_text fs @ ''}'')"
  using assms
proof (induction fs)
  case (Cons f fs)
  obtain n v where f: "f = (quote n, v)" and v: "plain start v" using Cons.prems(1) by (cases f) auto
  let ?r = "if fs = [] then ''}'' else CHR '','' # fields_text fs @ ''}''"
  have r: "plain (EndValue, [ObjectValue]) ?r"
    using Cons by (simp add: end_value_def is_space_def pop_def final_def)
  obtain c r' where c: "?r = c # r'" "c \<in> set '':,}''" by (cases "fs = []") auto
  have "plain (nested [ObjectValue] start) (v @ ?r)"
    unfolding c(1) by (rule plain_nested [OF v]) (use r c in \<open>simp_all add: opened_def\<close>)
  then have "plain (EndValue, [ObjectKey]) (CHR '':'' # v @ ?r)"
    by (simp add: nested_def end_value_def is_space_def)
  from plain_nested [OF plain_quote [of n] _ this] have "plain (BeginValue, [ObjectKey]) (quote n @ CHR '':'' # v @ ?r)"
    by (simp add: nested_def opened_def)
  then have "plain (BeginString, [ObjectKey]) (quote n @ CHR '':'' # v @ ?r)"
    by (simp add: quote_def begin_value_def begin_string_def is_space_def)
  then show ?case by (simp add: f split: if_splits)
qed simp

lemma plain_object:
  assumes "\<forall>(k, v)\<in>set fs. (\<exists>n. k = quote n) \<and> plain start v" and "fs \<noteq> []"
  shows "plain start (object_text fs)"
proof -
  obtain n v fs' where fs: "fs = (quote n, v) # fs'" using assms by (cases fs) auto
  then obtain t where t: "fields_text fs @ ''}'' = dq # t" by (simp add: quote_def)
  have "plain (BeginString, [ObjectKey]) (dq # t)" using plain_fields [OF assms] by (simp only: t)
  then have "plain (BeginStringOrEmpty, [ObjectKey]) (dq # t)" by (simp add: is_space_def begin_string_def)
  then show ?thesis unfolding object_text_def t by (simp add: begin_value_def is_space_def)
qed

end
