(* ===== verification/Handlers.thy ===== *)
theory Handlers
  imports Api Number Json_Object
begin

section \<open>The demo handlers (internal/task/handlers.go)\<close>

text \<open>
  The built-in handlers. An error of \<open>json.Unmarshal\<close> is ignored by the code: a text that is not a
  JSON object leaves the struct as it is, and so does a member of the wrong kind. What differs from
  call to call is an argument of a handler: when its context ends and with which error, and what
  \<open>rand.Float64()\<close> draws. \<open>RegisterDefaults\<close> builds the registry that one execution sees.
\<close>

definition payload_members :: "string \<Rightarrow> (string \<times> string) list" where
  "payload_members payload =
     (if length payload > 0 \<and> json_raw_ok payload
      then (case object_members payload of None \<Rightarrow> [] | Some ms \<Rightarrow> ms) else [])"

definition echoHandler :: handler where
  "echoHandler t = Inr (Payload t)"

record emailPayload =
  To :: string
  Subject :: string

definition store_email :: "string \<times> string \<Rightarrow> emailPayload \<Rightarrow> emailPayload" where
  "store_email kv p =
     (case (unquote (fst kv), unquote (snd kv)) of
        (Some name, Some v) \<Rightarrow>
          if fold_name name = ''to'' then p\<lparr>To := v\<rparr>
          else if fold_name name = ''subject'' then p\<lparr>Subject := v\<rparr> else p
      | _ \<Rightarrow> p)"

definition email_payload :: "string \<Rightarrow> emailPayload" where
  "email_payload payload = fold store_email (payload_members payload) \<lparr>To = '''', Subject = ''''\<rparr>"

text \<open>\<open>%q\<close>: Go's quoted form; bytes from 128 on belong to printable letters.\<close>

definition quote_char :: "char \<Rightarrow> string" where
  "quote_char c =
     (if c = dq \<or> c = bs then [bs, c]
      else if c = CHR 0x07 then [bs, CHR ''a'']
      else if c = CHR 0x08 then [bs, CHR ''b'']
      else if c = CHR 0x0C then [bs, CHR ''f'']
      else if c = CHR 0x0A then [bs, CHR ''n'']
      else if c = CHR 0x0D then [bs, CHR ''r'']
      else if c = CHR 0x09 then [bs, CHR ''t'']
      else if c = CHR 0x0B then [bs, CHR ''v'']
      else if (of_char c :: nat) < 32 \<or> (of_char c :: nat) = 127
      then [bs, CHR ''x'', hex_digit (of_char c div 16), hex_digit (of_char c mod 16)]
      else [c])"

definition emailHandler :: handler where
  "emailHandler t =
     (let p = email_payload (Payload t)
      in if CHR ''@'' \<notin> set (To p)
         then Inl (''invalid recipient: '' @ [dq] @ concat (map quote_char (To p)) @ [dq])
         else Inr (object_text [(quote ''delivered'', ''true'')]))"

text \<open>A field of type \<open>float64\<close>.\<close>

definition store_float :: "string \<Rightarrow> string \<times> string \<Rightarrow> rat \<Rightarrow> rat" where
  "store_float name kv x =
     (case unquote (fst kv) of
        None \<Rightarrow> x
      | Some k \<Rightarrow>
          if fold_name k = name then (case ParseFloat (snd kv) of None \<Rightarrow> x | Some y \<Rightarrow> y) else x)"

record sleepPayload =
  Seconds :: rat

definition sleep_payload :: "string \<Rightarrow> sleepPayload" where
  "sleep_payload payload = \<lparr>Seconds = fold (store_float ''seconds'') (payload_members payload) 0\<rparr>"

text \<open>\<open>time.Duration(p.Seconds * float64(time.Second))\<close>; the seconds are positive.\<close>

definition sleep_nanos :: "(gofloat \<Rightarrow> int) \<Rightarrow> rat \<Rightarrow> int" where
  "sleep_nanos conv s =
     (let y = s * 1000000000
      in if overflows y then conv PosInf
         else let q = \<lfloor>f64r y\<rfloor> in if int64_range q then q else conv (Fin q))"

text \<open>
  The context ends after \<open>limit\<close> nanoseconds with the error \<open>e\<close>; when both cases of the
  \<open>select\<close> are ready at the same time, \<open>timer_first\<close> tells which one Go picks.
\<close>

definition sleepHandler :: "(gofloat \<Rightarrow> int) \<Rightarrow> int \<Rightarrow> string \<Rightarrow> bool \<Rightarrow> handler" where
  "sleepHandler conv limit e timer_first t =
     (let p = sleep_payload (Payload t);
          p = (if Seconds p \<le> 0 then p\<lparr>Seconds := f64r (1 / 10)\<rparr> else p);
          d = sleep_nanos conv (Seconds p)
      in if d < limit \<or> (d = limit \<and> timer_first)
         then Inr (object_text [(quote ''slept_seconds'', show_v (Seconds p))])
         else Inl e)"

record flakyPayload =
  FailRate :: rat

definition flaky_payload :: "string \<Rightarrow> flakyPayload" where
  "flaky_payload payload = \<lparr>FailRate = fold (store_float ''fail_rate'') (payload_members payload) 0\<rparr>"

text \<open>\<open>rand.Float64()\<close> for the draw \<open>k\<close>, as in \<open>Backoff\<close>.\<close>

definition rand_Float64 :: "int \<Rightarrow> rat" where
  "rand_Float64 k = of_int (f64 k) / 2 ^ 63"

definition flakyHandler :: "int \<Rightarrow> handler" where
  "flakyHandler k t =
     (let p = flaky_payload (Payload t);
          p = (if FailRate p \<le> 0 then p\<lparr>FailRate := f64r (3 / 10)\<rparr> else p)
      in if rand_Float64 k < FailRate p then Inl ''simulated transient failure''
         else Inr (object_text [(quote ''ok'', ''true'')]))"

definition RegisterDefaults ::
  "(gofloat \<Rightarrow> int) \<Rightarrow> int \<Rightarrow> string \<Rightarrow> bool \<Rightarrow> int \<Rightarrow> registry \<Rightarrow> registry" where
  "RegisterDefaults conv limit e timer_first k r =
     Register ''email'' emailHandler (Register ''flaky'' (flakyHandler k)
       (Register ''sleep'' (sleepHandler conv limit e timer_first) (Register ''echo'' echoHandler r)))"

lemma RegisterDefaults_Lookup:
  "Lookup (RegisterDefaults conv limit e tf k NewRegistry) ''echo'' = Some echoHandler"
  "Lookup (RegisterDefaults conv limit e tf k NewRegistry) ''email'' = Some emailHandler"
  "Lookup (RegisterDefaults conv limit e tf k NewRegistry) ''sleep'' = Some (sleepHandler conv limit e tf)"
  "Lookup (RegisterDefaults conv limit e tf k NewRegistry) ''flaky'' = Some (flakyHandler k)"
  by (simp_all add: RegisterDefaults_def Lookup_Register)

subsection \<open>What the handlers read of a payload\<close>

lemma payload_members_text:
  assumes "\<forall>(k, v)\<in>set fs. (\<exists>n. k = quote n) \<and> plain start v" and "fs \<noteq> []"
  shows "payload_members (object_text fs) = fs"
proof -
  have "object_members (object_text fs) = Some fs"
    using assms plain_quote by (intro object_members_text) auto
  moreover have "json_raw_ok (object_text fs)"
    using plain_compact [OF plain_object [OF assms]] by (simp add: json_raw_ok_def)
  moreover have "object_text fs \<noteq> []" by (simp add: object_text_def)
  ultimately show ?thesis by (simp add: payload_members_def)
qed

lemma fold_names:
  "fold_name ''to'' = ''to''" "fold_name ''subject'' = ''subject''" "fold_name ''seconds'' = ''seconds''"
  "fold_name ''fail_rate'' = ''fail_rate''"
  by code_simp+

lemma store_float_name:
  "fold_name name = name \<Longrightarrow> ParseFloat v = Some x \<Longrightarrow> store_float name (quote name, v) y = x"
  by (simp add: store_float_def unquote_quote)

text \<open>A payload with one number.\<close>

definition number_payload :: "string \<Rightarrow> rat \<Rightarrow> string" where
  "number_payload name x = object_text [(quote name, show_json x)]"

lemma number_payload_read:
  assumes "f64r x = x" and "0 < x" and "x < 2 ^ 1024" and "fold_name name = name"
  shows "fold (store_float name) (payload_members (number_payload name x)) 0 = x"
proof -
  have p: "prints x (show_json x)" by (rule prints_show [OF assms(1-3)])
  have "payload_members (number_payload name x) = [(quote name, show_json x)]"
    unfolding number_payload_def by (rule payload_members_text) (auto simp: plain_prints [OF p])
  then show ?thesis by (simp add: store_float_name [OF assms(4) ParseFloat_prints [OF p assms(2,3)]])
qed

text \<open>
  The e-mail handler reads the recipient that a client encoded: for a payload whose members are
  a subject and a recipient as JSON strings, in this order, with any characters in them, the
  handler delivers exactly when the recipient contains an at sign.
\<close>

lemma emailHandler_recipient:
  "(\<exists>r. emailHandler (t\<lparr>Payload := object_text [(quote ''subject'', quote sub), (quote ''to'', quote to)]\<rparr>) = Inr r) \<longleftrightarrow>
     CHR ''@'' \<in> set to"
proof -
  let ?fs = "[(quote ''subject'', quote sub), (quote ''to'', quote to)]"
  have "payload_members (object_text ?fs) = ?fs"
    by (rule payload_members_text) (auto simp: plain_quote)
  then have "To (email_payload (object_text ?fs)) = to"
    by (simp add: email_payload_def store_email_def unquote_quote fold_names del: fold_name.simps)
  then show ?thesis by (simp add: emailHandler_def Let_def)
qed

text \<open>
  The failure rate of the flaky handler: for a payload with a positive rate it fails exactly for the
  draws below that rate, so always for a rate of 1 or more.
\<close>

lemma flakyHandler_rate:
  assumes "f64r x = x" and "0 < x" and "x < 2 ^ 1024" and "Payload t = number_payload ''fail_rate'' x"
  shows "flakyHandler k t = (if rand_Float64 k < x then Inl ''simulated transient failure''
    else Inr (object_text [(quote ''ok'', ''true'')]))"
  using number_payload_read [OF assms(1-3) fold_names(4)] assms(2,4)
  by (simp add: flakyHandler_def flaky_payload_def Let_def)

text \<open>
  The sleep handler reports what it slept: for a payload that encodes any positive finite number of
  seconds, and a context that lives longer than that, the result is a JSON object whose only member is
  read back as the same number of seconds; and when the context ends before, the handler returns
  its error.
\<close>

theorem sleepHandler_reports:
  assumes "f64r x = x" and "0 < x" and "x < 2 ^ 1024" and "Payload t = number_payload ''seconds'' x"
  shows "(sleep_nanos conv x < limit \<longrightarrow>
      (\<exists>r v. sleepHandler conv limit e tf t = Inr r \<and> payload_members r = [(quote ''slept_seconds'', v)] \<and>
        ParseFloat v = Some x)) \<and>
    (limit < sleep_nanos conv x \<longrightarrow> sleepHandler conv limit e tf t = Inl e)"
proof -
  have s: "Seconds (sleep_payload (Payload t)) = x"
    using number_payload_read [OF assms(1-3) fold_names(3)] by (simp add: sleep_payload_def assms(4))
  let ?r = "object_text [(quote ''slept_seconds'', show_v x)]"
  have p: "prints x (show_v x)" by (rule prints_show [OF assms(1-3)])
  have "payload_members ?r = [(quote ''slept_seconds'', show_v x)]"
    by (rule payload_members_text) (auto simp: plain_prints [OF p])
  moreover have "ParseFloat (show_v x) = Some x" by (rule ParseFloat_prints [OF p assms(2,3)])
  ultimately show ?thesis using s assms(2) by (simp add: sleepHandler_def Let_def)
qed

theorem sleepHandler_reports_witness:
  "\<exists>r v. sleepHandler (\<lambda>_. 0) 60000000000 ''context deadline exceeded'' True
     (zero_task\<lparr>Payload := number_payload ''seconds'' 2\<rparr>) = Inr r \<and> payload_members r = [(quote ''slept_seconds'', v)] \<and>
     ParseFloat v = Some 2"
proof -
  have two: "f64r 2 = 2" "f64r 2000000000 = 2000000000"
    using f64r_int [of 2] f64r_int [of 2000000000] by simp_all
  then have "sleep_nanos (\<lambda>_. 0) 2 < 60000000000"
    by (simp add: sleep_nanos_def overflows_def int64_range_def)
  with sleepHandler_reports [OF two(1), where t = "zero_task\<lparr>Payload := number_payload ''seconds'' 2\<rparr>" and
    conv = "\<lambda>_. 0" and limit = 60000000000 and e = "''context deadline exceeded''" and tf = True]
  show ?thesis by simp
qed

end
