(* ===== verification/Hub.thy ===== *)
theory Hub
  imports Prelude "HOL-Library.Sublist"
begin

section \<open>The WebSocket hub (internal/ws/hub.go)\<close>

text \<open>
  The hub that fans the events of the Redis channel out to browser clients. A client is a pointer
  (a number); its record holds what is in its buffered \<open>send\<close> channel, whether that channel has been closed,
  what has been written to its connection, whether the connection is closed, and whether its
  \<open>writeLoop\<close> is still running. The operations that a Go program can panic in, a send on a
  closed channel and the closing of a closed channel, return \<open>None\<close> for the panic. The calls run under the
  hub's lock, so they are steps of their own; the order in which Go ranges over the map of
  clients is an argument. What the network does to a WebSocket write is an outcome of the step.
\<close>

record client =
  send :: "string list"
  send_closed :: bool
  wire :: "string list"
  conn_closed :: bool
  writing :: bool

record hub =
  clients :: "nat list"
  objs :: "nat \<rightharpoonup> client"
  channel :: string

definition NewHub :: "string \<Rightarrow> hub" where
  "NewHub ch = \<lparr>clients = [], objs = Map.empty, channel = ch\<rparr>"

subsection \<open>Operations\<close>

text \<open>The capacity that \<open>ServeHTTP\<close> gives the channel of a client.\<close>

definition send_cap :: nat where
  "send_cap = 64"

text \<open>\<open>select { case c.send <- b: default: }\<close>.\<close>

definition try_send :: "string \<Rightarrow> client \<Rightarrow> client option" where
  "try_send b c =
     (if send_closed c then None
      else if length (send c) < send_cap then Some (c\<lparr>send := send c @ [b]\<rparr>)
      else Some c)"

fun send_all :: "string \<Rightarrow> nat list \<Rightarrow> (nat \<rightharpoonup> client) \<Rightarrow> (nat \<rightharpoonup> client) option" where
  "send_all b [] os = Some os"
| "send_all b (p # ps) os =
     (case os p of
        None \<Rightarrow> None
      | Some c \<Rightarrow>
          (case try_send b c of
             None \<Rightarrow> None
           | Some c' \<Rightarrow> send_all b ps (os(p \<mapsto> c'))))"

definition broadcast :: "(nat list \<Rightarrow> nat list) \<Rightarrow> string \<Rightarrow> hub \<Rightarrow> hub option" where
  "broadcast ranging b h =
     map_option (\<lambda>os. h\<lparr>objs := os\<rparr>) (send_all b (ranging (clients h)) (objs h))"

text \<open>
  One round of \<open>Run\<close>: the context ends, the channel of the subscription is closed, or a
  message arrives. The flag tells whether the loop goes on.
\<close>

datatype sub_event = Canceled | Closed | Received string

fun Run_round :: "(nat list \<Rightarrow> nat list) \<Rightarrow> sub_event \<Rightarrow> hub \<Rightarrow> (bool \<times> hub) option" where
  "Run_round ranging Canceled h = Some (False, h)"
| "Run_round ranging Closed h = Some (False, h)"
| "Run_round ranging (Received payload) h = map_option (Pair True) (broadcast ranging payload h)"

text \<open>
  \<open>ServeHTTP\<close> up to the start of the two loops; \<open>p\<close> is the pointer of the new client, and
  \<open>upgraded\<close> tells whether the upgrade of the connection succeeded.
\<close>

definition ServeHTTP :: "bool \<Rightarrow> nat \<Rightarrow> hub \<Rightarrow> hub" where
  "ServeHTTP upgraded p h =
     (if \<not> upgraded then h
      else h\<lparr>clients := List.insert p (clients h),
             objs := (objs h)(p \<mapsto> \<lparr>send = [], send_closed = False, wire = [], conn_closed = False,
               writing = True\<rparr>)\<rparr>)"


definition disconnect :: "nat \<Rightarrow> hub \<Rightarrow> hub option" where
  "disconnect p h =
     (case objs h p of
        None \<Rightarrow> None
      | Some c \<Rightarrow>
          (let closing = p \<in> set (clients h)
           in if closing \<and> send_closed c then None
              else Some (h\<lparr>clients := (if closing then filter (\<lambda>q. q \<noteq> p) (clients h) else clients h),
                     objs := (objs h)(p \<mapsto> c\<lparr>send_closed := send_closed c \<or> closing, conn_closed := True\<rparr>)\<rparr>)))"

text \<open>
  One round of \<open>readLoop\<close>: a frame that was read is ignored; when reading fails, be it at the
  deadline, the loop ends with its deferred \<open>disconnect\<close>.
\<close>

definition readLoop :: "bool \<Rightarrow> nat \<Rightarrow> hub \<Rightarrow> hub option" where
  "readLoop ok p h = (if ok then Some h else disconnect p h)"

text \<open>One round of \<open>writeLoop\<close>: a message, the end of the channel, or the ping ticker.\<close>

datatype write_event = Message bool | Ping bool

definition write_round :: "write_event \<Rightarrow> client \<Rightarrow> client" where
  "write_round ev c =
     (if \<not> writing c then c
      else case ev of
             Message ok \<Rightarrow>
               (case send c of
                  [] \<Rightarrow> if send_closed c then c\<lparr>writing := False\<rparr> else c
                | m # ms \<Rightarrow>
                    if ok then c\<lparr>send := ms, wire := wire c @ [m]\<rparr>
                    else c\<lparr>send := ms, writing := False\<rparr>)
           | Ping ok \<Rightarrow> if ok then c else c\<lparr>writing := False\<rparr>)"

definition writeLoop :: "write_event \<Rightarrow> nat \<Rightarrow> hub \<Rightarrow> hub" where
  "writeLoop ev p h =
     (case objs h p of None \<Rightarrow> h | Some c \<Rightarrow> h\<lparr>objs := (objs h)(p \<mapsto> write_round ev c)\<rparr>)"

definition ClientCount :: "hub \<Rightarrow> int" where
  "ClientCount h = int (length (clients h))"

subsection \<open>Runs\<close>

text \<open>
  The runs of a hub with the messages that \<open>Run\<close> has read from its subscription so far. Pointers
  of new clients are fresh; the two loops of any client may go on at any time.
\<close>

definition permuting :: "(nat list \<Rightarrow> nat list) \<Rightarrow> bool" where
  "permuting ranging \<longleftrightarrow> (\<forall>ps. mset (ranging ps) = mset ps)"

inductive hub_run :: "string \<Rightarrow> string list \<Rightarrow> hub \<Rightarrow> bool" for ch where
  created: "hub_run ch [] (NewHub ch)"
| message: "hub_run ch ms h \<Longrightarrow> permuting ranging \<Longrightarrow> Run_round ranging (Received b) h = Some (True, h') \<Longrightarrow>
    hub_run ch (ms @ [b]) h'"
| connect: "hub_run ch ms h \<Longrightarrow> objs h p = None \<Longrightarrow> hub_run ch ms (ServeHTTP upgraded p h)"
| wrote: "hub_run ch ms h \<Longrightarrow> hub_run ch ms (writeLoop ev p h)"
| read: "hub_run ch ms h \<Longrightarrow> readLoop ok p h = Some h' \<Longrightarrow> hub_run ch ms h'"

inductive_cases hub_runE: "hub_run ch ms h"

text \<open>
  The invariant: the registered clients are exactly those whose channel is open, and every
  client has been sent, and still has to be sent, messages of the subscription in their order.
\<close>

definition client_ok :: "string list \<Rightarrow> client \<Rightarrow> bool" where
  "client_ok ms c \<longleftrightarrow> length (send c) \<le> send_cap \<and> subseq (wire c @ send c) ms"

definition hub_inv :: "string list \<Rightarrow> hub \<Rightarrow> bool" where
  "hub_inv ms h \<longleftrightarrow> distinct (clients h) \<and>
     (\<forall>p. p \<in> set (clients h) \<longleftrightarrow> (\<exists>c. objs h p = Some c \<and> \<not> send_closed c)) \<and>
     (\<forall>p c. objs h p = Some c \<longrightarrow> client_ok ms c)"

text \<open>What a broadcast does to one client.\<close>

definition offered :: "string \<Rightarrow> client \<Rightarrow> client" where
  "offered b c = (if length (send c) < send_cap then c\<lparr>send := send c @ [b]\<rparr> else c)"

lemma try_send_offered: "\<not> send_closed c \<Longrightarrow> try_send b c = Some (offered b c)"
  by (simp add: try_send_def offered_def)

lemma offered_closed [simp]: "send_closed (offered b c) = send_closed c"
  by (simp add: offered_def)

lemma send_all_ok:
  assumes "distinct ps" and "\<forall>p\<in>set ps. \<exists>c. os p = Some c \<and> \<not> send_closed c"
  shows "send_all b ps os = Some (\<lambda>p. if p \<in> set ps then map_option (offered b) (os p) else os p)"
  using assms
proof (induction ps arbitrary: os)
  case (Cons p ps)
  then obtain c where c: "os p = Some c" "\<not> send_closed c" by auto
  have "send_all b ps (os(p \<mapsto> offered b c)) =
      Some (\<lambda>q. if q \<in> set ps then map_option (offered b) ((os(p \<mapsto> offered b c)) q) else (os(p \<mapsto> offered b c)) q)"
    by (rule Cons.IH) (use Cons.prems in auto)
  with Cons.prems c show ?case by (auto simp: try_send_offered fun_eq_iff)
qed simp

lemma broadcast_ok:
  assumes "hub_inv ms h" and "permuting ranging"
  shows "broadcast ranging b h = Some (h\<lparr>objs := (\<lambda>p. if p \<in> set (clients h)
    then map_option (offered b) (objs h p) else objs h p)\<rparr>)"
proof -
  have m: "mset (ranging (clients h)) = mset (clients h)" using assms(2) by (simp add: permuting_def)
  then have "set (ranging (clients h)) = set (clients h)" by (rule mset_eq_setD)
  moreover have "distinct (ranging (clients h))"
    using assms(1) mset_eq_imp_distinct_iff [OF m] by (simp add: hub_inv_def)
  ultimately show ?thesis
    using send_all_ok [of "ranging (clients h)" "objs h" b] assms(1) by (simp add: broadcast_def hub_inv_def)
qed

lemma client_ok_offered: "client_ok ms c \<Longrightarrow> client_ok (ms @ [b]) (offered b c)"
  by (auto simp: client_ok_def offered_def subseq_rev_drop_many simp flip: append_assoc)

lemma client_ok_more: "client_ok ms c \<Longrightarrow> client_ok (ms @ [b]) c"
  by (auto simp: client_ok_def subseq_rev_drop_many)

lemma client_ok_write: "client_ok ms c \<Longrightarrow> client_ok ms (write_round ev c)"
proof -
  have drop: "subseq (wire c @ xs) ms" if "subseq (wire c @ x # xs) ms" for x xs
    by (rule subseq_order.trans [OF _ that]) (auto simp: subseq_append')
  show "client_ok ms c \<Longrightarrow> client_ok ms (write_round ev c)"
    by (auto simp: client_ok_def write_round_def split: write_event.splits list.splits
        intro: drop)
qed

lemma write_round_closed [simp]: "send_closed (write_round ev c) = send_closed c"
  by (auto simp: write_round_def split: write_event.splits list.splits)

lemma disconnect_ok:
  assumes "hub_inv ms h" and "objs h p = Some c"
  shows "disconnect p h = Some (h\<lparr>clients := filter (\<lambda>q. q \<noteq> p) (clients h),
    objs := (objs h)(p \<mapsto> c\<lparr>send_closed := True, conn_closed := True\<rparr>)\<rparr>)"
proof -
  have "p \<in> set (clients h) \<longleftrightarrow> \<not> send_closed c" using assms by (auto simp: hub_inv_def)
  moreover have "filter (\<lambda>q. q \<noteq> p) (clients h) = clients h" if "p \<notin> set (clients h)"
    using that by (auto intro: filter_True)
  ultimately show ?thesis using assms(2) by (auto simp: disconnect_def Let_def)
qed

lemma hub_run_inv: "hub_run ch ms h \<Longrightarrow> hub_inv ms h"
proof (induction rule: hub_run.induct)
  case created
  then show ?case by (simp add: hub_inv_def NewHub_def)
next
  case (message ms h ranging b h')
  from broadcast_ok [OF message.IH message.hyps(2), of b] message.hyps(3)
  have h': "h' = h\<lparr>objs := (\<lambda>p. if p \<in> set (clients h) then map_option (offered b) (objs h p) else objs h p)\<rparr>"
    by simp
  show ?case
    using message.IH unfolding hub_inv_def h'
    by (fastforce intro: client_ok_offered client_ok_more split: if_splits)
next
  case (connect ms h p upgraded)
  then show ?case by (auto simp: hub_inv_def ServeHTTP_def client_ok_def)
next
  case (wrote ms h ev p)
  then show ?case
    by (auto simp: hub_inv_def writeLoop_def intro: client_ok_write split: option.splits)
next
  case (read ms h ok p h')
  show ?case
  proof (cases ok)
    case True
    with read show ?thesis by (simp add: readLoop_def)
  next
    case False
    with read have d: "disconnect p h = Some h'" by (simp add: readLoop_def)
    then obtain c where c: "objs h p = Some c" by (auto simp: disconnect_def split: option.splits)
    from disconnect_ok [OF read.IH c] d
    have h': "h' = h\<lparr>clients := filter (\<lambda>q. q \<noteq> p) (clients h),
        objs := (objs h)(p \<mapsto> c\<lparr>send_closed := True, conn_closed := True\<rparr>)\<rparr>" by simp
    have "client_ok ms (c\<lparr>send_closed := True, conn_closed := True\<rparr>)"
      using read.IH c by (simp add: hub_inv_def client_ok_def)
    with read.IH show ?thesis unfolding hub_inv_def h' by auto
  qed
qed

text \<open>
  C34. The hub never panics: in every state that it can reach, a broadcast sends on no closed
  channel, whatever order Go ranges over the clients in, and a disconnect of any client, the first or a
  repeated one, closes no channel twice; the buffer of a client never holds more than 64 messages.
\<close>

theorem hub_never_panics:
  assumes "hub_run ch ms h" and "permuting ranging" and "objs h p = Some c"
  shows "Run_round ranging ev h \<noteq> None \<and> readLoop ok p h \<noteq> None \<and> disconnect p h \<noteq> None \<and> length (send c) \<le> 64"
proof -
  have inv: "hub_inv ms h" using assms(1) by (rule hub_run_inv)
  have "Run_round ranging ev h \<noteq> None"
    by (cases ev) (simp_all add: broadcast_ok [OF inv assms(2)])
  moreover have "disconnect p h \<noteq> None" by (simp add: disconnect_ok [OF inv assms(3)])
  moreover have "length (send c) \<le> 64"
    using inv assms(3) by (auto simp: hub_inv_def client_ok_def send_cap_def)
  ultimately show ?thesis by (simp add: readLoop_def)
qed

lemma demo_run: "hub_run ch [] (ServeHTTP True 0 (NewHub ch))"
  by (rule hub_run.connect [OF hub_run.created]) (simp add: NewHub_def)

theorem hub_never_panics_witness:
  "Run_round rev (Received ''x'') (ServeHTTP True 0 (NewHub ''events'')) \<noteq> None"
  using hub_never_panics [OF demo_run, where ranging = rev and p = 0 and ev = "Received ''x''" and ch = "''events''"]
  by (simp add: permuting_def ServeHTTP_def NewHub_def)

text \<open>
  C35. Delivery: what has been written to a client and what waits in its buffer are messages of the
  subscription in their order, none of them twice; and a broadcast reaches every registered client
  whose buffer is not full and leaves all the others, and the set of clients, as they are.
\<close>

theorem hub_delivers_in_order:
  assumes "hub_run ch ms h" and "permuting ranging" and "objs h p = Some c"
  shows "subseq (wire c @ send c) ms \<and>
    (\<exists>h'. broadcast ranging b h = Some h' \<and> ClientCount h' = ClientCount h \<and>
       objs h' p = Some (if p \<in> set (clients h) \<and> length (send c) < 64 then c\<lparr>send := send c @ [b]\<rparr> else c))"
  using broadcast_ok [OF hub_run_inv [OF assms(1)] assms(2), of b] hub_run_inv [OF assms(1)] assms(3)
  by (auto simp: hub_inv_def client_ok_def offered_def send_cap_def ClientCount_def)

theorem hub_delivers_in_order_witness:
  "\<exists>h'. broadcast rev ''x'' (ServeHTTP True 0 (NewHub ''events'')) = Some h' \<and> ClientCount h' = 1"
proof -
  have "permuting rev" by (simp add: permuting_def)
  from hub_delivers_in_order [OF demo_run this, where p = 0 and ch = "''events''" and b = "''x''"] show ?thesis
    by (auto simp: ServeHTTP_def NewHub_def ClientCount_def)
qed

end
