(* ===== verification/Refinement.thy ===== *)
theory Refinement
  imports Queue_Spec
begin

section \<open>The queue as an abstract at-least-once queue\<close>

text \<open>
  What the Redis structures mean, without members, scores and hashes: a set of waiting envelopes, a
  set of sleeping envelopes with the time they are due, and for every worker the set of envelopes it
  holds a lease for. The abstraction function \<open>aq\<close> reads this off the keyspace, and every
  queue operation, over any network, either leaves the abstract state alone or performs the
  corresponding abstract operation.
\<close>

record aqueue =
  waiting :: "envelope set"
  sleeping :: "(envelope \<times> int) set"
  leased :: "string \<Rightarrow> envelope set"

text \<open>An envelope as it comes out of Redis, and the member it is stored as.\<close>

definition normal :: "codec \<Rightarrow> envelope \<Rightarrow> bool" where
  "normal C e \<longleftrightarrow> (\<exists>m. written C m e)"

definition member_of :: "codec \<Rightarrow> envelope \<Rightarrow> string" where
  "member_of C e = the (marshal C e)"

definition aq :: "'r redis \<Rightarrow> codec \<Rightarrow> 'r \<Rightarrow> aqueue" where
  "aq R C r = \<lparr>
     waiting = {e. normal C e \<and> zset (view R r) (QueueKey (EnvType e)) (member_of C e) \<noteq> None},
     sleeping = {(e, s). normal C e \<and> zset (view R r) (DelayedKey (EnvType e)) (member_of C e) = Some s},
     leased = (\<lambda>wk. {e. normal C e \<and>
       hash (view R r) (InflightKey wk) (UUID_String C (EnvID e)) = Some (member_of C e)})\<rparr>"

subsection \<open>Operations and what they promise\<close>

datatype queue_op =
    OEnqueue envelope
  | OEnqueueDelayed envelope time
  | OLease string string
  | OLeaseAny "string list" string
  | OAck string uuid
  | ONack string uuid
  | OReclaim string
  | OPromote string time
  | ODeadLetter envelope string
  | OHeartbeat string int
  | OPublish event

primrec run_op :: "'r redis \<Rightarrow> codec \<Rightarrow> queue_op \<Rightarrow> 'r world \<Rightarrow> 'r world" where
  "run_op R C (OEnqueue env) w = snd (Enqueue R C env w)"
| "run_op R C (OEnqueueDelayed env at) w = snd (EnqueueDelayed R C env at w)"
| "run_op R C (OLease t wk) w = snd (Lease R C t wk w)"
| "run_op R C (OLeaseAny ts wk) w = snd (LeaseAny R C ts wk w)"
| "run_op R C (OAck wk i) w = snd (Ack R C wk i w)"
| "run_op R C (ONack wk i) w = snd (Nack R C wk i w)"
| "run_op R C (OReclaim wk) w = snd (ReclaimInflight R C wk w)"
| "run_op R C (OPromote t now) w = snd (PromoteDelayed R C t now w)"
| "run_op R C (ODeadLetter env reason) w = snd (DeadLetter R C env reason w)"
| "run_op R C (OHeartbeat wk ttl) w = snd (Heartbeat R wk ttl w)"
| "run_op R C (OPublish ev) w = snd (Publish R C ev w)"

definition most_urgent :: "envelope set \<Rightarrow> envelope \<Rightarrow> bool" where
  "most_urgent E e \<longleftrightarrow> e \<in> E \<and> (\<forall>e'\<in>E. EnvType e' = EnvType e \<longrightarrow>
     priorityScore (EnvPriority e) (EnqueuedAt e) \<le> priorityScore (EnvPriority e') (EnqueuedAt e'))"

definition hold :: "envelope \<Rightarrow> envelope set \<Rightarrow> envelope set" where
  "hold e E = insert e {e'\<in>E. EnvID e' \<noteq> EnvID e}"

text \<open>The abstract operations; \<open>now\<close> is the clock of the caller.\<close>

inductive aq_op :: "codec \<Rightarrow> time \<Rightarrow> queue_op \<Rightarrow> aqueue \<Rightarrow> aqueue \<Rightarrow> bool" for C now where
  enqueue: "e = compacted C (if EnqueuedAt env = 0 then env\<lparr>EnqueuedAt := UnixMilli now\<rparr> else env) \<Longrightarrow>
    aq_op C now (OEnqueue env) A (A\<lparr>waiting := insert e (waiting A)\<rparr>)"
| sleep: "e = compacted C env \<Longrightarrow>
    aq_op C now (OEnqueueDelayed env at) A
      (A\<lparr>sleeping := insert (e, f64 (UnixMilli at)) {x\<in>sleeping A. fst x \<noteq> e}\<rparr>)"
| lease: "most_urgent (waiting A) e \<Longrightarrow> EnvType e = t \<Longrightarrow>
    aq_op C now (OLease t wk) A
      (A\<lparr>waiting := waiting A - {e}, leased := (leased A)(wk := hold e (leased A wk))\<rparr>)"
| lease_none: "\<forall>e\<in>waiting A. EnvType e \<noteq> t \<Longrightarrow> aq_op C now (OLease t wk) A A"
| lease_any: "most_urgent (waiting A) e \<Longrightarrow> \<forall>e'\<in>waiting A. EnvType e' \<notin> set us \<Longrightarrow>
    aq_op C now (OLeaseAny (us @ EnvType e # vs) wk) A
      (A\<lparr>waiting := waiting A - {e}, leased := (leased A)(wk := hold e (leased A wk))\<rparr>)"
| lease_any_none: "\<forall>e\<in>waiting A. EnvType e \<notin> set ts \<Longrightarrow> aq_op C now (OLeaseAny ts wk) A A"
| ack: "aq_op C now (OAck wk i) A (A\<lparr>leased := (leased A)(wk := {e\<in>leased A wk. EnvID e \<noteq> i})\<rparr>)"
| nack: "aq_op C now (ONack wk i) A (A\<lparr>leased := (leased A)(wk := {e\<in>leased A wk. EnvID e \<noteq> i})\<rparr>)"
| reclaim: "aq_op C now (OReclaim wk) A (A\<lparr>leased := (leased A)(wk := {})\<rparr>)"
| promote: "S \<subseteq> {(e, s) \<in> sleeping A. EnvType e = t \<and> s \<le> f64 (UnixMilli at)} \<Longrightarrow>
    S = {(e, s) \<in> sleeping A. EnvType e = t \<and> s \<le> f64 (UnixMilli at)} \<or> card S = 256 \<Longrightarrow>
    aq_op C now (OPromote t at) A
      (A\<lparr>waiting := waiting A \<union> (\<lambda>(e, s). e\<lparr>EnqueuedAt := UnixMilli at\<rparr>) ` S, sleeping := sleeping A - S\<rparr>)"
| dead_letter: "aq_op C now (ODeadLetter env reason) A A"
| heartbeat: "aq_op C now (OHeartbeat wk ttl) A A"
| publish: "aq_op C now (OPublish ev) A A"

text \<open>The sleeping envelopes of type \<open>t\<close> whose members are \<open>ms\<close>.\<close>

definition promotes :: "'r redis \<Rightarrow> codec \<Rightarrow> string \<Rightarrow> string list \<Rightarrow> 'r \<Rightarrow> (envelope \<times> int) set" where
  "promotes R C t ms r = {(e, s). normal C e \<and> EnvType e = t \<and> member_of C e \<in> set ms \<and>
     zset (view R r) (DelayedKey t) (member_of C e) = Some s}"

context task_queue
begin

lemma written_member: "written C m e \<Longrightarrow> normal C e \<and> member_of C e = m"
  by (auto simp: normal_def member_of_def written_marshal)

lemma member_of_eq: "normal C e \<Longrightarrow> normal C e' \<Longrightarrow> member_of C e = member_of C e' \<longleftrightarrow> e = e'"
  using written_member written_inj unfolding normal_def by metis

lemma member_of_written: "written C m e \<Longrightarrow> normal C e' \<Longrightarrow> member_of C e' = m \<longleftrightarrow> e' = e"
  using member_of_eq [of e' e] written_member [of m e] by auto

lemma aq_ZADD_ready:
  assumes "written C b e"
  shows "aq R C (ZADD R (QueueKey (EnvType e)) s b r) = (aq R C r)\<lparr>waiting := insert e (waiting (aq R C r))\<rparr>"
  using written_member [OF assms] member_of_written [OF assms] by (auto simp: aq_def)

lemma aq_ZADD_delayed:
  assumes "written C b e"
  shows "aq R C (ZADD R (DelayedKey (EnvType e)) s b r) =
    (aq R C r)\<lparr>sleeping := insert (e, s) {x\<in>sleeping (aq R C r). fst x \<noteq> e}\<rparr>"
  using written_member [OF assms] member_of_written [OF assms]
  by (auto simp: aq_def split: if_splits)

lemma aq_HDEL:
  "aq R C (HDEL R (InflightKey wk) (UUID_String C i) r) =
    (aq R C r)\<lparr>leased := (leased (aq R C r))(wk := {e\<in>leased (aq R C r) wk. EnvID e \<noteq> i})\<rparr>"
  by (auto simp: aq_def fun_eq_iff)

lemma aq_DEL: "aq R C (DEL R (InflightKey wk) r) = (aq R C r)\<lparr>leased := (leased (aq R C r))(wk := {})\<rparr>"
  by (auto simp: aq_def fun_eq_iff)

lemma aq_same:
  "zset (view R r') = zset (view R r) \<Longrightarrow> hash (view R r') = hash (view R r) \<Longrightarrow> aq R C r' = aq R C r"
  by (simp add: aq_def)

lemma waiting_none:
  assumes "queue_inv R C P r"
  shows "zset (view R r) (QueueKey t) = Map.empty \<longleftrightarrow> (\<forall>e\<in>waiting (aq R C r). EnvType e \<noteq> t)"
proof -
  have "\<exists>e\<in>waiting (aq R C r). EnvType e = t" if "zset (view R r) (QueueKey t) m = Some s" for m s
    using ready_decodes [OF assms that] that written_member by (auto simp: aq_def)
  then show ?thesis by (auto simp: aq_def) (metis option.exhaust)
qed

lemma aq_lease:
  assumes "queue_inv R C P r" and "zset (view R r) (QueueKey t) \<noteq> Map.empty"
  shows "\<exists>e. most_urgent (waiting (aq R C r)) e \<and> EnvType e = t \<and>
    aq R C (snd (leaseScript R C (QueueKey t) (InflightKey wk) r)) =
      (aq R C r)\<lparr>waiting := waiting (aq R C r) - {e},
        leased := (leased (aq R C r))(wk := hold e (leased (aq R C r) wk))\<rparr>"
proof -
  obtain m s e where p: "zset (view R r) (QueueKey t) m = Some s"
    "\<forall>m' s'. zset (view R r) (QueueKey t) m' = Some s' \<longrightarrow> (s, m) \<le> (s', m')"
    "written C m e" "EnvType e = t" "s = priorityScore (EnvPriority e) (EnqueuedAt e)"
    and v: "view R (snd (leaseScript R C (QueueKey t) (InflightKey wk) r)) = (view R r)\<lparr>
      zset := (zset (view R r))(QueueKey t := (zset (view R r) (QueueKey t))(m := None)),
      hash := (hash (view R r))(InflightKey wk :=
        (hash (view R r) (InflightKey wk))(UUID_String C (EnvID e) \<mapsto> m))\<rparr>"
    using leaseScript_pops [OF assms, of wk] by blast
  have w: "normal C e" "member_of C e = m" "\<And>e'. normal C e' \<Longrightarrow> member_of C e' = m \<longleftrightarrow> e' = e"
    "\<And>e'. normal C e' \<Longrightarrow> m = member_of C e' \<longleftrightarrow> e' = e"
    using written_member [OF p(3)] member_of_written [OF p(3)] by (simp_all add: eq_commute [of m])
  have score: "s \<le> priorityScore (EnvPriority e') (EnqueuedAt e')"
    if "normal C e'" "zset (view R r) (QueueKey t) (member_of C e') = Some s'" for e' s'
  proof -
    from ready_decodes [OF assms(1) that(2)] obtain e'' where e'': "written C (member_of C e') e''"
      "s' = priorityScore (EnvPriority e'') (EnqueuedAt e'')" by blast
    then have "e'' = e'" using member_of_written [OF e''(1) that(1)] by simp
    with e''(2) p(2) that(2) show ?thesis by fastforce
  qed
  have "most_urgent (waiting (aq R C r)) e"
    using w p(1,4,5) score by (auto simp: most_urgent_def aq_def)
  moreover have "aq R C (snd (leaseScript R C (QueueKey t) (InflightKey wk) r)) =
      (aq R C r)\<lparr>waiting := waiting (aq R C r) - {e},
        leased := (leased (aq R C r))(wk := hold e (leased (aq R C r) wk))\<rparr>"
    using w p(4) unfolding aq_def v by (auto simp: hold_def fun_eq_iff)
  ultimately show ?thesis using p(4) by blast
qed

text \<open>Promotion of the members \<open>ms\<close> of the delayed set of type \<open>t\<close>.\<close>

lemma promote_written:
  assumes "written C m e" and "int64_range n"
  shows "written C (the (marshal C (promoted C n m))) (e\<lparr>EnqueuedAt := n\<rparr>)"
    and "promoted C n m = e\<lparr>EnqueuedAt := n\<rparr>"
proof -
  show p: "promoted C n m = e\<lparr>EnqueuedAt := n\<rparr>" using writtenD(1) [OF assms(1)] by (simp add: promoted_def)
  have "env_wf C (e\<lparr>EnqueuedAt := n\<rparr>)" using assms(2) writtenD(3) [OF assms(1)] by (simp add: env_wf_def)
  then obtain b where b: "marshal C (e\<lparr>EnqueuedAt := n\<rparr>) = Some b" "written C b (compacted C (e\<lparr>EnqueuedAt := n\<rparr>))"
    by (rule marshal_wf)
  have "raw_compact C (EnvPayload e) = EnvPayload e"
    using arg_cong [OF written_compacted [OF assms(1)], of EnvPayload] by (simp add: compacted_def)
  then have "compacted C (e\<lparr>EnqueuedAt := n\<rparr>) = e\<lparr>EnqueuedAt := n\<rparr>" by (simp add: compacted_def)
  with b show "written C (the (marshal C (promoted C n m))) (e\<lparr>EnqueuedAt := n\<rparr>)" by (simp add: p)
qed

lemma aq_promote:
  assumes "queue_inv R C P r" and "int64_range n"
    and "\<forall>m\<in>set ms. zset (view R r) (DelayedKey t) m \<noteq> None"
  shows "aq R C (fold (\<lambda>c. c) (List.map_filter (promote_cmd R C t n) ms) r) =
    (aq R C r)\<lparr>waiting := waiting (aq R C r) \<union> (\<lambda>(e, s). e\<lparr>EnqueuedAt := n\<rparr>) ` promotes R C t ms r,
      sleeping := sleeping (aq R C r) - promotes R C t ms r\<rparr>"
proof -
  let ?b = "\<lambda>m. the (marshal C (promoted C n m))"
  have dec: "\<exists>e. written C m e \<and> EnvType e = t" if "m \<in> set ms" for m
    using assms(3) delayed_decodes [OF assms(1)] that by (metis option.exhaust)
  define r' where "r' = fold (\<lambda>c. c) (List.map_filter (promote_cmd R C t n) ms) r"
  have v: "view R r' = (view R r)\<lparr>zset := (zset (view R r))
      (DelayedKey t := zset (view R r) (DelayedKey t) |` (- set ms),
       QueueKey t := (zset (view R r) (QueueKey t)) (map ?b ms [\<mapsto>]
         map (\<lambda>m. priorityScore (EnvPriority (promoted C n m)) n) ms))\<rparr>"
    unfolding r'_def by (rule fold_promote_view) (use dec assms(2) in blast)+
  have bodies: "normal C e \<and> member_of C e \<in> ?b ` set ms \<longleftrightarrow> e \<in> (\<lambda>(e, s). e\<lparr>EnqueuedAt := n\<rparr>) ` promotes R C t ms r" for e
  proof
    assume e: "normal C e \<and> member_of C e \<in> ?b ` set ms"
    then obtain m where m: "m \<in> set ms" "member_of C e = ?b m" by blast
    obtain e0 where e0: "written C m e0" "EnvType e0 = t" using dec [OF m(1)] by blast
    have "e = e0\<lparr>EnqueuedAt := n\<rparr>"
      using member_of_written [OF promote_written(1) [OF e0(1) assms(2)]] e m(2) by blast
    moreover obtain s where "zset (view R r) (DelayedKey t) m = Some s" using assms(3) m(1) by blast
    ultimately show "e \<in> (\<lambda>(e, s). e\<lparr>EnqueuedAt := n\<rparr>) ` promotes R C t ms r"
      using written_member [OF e0(1)] e0(2) m(1)
      by (intro image_eqI [of _ _ "(e0, s)"]) (auto simp: promotes_def)
  next
    assume "e \<in> (\<lambda>(e, s). e\<lparr>EnqueuedAt := n\<rparr>) ` promotes R C t ms r"
    then obtain e0 where e0: "normal C e0" "member_of C e0 \<in> set ms" "e = e0\<lparr>EnqueuedAt := n\<rparr>"
      by (auto simp: promotes_def)
    then obtain m where "written C m e0" by (auto simp: normal_def)
    with e0 promote_written(1) [OF this assms(2)] written_member [OF this]
    show "normal C e \<and> member_of C e \<in> ?b ` set ms" using written_member by blast
  qed
  have ty: "EnvType e = t" if "e \<in> (\<lambda>(e, s). e\<lparr>EnqueuedAt := n\<rparr>) ` promotes R C t ms r" for e
    using that by (auto simp: promotes_def)
  have upd: "(z(map ?b ms [\<mapsto>] map sc ms)) x \<noteq> None \<longleftrightarrow> z x \<noteq> None \<or> x \<in> ?b ` set ms" for z sc x
    by (auto simp: dom_map_upds simp del: not_None_eq simp flip: domIff)
  have q: "zset (view R r') (QueueKey u) x \<noteq> None \<longleftrightarrow>
      zset (view R r) (QueueKey u) x \<noteq> None \<or> u = t \<and> x \<in> ?b ` set ms" for u x
    by (cases "u = t") (simp_all add: v upd del: not_None_eq)
  have "e \<in> waiting (aq R C r') \<longleftrightarrow>
      e \<in> waiting (aq R C r) \<union> (\<lambda>(e, s). e\<lparr>EnqueuedAt := n\<rparr>) ` promotes R C t ms r" for e
    unfolding Un_iff bodies [symmetric] using bodies [of e] ty [of e] q [of "EnvType e" "member_of C e"]
    by (simp add: aq_def del: not_None_eq) blast
  then have "waiting (aq R C r') = waiting (aq R C r) \<union> (\<lambda>(e, s). e\<lparr>EnqueuedAt := n\<rparr>) ` promotes R C t ms r"
    by blast
  moreover have "sleeping (aq R C r') = sleeping (aq R C r) - promotes R C t ms r"
    by (auto simp: aq_def promotes_def restrict_map_def v split: if_splits)
  moreover have "leased (aq R C r') = leased (aq R C r)" by (simp add: aq_def v)
  ultimately show ?thesis by (simp add: aqueue.equality flip: r'_def)
qed

end

subsection \<open>Every operation, over any network\<close>

text \<open>
  Over any network the abstract state stays or the abstract operation happens; over a network
  that delivers the abstract operation happens.
\<close>

definition refines :: "'r redis \<Rightarrow> codec \<Rightarrow> queue_op \<Rightarrow> 'r world \<Rightarrow> 'r world \<Rightarrow> bool" where
  "refines R C op w w' \<longleftrightarrow>
     (aq R C (rds w') = aq R C (rds w) \<or> aq_op C (clk w) op (aq R C (rds w)) (aq R C (rds w'))) \<and>
     (rok w \<longrightarrow> aq_op C (clk w) op (aq R C (rds w)) (aq R C (rds w')))"

text \<open>What a caller has to respect: the envelopes it hands in are well-formed and the clock fits.\<close>

primrec op_ok :: "codec \<Rightarrow> time \<Rightarrow> queue_op \<Rightarrow> bool" where
  "op_ok C now (OEnqueue env) = (env_wf C env \<and> int64_range (UnixMilli now))"
| "op_ok C now (OEnqueueDelayed env at) = env_wf C env"
| "op_ok C now (OLease t wk) = True"
| "op_ok C now (OLeaseAny ts wk) = True"
| "op_ok C now (OAck wk i) = True"
| "op_ok C now (ONack wk i) = True"
| "op_ok C now (OReclaim wk) = True"
| "op_ok C now (OPromote t at) = int64_range (UnixMilli at)"
| "op_ok C now (ODeadLetter env reason) = True"
| "op_ok C now (OHeartbeat wk ttl) = True"
| "op_ok C now (OPublish ev) = True"

inductive_cases aq_op_LeaseAnyE: "aq_op C now (OLeaseAny ts wk) A A'"

lemma aq_op_skip:
  assumes "aq_op C now (OLeaseAny ts wk) A A'" and "\<forall>e\<in>waiting A. EnvType e \<noteq> t"
  shows "aq_op C now' (OLeaseAny (t # ts) wk) A A'"
proof -
  from assms(1) have "(\<exists>e us vs. ts = us @ EnvType e # vs \<and> most_urgent (waiting A) e \<and>
      (\<forall>e'\<in>waiting A. EnvType e' \<notin> set us) \<and>
      A' = A\<lparr>waiting := waiting A - {e}, leased := (leased A)(wk := hold e (leased A wk))\<rparr>) \<or>
    (\<forall>e\<in>waiting A. EnvType e \<notin> set ts) \<and> A' = A"
    by (cases rule: aq_op_LeaseAnyE) blast+
  then show ?thesis
  proof (elim disjE exE conjE)
    fix e us vs
    assume "ts = us @ EnvType e # vs" "most_urgent (waiting A) e" "\<forall>e'\<in>waiting A. EnvType e' \<notin> set us"
      and A': "A' = A\<lparr>waiting := waiting A - {e}, leased := (leased A)(wk := hold e (leased A wk))\<rparr>"
    with assms(2) aq_op.lease_any [of A e "t # us" C now' vs wk] show ?thesis by simp
  qed (use assms(2) in \<open>auto intro: aq_op.lease_any_none\<close>)
qed

lemma refines_rcall:
  assumes "aq_op C (clk w) op (aq R C (rds w)) (aq R C (snd (f (rds w))))"
  shows "refines R C op w (snd (rcall f w))"
  using assms rcall_rds [of f w] rcall_ok(2) [of w f] by (auto simp: refines_def)

lemma refines_same:
  "aq_op C (clk w) op (aq R C (rds w)) (aq R C (rds w)) \<Longrightarrow> aq R C (rds w') = aq R C (rds w) \<Longrightarrow> refines R C op w w'"
  by (simp add: refines_def)

context task_queue
begin

lemma Enqueue_refines:
  assumes "env_wf C env" and "int64_range (UnixMilli (clk w))"
  shows "refines R C (OEnqueue env) w (snd (Enqueue R C env w))"
proof -
  let ?e = "if EnqueuedAt env = 0 then env\<lparr>EnqueuedAt := UnixMilli (clk w)\<rparr> else env"
  have "env_wf C ?e" using assms by (simp add: env_wf_def)
  then obtain b where b: "marshal C ?e = Some b" "written C b (compacted C ?e)" by (rule marshal_wf)
  let ?f = "\<lambda>r. ((), ZADD R (QueueKey (EnvType ?e)) (priorityScore (EnvPriority ?e) (EnqueuedAt ?e)) b r)"
  have "snd (Enqueue R C env w) = snd (rcall ?f w)" by (simp add: Enqueue_def Let_def b(1))
  moreover have "refines R C (OEnqueue env) w (snd (rcall ?f w))"
    using aq_ZADD_ready [OF b(2), of "priorityScore (EnvPriority ?e) (EnqueuedAt ?e)" "rds w"]
    by (intro refines_rcall) (simp add: aq_op.enqueue)
  ultimately show ?thesis by simp
qed

lemma EnqueueDelayed_refines:
  assumes "env_wf C env"
  shows "refines R C (OEnqueueDelayed env at) w (snd (EnqueueDelayed R C env at w))"
proof -
  from assms obtain b where b: "marshal C env = Some b" "written C b (compacted C env)" by (rule marshal_wf)
  show ?thesis
    using aq_ZADD_delayed [OF b(2)]
    by (simp add: EnqueueDelayed_def b(1) refines_rcall aq_op.sleep)
qed

lemma leaseScript_empty:
  assumes "zset (view R r) (QueueKey t) = Map.empty"
  shows "view R (snd (leaseScript R C (QueueKey t) (InflightKey wk) r)) = view R r"
  using assms by (cases rule: ZPOPMIN_cases [of r t]) (simp_all add: leaseScript_def)

lemma Lease_refines:
  assumes "queue_inv R C P (rds w)"
  shows "refines R C (OLease t wk) w (snd (Lease R C t wk w))"
proof -
  let ?f = "leaseScript R C (QueueKey t) (InflightKey wk)"
  have "aq_op C (clk w) (OLease t wk) (aq R C (rds w)) (aq R C (snd (?f (rds w))))"
  proof (cases "zset (view R (rds w)) (QueueKey t) = Map.empty")
    case True
    have "aq R C (snd (?f (rds w))) = aq R C (rds w)"
      by (rule aq_same) (simp_all add: leaseScript_empty [OF True])
    with True waiting_none [OF assms, of t] show ?thesis by (simp add: aq_op.lease_none)
  next
    case False
    from aq_lease [OF assms False, of wk] aq_op.lease show ?thesis by fastforce
  qed
  then show ?thesis unfolding Lease_snd by (rule refines_rcall)
qed

lemma Lease_ErrEmpty:
  assumes "Lease R C t wk w = (Inl ErrEmpty, w1)" and "queue_inv R C P (rds w)"
  shows "zset (view R (rds w)) (QueueKey t) = Map.empty" and "aq R C (rds w1) = aq R C (rds w)"
proof -
  let ?f = "leaseScript R C (QueueKey t) (InflightKey wk)"
  have net: "rcall ?f w \<noteq> (Inl ErrEmpty, w1)" by (simp add: rcall_def Let_def split: prod.splits outcome.splits)
  have c: "rcall ?f w = (Inr (Inr None), w1)"
  proof (cases "rcall ?f w")
    case (Pair a w2)
    with assms(1) net show ?thesis by (auto simp: Lease_def split: sum.splits option.splits)
  qed
  show e: "zset (view R (rds w)) (QueueKey t) = Map.empty"
  proof (rule ccontr)
    assume "zset (view R (rds w)) (QueueKey t) \<noteq> Map.empty"
    from leaseScript_pops [OF assms(2) this, of wk] rcall_Inr [OF c] show False by auto
  qed
  show "aq R C (rds w1) = aq R C (rds w)"
    using rcall_Inr [OF c] by (intro aq_same) (simp_all add: leaseScript_empty [OF e])
qed

lemma LeaseAny_refines:
  assumes "queue_inv R C P (rds w)"
  shows "refines R C (OLeaseAny ts wk) w (snd (LeaseAny R C ts wk w))"
  using assms
proof (induction ts arbitrary: w)
  case Nil
  then show ?case by (simp add: refines_same aq_op.lease_any_none)
next
  case (Cons t ts)
  let ?f = "leaseScript R C (QueueKey t) (InflightKey wk)"
  obtain res w1 where l: "Lease R C t wk w = (res, w1)" by fastforce
  have w1: "w1 = snd (rcall ?f w)" using Lease_snd [of R C t wk w] l by simp
  show ?case
  proof (cases "res = Inl ErrEmpty")
    case True
    note E = Lease_ErrEmpty [OF l [unfolded True] Cons.prems]
    have "\<forall>e\<in>waiting (aq R C (rds w)). EnvType e \<noteq> t" using waiting_none [OF Cons.prems, of t] E(1) by blast
    note skip = aq_op_skip [OF _ this]
    have "queue_inv R C P (rds w1)" using Lease_inv [OF Cons.prems, of t wk] l by simp
    from Cons.IH [OF this] have "refines R C (OLeaseAny ts wk) w1 (snd (LeaseAny R C (t # ts) wk w))"
      using l True by simp
    moreover have "rok w \<Longrightarrow> rok w1" using queue_rok(3) [of w R C t wk] l by simp
    ultimately show ?thesis unfolding refines_def E(2) by (blast intro: skip)
  next
    case False
    then have w': "snd (LeaseAny R C (t # ts) wk w) = w1" using l by (auto split: sum.splits)
    show ?thesis
    proof (cases "zset (view R (rds w)) (QueueKey t) = Map.empty")
      case True
      with Lease_empty [of w t wk] False l have "\<not> rok w" by auto
      moreover have "aq R C (rds w1) = aq R C (rds w)"
        using rcall_rds [of ?f w] leaseScript_empty [OF True, of wk] unfolding w1 by (auto intro: aq_same)
      ultimately show ?thesis unfolding w' by (simp add: refines_def)
    next
      case False
      from aq_lease [OF Cons.prems False, of wk] aq_op.lease_any [of "aq R C (rds w)" _ "[]" C "clk w" ts wk]
      show ?thesis unfolding w' w1 by (intro refines_rcall) fastforce
    qed
  qed
qed

lemma Reclaim_refines:
  "refines R C (OReclaim wk) w (snd (ReclaimInflight R C wk w))"
proof -
  let ?get = "rcall (\<lambda>r. (HGETALL R (InflightKey wk) r, r)) w"
  obtain a w1 where a: "?get = (a, w1)" by fastforce
  have w1: "rds w1 = rds w" by (rule rcall_readD [OF a])
  let ?f = "\<lambda>r. ((), DEL R (InflightKey wk) r)"
  have del: "aq_op C (clk w) (OReclaim wk) (aq R C (rds w)) (aq R C (DEL R (InflightKey wk) (rds w)))"
    unfolding aq_DEL by (rule aq_op.reclaim)
  show ?thesis
  proof (cases a)
    case (Inl e)
    have "\<not> rok w" using rcall_okInl a Inl by metis
    moreover have "snd (ReclaimInflight R C wk w) = w1" by (simp add: ReclaimInflight_def Let_def a Inl)
    ultimately show ?thesis by (simp add: refines_def w1)
  next
    case (Inr xs)
    show ?thesis
    proof (cases "xs = []")
      case True
      have "map_of xs = hash (view R (rds w)) (InflightKey wk)"
        using HGETALL_map [of "InflightKey wk" "rds w"] rcall_readInr [OF a [unfolded Inr]] by simp
      then have "hash (view R (rds w)) (InflightKey wk) = Map.empty" using True by simp
      then have "(leased (aq R C (rds w)))(wk := {}) = leased (aq R C (rds w))" by (simp add: aq_def fun_eq_iff)
      then have "aq_op C (clk w) (OReclaim wk) (aq R C (rds w)) (aq R C (rds w))"
        using aq_op.reclaim [of C "clk w" wk "aq R C (rds w)"] by simp
      moreover have "snd (ReclaimInflight R C wk w) = w1" by (simp add: ReclaimInflight_def Let_def a Inr True)
      ultimately show ?thesis by (simp add: refines_def w1)
    next
      case False
      then have "snd (ReclaimInflight R C wk w) = snd (rcall ?f w1)" by (simp add: ReclaimInflight_def Let_def a Inr)
      with rcall_rds [of ?f w1] rcall_ok(2) [of w1 ?f] rcall_okD [OF a] del show ?thesis
        by (auto simp: refines_def w1)
    qed
  qed
qed

lemma promotes_due:
  assumes "queue_inv R C P r" and "distinct ms"
    and "set ms \<subseteq> {m. \<exists>s\<le>mx. zset (view R r) (DelayedKey t) m = Some s}"
    and "length ms = min 256 (card {m. \<exists>s\<le>mx. zset (view R r) (DelayedKey t) m = Some s})"
  shows "promotes R C t ms r \<subseteq> {(e, s) \<in> sleeping (aq R C r). EnvType e = t \<and> s \<le> mx}"
    and "promotes R C t ms r = {(e, s) \<in> sleeping (aq R C r). EnvType e = t \<and> s \<le> mx} \<or>
      card (promotes R C t ms r) = 256"
proof -
  let ?due = "{m. \<exists>s\<le>mx. zset (view R r) (DelayedKey t) m = Some s}"
  show "promotes R C t ms r \<subseteq> {(e, s) \<in> sleeping (aq R C r). EnvType e = t \<and> s \<le> mx}"
    using assms(3) by (fastforce simp: promotes_def aq_def)
  have dec: "\<exists>e. normal C e \<and> EnvType e = t \<and> member_of C e = m" if "m \<in> ?due" for m
    using that delayed_decodes [OF assms(1), of t m] written_member by blast
  have img: "(member_of C \<circ> fst) ` promotes R C t ms r = set ms"
  proof
    show "set ms \<subseteq> (member_of C \<circ> fst) ` promotes R C t ms r"
    proof
      fix m assume m: "m \<in> set ms"
      with assms(3) obtain s where s: "zset (view R r) (DelayedKey t) m = Some s" by blast
      from m assms(3) dec obtain e where "normal C e" "EnvType e = t" "member_of C e = m" by blast
      with m s show "m \<in> (member_of C \<circ> fst) ` promotes R C t ms r"
        by (intro image_eqI [of _ _ "(e, s)"]) (simp_all add: promotes_def)
    qed
  qed (auto simp: promotes_def)
  have "inj_on (member_of C \<circ> fst) (promotes R C t ms r)"
  proof (rule inj_onI)
    fix x y assume xy: "x \<in> promotes R C t ms r" "y \<in> promotes R C t ms r" "(member_of C \<circ> fst) x = (member_of C \<circ> fst) y"
    have n: "normal C (fst x)" "normal C (fst y)" using xy(1,2) by (simp_all add: promotes_def case_prod_beta)
    have "member_of C (fst x) = member_of C (fst y)" using xy(3) by simp
    then have f: "fst x = fst y" by (simp only: member_of_eq [OF n])
    moreover have "snd x = snd y" using xy(1,2) f by (simp add: promotes_def case_prod_beta)
    ultimately show "x = y" by (rule prod_eqI)
  qed
  from card_image [OF this] have card: "card (promotes R C t ms r) = length ms"
    unfolding img using assms(2) by (simp add: distinct_card)
  show "promotes R C t ms r = {(e, s) \<in> sleeping (aq R C r). EnvType e = t \<and> s \<le> mx} \<or>
      card (promotes R C t ms r) = 256"
  proof (cases "card ?due \<le> 256")
    case True
    have fin: "finite ?due" by (rule finite_subset [OF _ finite_zset [of r "DelayedKey t"]]) auto
    have "card (set ms) = card ?due" using assms(2,4) True by (simp add: distinct_card)
    with card_subset_eq [OF fin assms(3)] have "set ms = ?due" by simp
    then show ?thesis by (auto simp: promotes_def aq_def)
  qed (use assms(4) card in simp)
qed

lemma Promote_refines:
  assumes "queue_inv R C P (rds w)" and "int64_range (UnixMilli at)"
  shows "refines R C (OPromote t at) w (snd (PromoteDelayed R C t at w))"
proof -
  let ?n = "UnixMilli at"
  obtain ms where ms: "ZRANGEBYSCORE R (DelayedKey t) (f64 ?n) 0 256 (rds w) = ms" "distinct ms"
    "set ms \<subseteq> {m. \<exists>s\<le>f64 ?n. zset (view R (rds w)) (DelayedKey t) m = Some s}"
    "length ms = min 256 (card {m. \<exists>s\<le>f64 ?n. zset (view R (rds w)) (DelayedKey t) m = Some s})"
    by (rule due_members [of t "f64 ?n" "rds w"])
  let ?pipe = "List.map_filter (promote_cmd R C t ?n) ms"
  have "\<forall>m\<in>set ms. zset (view R (rds w)) (DelayedKey t) m \<noteq> None" using ms(3) by blast
  note eff = aq_promote [OF assms this]
  have op: "aq_op C (clk w) (OPromote t at) (aq R C (rds w)) (aq R C (fold (\<lambda>c. c) ?pipe (rds w)))"
    unfolding eff by (rule aq_op.promote [OF promotes_due [OF assms(1) ms(2-4)]])
  let ?get = "rcall (\<lambda>r. (ZRANGEBYSCORE R (DelayedKey t) (f64 ?n) 0 256 r, r)) w"
  obtain a w1 where a: "?get = (a, w1)" by fastforce
  have w1: "rds w1 = rds w" by (rule rcall_readD [OF a])
  show ?thesis
  proof (cases a)
    case (Inl e)
    have "\<not> rok w" using rcall_okInl a Inl by metis
    moreover have "snd (PromoteDelayed R C t at w) = w1" by (simp add: PromoteDelayed_def Let_def a Inl)
    ultimately show ?thesis by (simp add: refines_def w1)
  next
    case (Inr xs)
    then have xs: "xs = ms" using rcall_readInr [OF a [unfolded Inr]] ms(1) by simp
    show ?thesis
    proof (cases "?pipe = []")
      case True
      then have "snd (PromoteDelayed R C t at w) = w1"
        by (simp add: PromoteDelayed_def Let_def a Inr xs)
      with op True show ?thesis by (simp add: refines_def w1)
    next
      case False
      then have "ms \<noteq> []" by (auto simp: map_filter_simps)
      with False have "snd (PromoteDelayed R C t at w) = snd (rcall (\<lambda>r. ((), fold (\<lambda>c. c) ?pipe r)) w1)"
        by (auto simp: PromoteDelayed_def Let_def a Inr xs split: prod.splits sum.splits)
      with rcall_rds [of "\<lambda>r. ((), fold (\<lambda>c. c) ?pipe r)" w1] rcall_ok(2) [of w1 "\<lambda>r. ((), fold (\<lambda>c. c) ?pipe r)"]
        rcall_okD [OF a] op show ?thesis by (auto simp: refines_def w1)
    qed
  qed
qed

lemma other_refines:
  "refines R C (OAck wk i) w (snd (Ack R C wk i w))" "refines R C (ONack wk i) w (snd (Nack R C wk i w))"
  "refines R C (ODeadLetter env reason) w (snd (DeadLetter R C env reason w))"
  "refines R C (OHeartbeat wk ttl) w (snd (Heartbeat R wk ttl w))"
  "refines R C (OPublish ev) w (snd (Publish R C ev w))"
proof -
  show "refines R C (OAck wk i) w (snd (Ack R C wk i w))"
    unfolding Ack_def by (rule refines_rcall) (simp add: aq_HDEL aq_op.ack)
  show "refines R C (ONack wk i) w (snd (Nack R C wk i w))"
    unfolding Nack_def by (rule refines_rcall) (simp add: aq_HDEL aq_op.nack)
  have s: "aq R C (RPUSH R (DLQKey t) v r) = aq R C r" "aq R C (SET R now (HeartbeatKey wk) v ttl r) = aq R C r"
    "aq R C (PUBLISH R ch v r) = aq R C r" for t v r now wk ttl ch
  proof -
    have st: "view R (SET R now (HeartbeatKey wk) v ttl r) = (view R r)\<lparr>strs := strs (view R (SET R now (HeartbeatKey wk) v ttl r))\<rparr>"
      by (rule view_SET_strs) simp
    show "aq R C (SET R now (HeartbeatKey wk) v ttl r) = aq R C r"
      by (rule aq_same) (subst st, simp)+
    show "aq R C (RPUSH R (DLQKey t) v r) = aq R C r" "aq R C (PUBLISH R ch v r) = aq R C r"
      by (simp_all add: aq_def)
  qed
  show "refines R C (ODeadLetter env reason) w (snd (DeadLetter R C env reason w))"
    by (auto simp: DeadLetter_def s intro!: refines_rcall refines_same aq_op.dead_letter split: option.splits)
  show "refines R C (OHeartbeat wk ttl) w (snd (Heartbeat R wk ttl w))"
    by (auto simp: Heartbeat_def Let_def s intro!: refines_rcall aq_op.heartbeat)
  show "refines R C (OPublish ev) w (snd (Publish R C ev w))"
    by (auto simp: Publish_def s intro!: refines_rcall refines_same aq_op.publish split: option.splits)
qed

end



end
