(* ===== verification/System.thy ===== *)
theory System
  imports Api Handlers Hub Refinement
begin

section \<open>The whole system\<close>

text \<open>
  The processes together: the API server, any number of workers that run envelopes and may crash before,
  during and after a handler runs, and the coordinator. The calls that report an outcome (\<open>execute_end\<close>),
  and those of one sweep, are one step: the code removes an envelope from the in-flight hash before it
  stores it elsewhere, so a process that stopped between the two would lose it. A state of the system is
  the shared world, the executions that are under way, and the ids of the tasks whose
  handler has returned successfully. Redis delivers its calls, after any delays; PostgreSQL may fail in any way.
\<close>

record 'r sys =
  net :: "'r world"
  running :: "(worker \<times> envelope) list"
  finished :: "uuid set"

subsection \<open>Time and the network\<close>

text \<open>An operation lets time pass, uses up delays, and keeps a network that delivers.\<close>

definition calm :: "'r world \<Rightarrow> 'r world \<Rightarrow> bool" where
  "calm w w' \<longleftrightarrow> (rok w \<longrightarrow> rok w') \<and> clk w \<le> clk w' \<and> horizon w' = horizon w"

lemma calm_refl [simp]: "calm w w"
  by (simp add: calm_def)

lemma calm_trans: "calm w w1 \<Longrightarrow> calm w1 w2 \<Longrightarrow> calm w w2"
  by (auto simp: calm_def)

lemma calm_rcall: "calm w (snd (rcall f w))"
  by (simp add: calm_def rcall_clk)

lemma calm_pgcall: "calm w (snd (pgcall f w))"
  by (simp add: calm_def pgcall_clk)

lemma calm_queue:
  "calm w (snd (Enqueue R C env w))" "calm w (snd (EnqueueDelayed R C env due w))"
  "calm w (snd (Lease R C t wk w))" "calm w (snd (Ack R C wk i w))"
  "calm w (snd (Nack R C wk i w))" "calm w (snd (DeadLetter R C env reason w))"
  "calm w (snd (Heartbeat R wk ttl w))" "calm w (snd (Publish R C ev w))"
  "calm w (snd (PromoteDelayed R C t now w))"
  by (simp_all add: calm_def queue_clk queue_clk2)

lemma calm_LeaseAny: "calm w (snd (LeaseAny R C ts wk w))"
proof (induction ts arbitrary: w)
  case (Cons t ts)
  obtain res w1 where l: "Lease R C t wk w = (res, w1)" by fastforce
  have "calm w w1" using calm_queue(3) [of w R C t wk] l by simp
  with calm_trans [OF this Cons.IH] show ?case by (auto simp: l split: sum.splits)
qed simp

lemma calm_then_log: "calm w (snd (then_log f Q i ty msg w))"
  using then_log_same_redis [of w f Q i ty msg] then_log_clk [of w f Q i ty msg]
  by (simp add: calm_def same_redis_def rok_def)

lemma calm_store:
  "calm w (snd (MarkRunning Q i wk w))" "calm w (snd (MarkSucceeded Q i res w))"
  "calm w (snd (MarkRetry Q i due msg w))" "calm w (snd (MarkCanceled Q i w))"
  "calm w (snd (MarkDead Q i msg w))" "calm w (snd (TouchWorker Q wk w))" "calm w (snd (Redrive Q i w))"
  by (simp_all add: marks_then_log calm_then_log TouchWorker_def calm_pgcall)
    (simp_all add: calm_def MarkDead_clk Redrive_rds)

lemma calm_CreateTask: "calm w (snd (snd (CreateTask Q u t w)))"
  by (simp add: CreateTask_then_log Let_def calm_then_log)

lemma calm_publish: "calm w (publishEvent R C wk env st msg w)"
  by (simp add: publishEvent_def calm_queue)

text \<open>The chains of calls of an execution.\<close>

lemmas calm_chains =
  calm_trans [OF calm_store(1) calm_publish]
  calm_trans [OF calm_trans [OF calm_queue(4) calm_store(2)] calm_publish]
  calm_trans [OF calm_trans [OF calm_trans [OF calm_queue(5) calm_queue(6)] calm_store(5)] calm_publish]
  calm_trans [OF calm_trans [OF calm_trans [OF calm_queue(5) calm_queue(2)] calm_store(3)] calm_publish]

lemma calm_execute:
  "calm w (execute_begin R C Q wk env w)" "calm w (snd (execute_end R C Q conv k wk env outc w))"
  "calm w (snd (execute_unknown R C Q wk env w))"
  by (simp_all only: execute_begin_def execute_end_def execute_unknown_def Let_def snd_conv calm_chains
      split: sum.split if_split) (blast intro: calm_chains)+

lemma calm_promote_loop: "calm w (promote_loop R C seen ts w)"
  by (induction ts arbitrary: seen w) (auto intro: calm_trans [OF calm_queue(9)])

lemma calm_reclaimDead: "calm w (reclaimDead R C Q w)"
proof -
  have "rok w \<longrightarrow> rok (reclaimDead R C Q w)"
  proof -
    have "rok w1 \<Longrightarrow> rok (reclaim_workers R C Q wrs w1)" for wrs w1
      by (induction wrs arbitrary: w1) simp_all
    with ListWorkersD(2) [of Q w] show ?thesis by (auto simp: reclaimDead_def split: prod.splits sum.splits)
  qed
  then show ?thesis by (simp add: calm_def reclaimDead_clk)
qed

subsection \<open>Where a task is\<close>

text \<open>
  A task is accounted for when an envelope with its id is ready, delayed or in flight, or a
  dead-letter record holds one.
\<close>

definition queued_at :: "'r redis \<Rightarrow> codec \<Rightarrow> 'r world \<Rightarrow> uuid \<Rightarrow> bool" where
  "queued_at R C w i \<longleftrightarrow>
     (\<exists>t m e. (ready R w t m \<noteq> None \<or> delayed R w t m \<noteq> None) \<and> unmarshal C m = Some e \<and> EnvID e = i)"

definition held_at :: "'r redis \<Rightarrow> codec \<Rightarrow> 'r world \<Rightarrow> uuid \<Rightarrow> bool" where
  "held_at R C w i \<longleftrightarrow> (\<exists>wk f v e. inflight R w wk f = Some v \<and> unmarshal C v = Some e \<and> EnvID e = i)"

definition buried_at :: "'r redis \<Rightarrow> codec \<Rightarrow> 'r world \<Rightarrow> uuid \<Rightarrow> bool" where
  "buried_at R C w i \<longleftrightarrow>
     (\<exists>t b e reason ms. b \<in> set (dlq R w t) \<and> marshal_dead C e reason ms = Some b \<and> EnvID e = i)"

definition accounted :: "'r redis \<Rightarrow> codec \<Rightarrow> 'r world \<Rightarrow> uuid \<Rightarrow> bool" where
  "accounted R C w i \<longleftrightarrow> queued_at R C w i \<or> held_at R C w i \<or> buried_at R C w i"

text \<open>Every id outside \<open>J\<close> that is accounted for stays so.\<close>

definition keeps :: "'r redis \<Rightarrow> codec \<Rightarrow> uuid set \<Rightarrow> 'r world \<Rightarrow> 'r world \<Rightarrow> bool" where
  "keeps R C J w w' \<longleftrightarrow> (\<forall>i. i \<notin> J \<and> accounted R C w i \<longrightarrow> accounted R C w' i)"

lemma keeps_trans: "keeps R C J w w1 \<Longrightarrow> keeps R C J w1 w2 \<Longrightarrow> keeps R C J w w2"
  by (simp add: keeps_def)

lemma keeps_again: "keeps R C {j} w w1 \<Longrightarrow> accounted R C w1 j \<Longrightarrow> keeps R C {} w w1"
  by (auto simp: keeps_def)

lemma keeps_same:
  "zset (view R (rds w')) = zset (view R (rds w)) \<Longrightarrow> hash (view R (rds w')) = hash (view R (rds w)) \<Longrightarrow>
   rlist (view R (rds w')) = rlist (view R (rds w)) \<Longrightarrow> keeps R C J w w'"
  by (simp add: keeps_def accounted_def queued_at_def held_at_def buried_at_def)

lemma queued_at_mono:
  assumes "queued_at R C w i" and "\<And>t m. ready R w t m \<noteq> None \<Longrightarrow> ready R w' t m \<noteq> None"
    and "\<And>t m. delayed R w t m \<noteq> None \<Longrightarrow> delayed R w' t m \<noteq> None"
  shows "queued_at R C w' i"
  using assms unfolding queued_at_def by blast

lemma buried_at_mono:
  "buried_at R C w i \<Longrightarrow> (\<And>t. set (dlq R w t) \<subseteq> set (dlq R w' t)) \<Longrightarrow> buried_at R C w' i"
  unfolding buried_at_def by blast

lemma keeps_grows:
  assumes "grows R w w'" and "\<And>i. held_at R C w i \<Longrightarrow> accounted R C w' i"
  shows "keeps R C {} w w'"
proof -
  have "queued_at R C w' i" if "queued_at R C w i" for i
    by (rule queued_at_mono [OF that]) (use assms(1) in \<open>simp_all add: grows_def\<close>)
  moreover have "buried_at R C w' i" if "buried_at R C w i" for i
    by (rule buried_at_mono [OF that]) (use assms(1) in \<open>simp add: grows_def\<close>)
  ultimately show ?thesis using assms(2) by (auto simp: keeps_def accounted_def)
qed

lemma keeps_grows_hash:
  "grows R w w' \<Longrightarrow> hash (view R (rds w')) = hash (view R (rds w)) \<Longrightarrow> keeps R C {} w w'"
  by (rule keeps_grows) (simp_all add: accounted_def held_at_def)

text \<open>Dropping a lease concerns one id only, when the hashes are consistent.\<close>

context task_queue
begin

lemma keeps_drop:
  assumes "queue_inv R C P (rds w)" and "zset (view R (rds w')) = zset (view R (rds w))"
    and "rlist (view R (rds w')) = rlist (view R (rds w))"
    and "hash (view R (rds w')) = (hash (view R (rds w)))(InflightKey wk := (inflight R w wk)(UUID_String C j := None))"
  shows "keeps R C {j} w w'"
proof -
  have "held_at R C w' i" if i: "i \<noteq> j" "held_at R C w i" for i
  proof -
    from i(2) obtain wk' f v e where v: "inflight R w wk' f = Some v" "unmarshal C v = Some e" "EnvID e = i"
      by (auto simp: held_at_def)
    from inflight_decodes [OF assms(1) v(1)] v(2) writtenD(1) have "f = UUID_String C i"
      using v(3) by auto
    with v(1) i(1) have "inflight R w' wk' f = Some v" by (cases "wk' = wk") (simp_all add: assms(4))
    with v(2,3) show ?thesis unfolding held_at_def by blast
  qed
  with assms(2,3) show ?thesis by (auto simp: keeps_def accounted_def queued_at_def buried_at_def)
qed

lemma Lease_view_cases:
  assumes "queue_inv R C P (rds w)"
  shows "view R (rds (snd (Lease R C t wk w))) = view R (rds w) \<or>
    (\<exists>m e. written C m e \<and> view R (rds (snd (Lease R C t wk w))) = (view R (rds w))\<lparr>
      zset := (zset (view R (rds w)))(QueueKey t := (ready R w t)(m := None)),
      hash := (hash (view R (rds w)))(InflightKey wk := (inflight R w wk)(UUID_String C (EnvID e) \<mapsto> m))\<rparr>)"
proof (cases "ready R w t = Map.empty")
  case True
  then show ?thesis
    using rcall_rds [of "leaseScript R C (QueueKey t) (InflightKey wk)" w] leaseScript_empty [OF True, of wk]
    by (auto simp: Lease_snd)
next
  case False
  let ?f = "leaseScript R C (QueueKey t) (InflightKey wk)"
  obtain m e where me: "written C m e" "view R (snd (?f (rds w))) = (view R (rds w))\<lparr>
      zset := (zset (view R (rds w)))(QueueKey t := (ready R w t)(m := None)),
      hash := (hash (view R (rds w)))(InflightKey wk := (inflight R w wk)(UUID_String C (EnvID e) \<mapsto> m))\<rparr>"
    using leaseScript_pops [OF assms False, of wk] by blast
  from rcall_rds [of ?f w] show ?thesis
  proof
    assume "rds (snd (rcall ?f w)) = snd (?f (rds w))"
    with me show ?thesis unfolding Lease_snd by (intro disjI2 exI [of _ m] exI [of _ e]) simp
  qed (simp add: Lease_snd)
qed

lemma keeps_Lease:
  assumes "queue_inv R C P (rds w)"
  shows "keeps R C {} w (snd (Lease R C t wk w))"
  using Lease_view_cases [OF assms, of t wk]
proof (elim disjE exE conjE)
  let ?w' = "snd (Lease R C t wk w)"
  fix m e
  assume m: "written C m e" and v: "view R (rds ?w') = (view R (rds w))\<lparr>
      zset := (zset (view R (rds w)))(QueueKey t := (ready R w t)(m := None)),
      hash := (hash (view R (rds w)))(InflightKey wk := (inflight R w wk)(UUID_String C (EnvID e) \<mapsto> m))\<rparr>"
  have e: "held_at R C ?w' (EnvID e)"
    unfolding held_at_def using writtenD(1) [OF m]
    by (intro exI [of _ wk] exI [of _ "UUID_String C (EnvID e)"] exI [of _ m] exI [of _ e]) (simp add: v)
  have "accounted R C ?w' i" if "accounted R C w i" "i \<noteq> EnvID e" for i
    using that(1) unfolding accounted_def
  proof (elim disjE)
    assume "queued_at R C w i"
    then obtain t' m' e' where q: "ready R w t' m' \<noteq> None \<or> delayed R w t' m' \<noteq> None" "unmarshal C m' = Some e'" "EnvID e' = i"
      unfolding queued_at_def by blast
    then have "m' \<noteq> m" using writtenD(1) [OF m] that(2) by auto
    with q(1) have "ready R ?w' t' m' \<noteq> None \<or> delayed R ?w' t' m' \<noteq> None"
      by (cases "t' = t") (simp_all add: v del: not_None_eq)
    with q(2,3) have "queued_at R C ?w' i" unfolding queued_at_def by blast
    then show "queued_at R C ?w' i \<or> held_at R C ?w' i \<or> buried_at R C ?w' i" ..
  next
    assume "held_at R C w i"
    then obtain wk' f x e' where h: "inflight R w wk' f = Some x" "unmarshal C x = Some e'" "EnvID e' = i"
      unfolding held_at_def by blast
    have "f = UUID_String C i" using inflight_decodes [OF assms h(1)] writtenD(1) h(2,3) by auto
    with that(2) h(1) have "inflight R ?w' wk' f = Some x" by (cases "wk' = wk") (simp_all add: v)
    with h(2,3) have "held_at R C ?w' i" unfolding held_at_def by blast
    then show "queued_at R C ?w' i \<or> held_at R C ?w' i \<or> buried_at R C ?w' i" by blast
  next
    assume "buried_at R C w i"
    then have "buried_at R C ?w' i" by (rule buried_at_mono) (simp add: v)
    then show "queued_at R C ?w' i \<or> held_at R C ?w' i \<or> buried_at R C ?w' i" by blast
  qed
  with e show "keeps R C {} w ?w'" unfolding keeps_def accounted_def by blast
qed (rule keeps_same; simp)

lemma keeps_LeaseAny:
  assumes "queue_inv R C P (rds w)"
  shows "keeps R C {} w (snd (LeaseAny R C ts wk w))"
  using assms
proof (induction ts arbitrary: w)
  case (Cons t ts)
  obtain res w1 where l: "Lease R C t wk w = (res, w1)" by fastforce
  have k: "keeps R C {} w w1" using keeps_Lease [OF Cons.prems, of t wk] l by simp
  have "queue_inv R C P (rds w1)" using Lease_inv [OF Cons.prems, of t wk] l by simp
  with keeps_trans [OF k Cons.IH] k show ?case by (auto simp: l split: sum.splits)
qed (simp add: keeps_def)

end

subsection \<open>Executions, promotion and recovery\<close>

context task_queue
begin

lemma keeps_execute_end:
  assumes "rok w" and "queue_inv R C live (rds w)" and "env_wf C env"
  shows "keeps R C (case outc of Inr _ \<Rightarrow> {EnvID env} | Inl _ \<Rightarrow> {}) w
    (snd (execute_end R C Q conv k wk env outc w))" (is "keeps R C _ w ?w'")
proof (cases outc)
  case (Inr result)
  from execute_end_success [OF assms(1), of Q conv k wk env result] show ?thesis
    unfolding Inr Let_def by (auto intro: keeps_drop [OF assms(2)])
next
  case (Inl err)
  have raw: "raw_ok C (EnvPayload env)" using assms(3) by (simp add: env_wf_def)
  let ?env = "env\<lparr>EnvAttempts := add64 (EnvAttempts env) 1\<rparr>"
  let ?w1 = "snd (Nack R C (WID wk) (EnvID env) w)"
  have n: "keeps R C {EnvID env} w ?w1"
    by (rule keeps_drop [OF assms(2)]) (simp_all add: Nack_view [OF assms(1)])
  show ?thesis
  proof (cases "add64 (EnvAttempts env) 1 < EnvMaxAttempts env")
    case True
    let ?e = "execute_end R C Q conv k wk env (Inl err) w"
    obtain body z where b: "marshal C ?env = Some body"
      and zs: "zset (view R (rds (snd ?e))) = (zset (view R (rds w)))(DelayedKey (EnvType env) := (delayed R w (EnvType env))(body \<mapsto> z))"
      and rl: "rlist (view R (rds (snd ?e))) = rlist (view R (rds w))"
      and hs: "hash (view R (rds (snd ?e))) = (hash (view R (rds w)))(InflightKey (WID wk) :=
         (inflight R w (WID wk))(UUID_String C (EnvID env) := None))"
      using execute_end_retry [OF assms(1) raw True, of Q conv k wk err] unfolding Let_def by blast
    have "env_wf C ?env" using assms(3) by (simp add: env_wf_def add64_def wrap64_range)
    from unmarshal_marshal [OF this b] have q: "queued_at R C (snd ?e) (EnvID env)"
      unfolding queued_at_def by (intro exI [of _ "EnvType env"] exI [of _ body] exI [of _ "compacted C ?env"]) (simp add: zs)
    have "keeps R C {} ?w1 (snd ?e)"
    proof (unfold keeps_def, intro allI impI, elim conjE)
      fix i assume a: "accounted R C ?w1 i"
      have "queued_at R C (snd ?e) i" if "queued_at R C ?w1 i"
        by (rule queued_at_mono [OF that]) (auto simp: zs Nack_view [OF assms(1)])
      moreover have "held_at R C (snd ?e) i" if "held_at R C ?w1 i"
        using that by (simp add: held_at_def hs Nack_view [OF assms(1)])
      moreover have "buried_at R C (snd ?e) i" if "buried_at R C ?w1 i"
        by (rule buried_at_mono [OF that]) (simp add: rl Nack_view [OF assms(1)])
      ultimately show "accounted R C (snd ?e) i" using a unfolding accounted_def by blast
    qed
    then have "keeps R C {EnvID env} ?w1 (snd ?e)" by (simp add: keeps_def)
    from keeps_again [OF keeps_trans [OF n this]] q show ?thesis unfolding Inl by (simp add: accounted_def)
  next
    case False
    let ?e = "execute_end R C Q conv k wk env (Inl err) w"
    obtain body ms where b: "marshal_dead C ?env err ms = Some body"
      and zs: "zset (view R (rds (snd ?e))) = zset (view R (rds w))"
      and rl: "rlist (view R (rds (snd ?e))) = (rlist (view R (rds w)))(DLQKey (EnvType env) := dlq R w (EnvType env) @ [body])"
      and hs: "hash (view R (rds (snd ?e))) = (hash (view R (rds w)))(InflightKey (WID wk) :=
         (inflight R w (WID wk))(UUID_String C (EnvID env) := None))"
      using execute_end_dead [OF assms(1) raw, of Q conv k wk err] False unfolding Let_def by (meson linorder_not_less)
    have q: "buried_at R C (snd ?e) (EnvID env)"
      unfolding buried_at_def using b
      by (intro exI [of _ "EnvType env"] exI [of _ body] exI [of _ ?env] exI [of _ err] exI [of _ ms]) (simp add: rl)
    have g: "grows R ?w1 (snd ?e)"
      by (auto simp: grows_def zs rl Nack_view [OF assms(1)])
    have "keeps R C {} ?w1 (snd ?e)"
      by (rule keeps_grows_hash [OF g]) (simp add: hs Nack_view [OF assms(1)])
    then have "keeps R C {EnvID env} ?w1 (snd ?e)" by (simp add: keeps_def)
    from keeps_again [OF keeps_trans [OF n this]] q show ?thesis unfolding Inl by (simp add: accounted_def)
  qed
qed

lemma keeps_execute_unknown:
  assumes "rok w" and "queue_inv R C live (rds w)" and "env_wf C env"
  shows "keeps R C {} w (snd (execute_unknown R C Q wk env w))"
proof -
  let ?w1 = "snd (Nack R C (WID wk) (EnvID env) w)"
  let ?w2 = "snd (DeadLetter R C env ''no handler registered'' ?w1)"
  let ?w' = "snd (execute_unknown R C Q wk env w)"
  have n: "keeps R C {EnvID env} w ?w1"
    by (rule keeps_drop [OF assms(2)]) (simp_all add: Nack_view [OF assms(1)])
  have raw: "raw_ok C (EnvPayload env)" using assms(3) by (simp add: env_wf_def)
  have ok: "rok ?w1" using assms(1) by simp
  from DeadLetter_view [OF ok raw, of "''no handler registered''"] obtain b
    where b: "marshal_dead C env ''no handler registered'' (UnixMilli (clk ?w1)) = Some b"
      and "view R (rds ?w2) = (view R (rds ?w1))\<lparr>rlist :=
      (rlist (view R (rds ?w1)))(DLQKey (EnvType env) := dlq R ?w1 (EnvType env) @ [b])\<rparr>" by blast
  then have "b \<in> set (dlq R ?w2 (EnvType env))" by simp
  with b have "buried_at R C ?w2 (EnvID env)" unfolding buried_at_def by blast
  moreover have "keeps R C {EnvID env} ?w1 ?w2"
    using keeps_grows_hash [OF DeadLetter_grows [of ?w1 env "''no handler registered''"]] by (simp add: keeps_def)
  ultimately have "keeps R C {} w ?w2"
    using keeps_again [OF keeps_trans [OF n]] by (simp add: accounted_def)
  moreover have "keeps R C {} ?w2 ?w'" by (rule keeps_same) (simp_all add: execute_unknown_def Let_def)
  ultimately show ?thesis by (rule keeps_trans)
qed

lemma keeps_PromoteDelayed:
  assumes "rok w" and "queue_inv R C P (rds w)" and "int64_range (UnixMilli now)"
  shows "keeps R C {} w (snd (PromoteDelayed R C t now w))"
proof -
  let ?w' = "snd (PromoteDelayed R C t now w)"
  let ?b = "\<lambda>m. the (marshal C (promoted C (UnixMilli now) m))"
  obtain ms sc where v: "view R (rds ?w') = (view R (rds w))\<lparr>zset := (zset (view R (rds w)))
      (DelayedKey t := delayed R w t |` (- set ms), QueueKey t := (ready R w t)(map ?b ms [\<mapsto>] map sc ms))\<rparr>"
    using PromoteDelayed_view [OF assms, of t] by blast
  have upd: "(z(map ?b ms [\<mapsto>] map sc ms)) x \<noteq> None \<longleftrightarrow> z x \<noteq> None \<or> x \<in> ?b ` set ms" for z x
    by (auto simp: dom_map_upds simp del: not_None_eq simp flip: domIff)
  have r: "ready R ?w' t' x \<noteq> None" if "ready R w t' x \<noteq> None" for t' x
    using that by (cases "t' = t") (simp_all add: v upd del: not_None_eq)
  have "queued_at R C ?w' i" if "queued_at R C w i" for i
  proof -
    from that obtain t' m e where m: "ready R w t' m \<noteq> None \<or> delayed R w t' m \<noteq> None" "unmarshal C m = Some e" "EnvID e = i"
      unfolding queued_at_def by blast
    show ?thesis
    proof (cases "ready R w t' m \<noteq> None \<or> t' \<noteq> t \<or> m \<notin> set ms")
      case True
      with m(1) r [of t' m] have "ready R ?w' t' m \<noteq> None \<or> delayed R ?w' t' m \<noteq> None"
        by (cases "t' = t") (auto simp: v restrict_map_def simp del: not_None_eq)
      with m(2,3) show ?thesis unfolding queued_at_def by blast
    next
      case False
      then obtain s where "delayed R w t m = Some s" using m(1) by blast
      from delayed_decodes [OF assms(2) this] obtain e' where e': "written C m e'" by blast
      with m(2) writtenD(1) have [simp]: "e' = e" by simp
      have "unmarshal C (?b m) = Some (e\<lparr>EnqueuedAt := UnixMilli now\<rparr>)"
        using writtenD(1) [OF promote_written(1) [OF e' assms(3)]] by simp
      moreover have "ready R ?w' t (?b m) \<noteq> None" using False by (simp add: v upd del: not_None_eq)
      ultimately show ?thesis using m(3) unfolding queued_at_def by fastforce
    qed
  qed
  then show ?thesis by (auto simp: keeps_def accounted_def held_at_def buried_at_def v)
qed

lemma keeps_promote_loop:
  assumes "rok w" and "queue_inv R C live (rds w)" and "0 \<le> clk w" and "int64_range (UnixMilli (horizon w))"
  shows "keeps R C {} w (promote_loop R C seen ts w) \<and> queue_inv R C live (rds (promote_loop R C seen ts w))"
  using assms
proof (induction ts arbitrary: seen w)
  case (Cons t ts)
  let ?w1 = "snd (PromoteDelayed R C t (clk w) w)"
  have c: "calm w ?w1" by (rule calm_queue(9))
  have r: "int64_range (UnixMilli (clk w))" by (rule horizon_range [OF Cons.prems(3,4)]) simp_all
  have k: "keeps R C {} w ?w1" by (rule keeps_PromoteDelayed [OF Cons.prems(1,2) r])
  have "queue_inv R C live (rds ?w1)" by (rule PromoteDelayed_inv [OF Cons.prems(2) live_cond r])
  then have IH: "keeps R C {} ?w1 (promote_loop R C (t # seen) ts ?w1) \<and>
      queue_inv R C live (rds (promote_loop R C (t # seen) ts ?w1))"
    using Cons.prems c by (intro Cons.IH) (auto simp: calm_def)
  with keeps_trans [OF k, of "promote_loop R C (t # seen) ts ?w1"] Cons show ?case by simp
qed (simp add: keeps_def)

end

lemma scan_loop_rds: "scan_loop R pat n c w = Some (res, w1) \<Longrightarrow> rds w1 = rds w"
proof (induction n arbitrary: c w res w1)
  case (Suc n)
  obtain a w0 where r: "rcall (\<lambda>r. (SCAN R c pat 100 r, r)) w = (a, w0)" by fastforce
  note r' = rcall_readD [OF r]
  show ?case
  proof (cases a)
    case (Inl e)
    with Suc.prems r r' show ?thesis by auto
  next
    case (Inr p)
    obtain ks c' where p: "p = (ks, c')" by fastforce
    with Suc.prems r r' Inr Suc.IH [of c' w0 _ w1] show ?thesis
      by (auto split: if_splits option.splits prod.splits sum.splits)
  qed
qed simp

lemma scans_calm:
  assumes "ListTypes R n w = Some (res, w1)"
  shows "rds w1 = rds w \<and> calm w w1"
  using assms scan_loop_rds [of R "''queue:*''" n 0 w] scan_loop_mono [of R "''queue:*''" n 0 w]
    scan_loop_horizon [of R "''queue:*''" n 0 w]
  by (auto simp: ListTypes_def calm_def split: option.splits prod.splits sum.splits)

lemma scanDelayedTypes_calm:
  assumes "scanDelayedTypes R n w = Some (res, w1)"
  shows "rds w1 = rds w \<and> calm w w1"
  using assms scan_loop_rds [of R "''delayed:*''" n 0 w] scan_loop_mono [of R "''delayed:*''" n 0 w]
    scan_loop_horizon [of R "''delayed:*''" n 0 w]
  by (auto simp: scanDelayedTypes_def calm_def split: option.splits prod.splits sum.splits)

lemma keeps_rds: "rds w1 = rds w \<Longrightarrow> keeps R C J w w1"
  by (rule keeps_same) simp_all

text \<open>A world in which Redis delivers, is consistent, and whose times fit into Go's integers.\<close>

definition sound :: "'r redis \<Rightarrow> codec \<Rightarrow> 'r world \<Rightarrow> bool" where
  "sound R C w \<longleftrightarrow> rok w \<and> queue_inv R C live (rds w) \<and> 0 \<le> clk w \<and> int64_range (UnixMilli (horizon w))"

lemma sound_calm: "sound R C w \<Longrightarrow> calm w w' \<Longrightarrow> queue_inv R C live (rds w') \<Longrightarrow> sound R C w'"
  by (auto simp: sound_def calm_def)

lemma sound_range: "sound R C w \<Longrightarrow> int64_range (UnixMilli (clk w))"
  using horizon_range [of w w] by (simp add: sound_def)

lemma sound_rds: "sound R C w \<Longrightarrow> calm w w' \<Longrightarrow> rds w' = rds w \<Longrightarrow> sound R C w'"
  by (rule sound_calm) (simp_all add: sound_def)

context task_queue
begin

lemma promoteDelayed_sound:
  assumes "sound R C w" and "promoteDelayed R C fuel w = Some w'"
  shows "sound R C w' \<and> keeps R C {} w w'"
proof -
  obtain res w1 where l: "ListTypes R fuel w = Some (res, w1)"
    using assms(2) by (auto simp: promoteDelayed_def split: option.splits)
  note L = scans_calm [OF l]
  show ?thesis
  proof (cases res)
    case (Inl e)
    with assms(2) l have "w' = w1" by (simp add: promoteDelayed_def)
    with L assms(1) show ?thesis by (auto intro: sound_rds keeps_rds)
  next
    case (Inr types)
    with assms(2) l obtain res2 w2 where d: "scanDelayedTypes R fuel w1 = Some (res2, w2)"
      by (auto simp: promoteDelayed_def split: option.splits)
    note D = scanDelayedTypes_calm [OF d]
    define ts where "ts = types @ (case res2 of Inl _ \<Rightarrow> [] | Inr x \<Rightarrow> x)"
    have w': "w' = promote_loop R C [] ts w2"
      using assms(2) l Inr d by (simp add: promoteDelayed_def ts_def Let_def)
    have s2: "sound R C w2" "rds w2 = rds w" using L D assms(1) by (auto intro: sound_rds)
    then have "keeps R C {} w2 w' \<and> queue_inv R C live (rds w')"
      unfolding w' sound_def by (intro keeps_promote_loop) simp_all
    then show ?thesis
      using sound_calm [OF s2(1) calm_promote_loop, of R C "[]" ts] keeps_trans [OF keeps_rds [OF s2(2)]]
      unfolding w' by blast
  qed
qed

lemma reclaimDead_sound:
  assumes "sound R C w"
  shows "sound R C (reclaimDead R C Q w) \<and> keeps R C {} w (reclaimDead R C Q w)"
proof -
  obtain res w1 where l: "ListWorkers Q w = (res, w1)" by fastforce
  note L = ListWorkersD [OF l]
  show ?thesis
  proof (cases res)
    case (Inl e)
    then have "reclaimDead R C Q w = w1" by (simp add: reclaimDead_def l)
    with L calm_reclaimDead [of w R C Q] assms show ?thesis by (auto intro: sound_rds keeps_rds)
  next
    case (Inr wrs)
    let ?w' = "reclaim_workers R C Q wrs w1"
    have eq: "reclaimDead R C Q w = ?w'" by (simp add: reclaimDead_def l Inr)
    have s1: "rok w1" "queue_inv R C live (rds w1)" "0 \<le> clk w1" using assms L by (auto simp: sound_def)
    have "horizon w1 = horizon w" using store_horizon(6) [of Q w] by (simp add: l)
    with assms s1(3) have "int64_range (UnixMilli (clk ?w'))"
      using horizon_range [OF s1(3) _ reclaim_workers_clk, of R C Q wrs] by (simp add: sound_def)
    note E = reclaim_workers_effect [OF s1 this]
    have "accounted R C ?w' i" if "held_at R C w1 i" for i
    proof -
      from that obtain wk f v e where h: "inflight R w1 wk f = Some v" "unmarshal C v = Some e" "EnvID e = i"
        unfolding held_at_def by blast
      from E have "inflight R ?w' wk = inflight R w1 wk \<or> taken_back R C w1 ?w' wk" by (simp add: handled_def)
      then show ?thesis
      proof
        assume "inflight R ?w' wk = inflight R w1 wk"
        with h show ?thesis unfolding accounted_def held_at_def by metis
      next
        assume "taken_back R C w1 ?w' wk"
        with h have "reclaimed R C ?w' e" unfolding taken_back_def by blast
        then have "queued_at R C ?w' i \<or> buried_at R C ?w' i"
        proof (cases "add64 (EnvAttempts e) 1 \<ge> EnvMaxAttempts e")
          case True
          with \<open>reclaimed R C ?w' e\<close> obtain ms body
            where "marshal_dead C (e\<lparr>EnvAttempts := add64 (EnvAttempts e) 1\<rparr>) ''worker died'' ms = Some body"
              "body \<in> set (dlq R ?w' (EnvType e))" unfolding reclaimed_def by (meson if_P True)
          then show ?thesis using h(3) unfolding buried_at_def by fastforce
        next
          case False
          with \<open>reclaimed R C ?w' e\<close> obtain m e' where "ready R ?w' (EnvType e) m \<noteq> None" "unmarshal C m = Some e'"
            "EnvID e' = EnvID e" unfolding reclaimed_def by auto
          then show ?thesis using h(3) unfolding queued_at_def by blast
        qed
        then show ?thesis unfolding accounted_def by blast
      qed
    qed
    with E have "keeps R C {} w1 ?w'" by (intro keeps_grows) simp_all
    moreover have "sound R C ?w'"
      using sound_calm [OF assms calm_reclaimDead, of R C Q] E unfolding eq by simp
    ultimately show ?thesis unfolding eq using keeps_trans [OF keeps_rds [OF L(1)]] by blast
  qed
qed

end

subsection \<open>Steps of the system\<close>

definition requeueable :: "codec \<Rightarrow> task \<Rightarrow> bool" where
  "requeueable C t \<longleftrightarrow> text_ok C (Type t) \<and> int4_range (Priority t) \<and> int4_range (MaxAttempts t) \<and> 0 < MaxAttempts t"

inductive sys_step :: "'r redis \<Rightarrow> codec \<Rightarrow> pg \<Rightarrow> 'r sys \<Rightarrow> 'r sys \<Rightarrow> bool" for R C Q where
  create: "\<forall>req. decode_request body = Some req \<longrightarrow> text_ok C (ReqType req) \<Longrightarrow>
    sys_step R C Q s (s\<lparr>net := snd (createTask R C Q u body (net s))\<rparr>)"
| redrive: "\<forall>i t w1. Redrive Q i (net s) = (Inr t, w1) \<longrightarrow> requeueable C t \<Longrightarrow>
    sys_step R C Q s (s\<lparr>net := snd (redriveDLQ R C Q idp (net s))\<rparr>)"
| cancel: "sys_step R C Q s (s\<lparr>net := snd (cancelTask C Q idp (net s))\<rparr>)"
| leased: "LeaseAny R C ts (WID wk) (net s) = (Inr env, w') \<Longrightarrow>
    sys_step R C Q s (s\<lparr>net := w', running := running s @ [(wk, env)]\<rparr>)"
| not_leased: "LeaseAny R C ts wid (net s) = (Inl e, w') \<Longrightarrow> sys_step R C Q s (s\<lparr>net := w'\<rparr>)"
| started: "(wk, env) \<in> set (running s) \<Longrightarrow>
    sys_step R C Q s (s\<lparr>net := execute_begin R C Q wk env (net s)\<rparr>)"
| ended: "(wk, env) \<in> set (running s) \<Longrightarrow>
    sys_step R C Q s (s\<lparr>net := snd (execute_end R C Q conv k wk env outc (net s)),
      running := remove1 (wk, env) (running s),
      finished := (case outc of Inr _ \<Rightarrow> insert (EnvID env) (finished s) | Inl _ \<Rightarrow> finished s)\<rparr>)"
| unknown: "(wk, env) \<in> set (running s) \<Longrightarrow>
    sys_step R C Q s (s\<lparr>net := snd (execute_unknown R C Q wk env (net s)),
      running := remove1 (wk, env) (running s)\<rparr>)"
| crash: "sys_step R C Q s (s\<lparr>running := filter (\<lambda>(wk', env). WID wk' \<noteq> wid) (running s)\<rparr>)"
| beat: "sys_step R C Q s (s\<lparr>net := heartbeat_tick R Q wk (net s)\<rparr>)"
| promote: "promoteDelayed R C fuel (net s) = Some w' \<Longrightarrow> sys_step R C Q s (s\<lparr>net := w'\<rparr>)"
| recover: "sys_step R C Q s (s\<lparr>net := reclaimDead R C Q (net s)\<rparr>)"
| pass: "0 \<le> d \<Longrightarrow> list_all delivered rf \<Longrightarrow> w' = (net s)\<lparr>clk := clk (net s) + d, rnet := rf, pgnet := pf\<rparr> \<Longrightarrow>
    int64_range (UnixMilli (horizon w')) \<Longrightarrow> sys_step R C Q s (s\<lparr>net := w'\<rparr>)"

inductive sys_steps :: "'r redis \<Rightarrow> codec \<Rightarrow> pg \<Rightarrow> 'r sys \<Rightarrow> 'r sys \<Rightarrow> bool" for R C Q where
  none: "sys_steps R C Q s s"
| more: "sys_steps R C Q s s1 \<Longrightarrow> sys_step R C Q s1 s2 \<Longrightarrow> sys_steps R C Q s s2"

definition sys_inv :: "'r redis \<Rightarrow> codec \<Rightarrow> 'r sys \<Rightarrow> bool" where
  "sys_inv R C s \<longleftrightarrow> sound R C (net s) \<and> (\<forall>(wk, env) \<in> set (running s). env_wf C env)"

context task_queue
begin

lemma LeaseAny_wf:
  assumes "LeaseAny R C ts wk w = (Inr env, w')" and "queue_inv R C P (rds w)"
  shows "env_wf C env"
  using assms
proof (induction ts arbitrary: w)
  case (Cons t ts)
  let ?f = "leaseScript R C (QueueKey t) (InflightKey wk)"
  obtain res w1 where l: "Lease R C t wk w = (res, w1)" by fastforce
  show ?case
  proof (cases res)
    case (Inr env')
    then have [simp]: "env' = env" using Cons.prems(1) l by simp
    obtain m where c: "rcall ?f w = (Inr (Inr (Some m)), w1)" and m: "unmarshal C m = Some env"
      using l Inr by (auto simp: Lease_def split: prod.splits sum.splits option.splits)
    from rcall_Inr [OF c] have f: "fst (?f (rds w)) = Inr (Some m)" by simp
    then have "ready R w t \<noteq> Map.empty"
      by (cases rule: ZPOPMIN_cases [of "rds w" t]) (auto simp: leaseScript_def)
    from leaseScript_pops [OF Cons.prems(2) this, of wk] f obtain e where "written C m e" by auto
    with writtenD [OF this] m show ?thesis by simp
  next
    case (Inl e)
    with Cons.prems(1) l have "LeaseAny R C ts wk w1 = (Inr env, w')" by (auto split: if_splits)
    moreover have "queue_inv R C P (rds w1)" using Lease_inv [OF Cons.prems(2), of t wk] l by simp
    ultimately show ?thesis by (rule Cons.IH)
  qed
qed simp

lemma Enqueue_sound:
  assumes "sound R C w" and "live env" and "int64_range (EnvPriority env)" and "int64_range (EnvAttempts env)"
    and "int64_range (EnvMaxAttempts env)" and "int64_range (EnqueuedAt env)" and "text_ok C (EnvType env)"
  shows "sound R C (snd (Enqueue R C env w)) \<and> keeps R C {} w (snd (Enqueue R C env w))"
proof -
  have "queue_inv R C live (rds (snd (Enqueue R C env w)))"
  proof (cases "raw_ok C (EnvPayload env)")
    case True
    with assms(3-7) have "env_wf C env" by (simp add: env_wf_def)
    with assms(1,2) sound_range [OF assms(1)] show ?thesis
      by (intro Enqueue_inv [OF _ live_cond]) (simp_all add: sound_def)
  next
    case False
    then have "marshal C (if EnqueuedAt env = 0 then env\<lparr>EnqueuedAt := n\<rparr> else env) = None" for n
      using marshal_ok [of "if EnqueuedAt env = 0 then env\<lparr>EnqueuedAt := n\<rparr> else env"] by auto
    with assms(1) show ?thesis by (simp add: Enqueue_def Let_def sound_def)
  qed
  with sound_calm [OF assms(1) calm_queue(1), of R C env] keeps_grows_hash [OF Enqueue_grows]
  show ?thesis by simp
qed

lemma task_env_sound:
  assumes "sound R C w" and "requeueable C t"
  shows "sound R C (snd (Enqueue R C (task_env t) w)) \<and> keeps R C {} w (snd (Enqueue R C (task_env t) w))"
  using assms
  by (intro Enqueue_sound) (auto simp: task_env_def live_def requeueable_def int4_range_def int64_range_def)

lemma createTask_sound:
  assumes "sound R C w" and "\<forall>req. decode_request body = Some req \<longrightarrow> text_ok C (ReqType req)"
  shows "sound R C (snd (createTask R C Q u body w)) \<and> keeps R C {} w (snd (createTask R C Q u body w))"
proof (cases "\<exists>req. decode_request body = Some req \<and> ReqType req \<noteq> ''''")
  case False
  then have "snd (createTask R C Q u body w) = w" by (auto simp: createTask_def split: option.splits)
  with assms(1) show ?thesis by (simp add: keeps_def)
next
  case True
  then obtain req where d: "decode_request body = Some req" "ReqType req \<noteq> ''''" by blast
  obtain res t w1 where c: "CreateTask Q u (new_task req) w = (res, t, w1)" by (metis prod_cases3)
  have "rds w1 = rds w" using store_same_redis(1) [of w Q u "new_task req"] by (simp add: c same_redis_def)
  moreover have "calm w w1" using calm_CreateTask [of w Q u "new_task req"] by (simp add: c)
  ultimately have s1: "sound R C w1" "keeps R C {} w w1" using assms(1) by (auto intro: sound_rds keeps_rds)
  show ?thesis
  proof (cases res)
    case (Inl e)
    then show ?thesis using s1 d c by (simp add: createTask_def)
  next
    case (Inr x)
    have t: "t = task_defaults u (clk w) (new_task req)" using CreateTask_task [of Q u "new_task req" w] c by simp
    have "MaxAttempts t > 0" using new_task_fields(5) [of req] by (simp add: t task_defaults_def Let_def)
    moreover have "int4_range (Priority t)" "int4_range (MaxAttempts t)"
      using CreateTask_row(2,3) [of Q u "new_task req" w t w1] c Inr by (simp_all add: t new_task_defaults)
    ultimately have "requeueable C t"
      using assms(2) d(1) by (simp add: requeueable_def t new_task_defaults)
    from task_env_sound [OF s1(1) this] obtain r2 w2 where e: "Enqueue R C (task_env t) w1 = (r2, w2)"
      and s2: "sound R C w2" "keeps R C {} w1 w2" by (cases "Enqueue R C (task_env t) w1") simp
    let ?ev = "\<lparr>TaskID = ID t, EvType = Type t, EvStatus = StatusQueued, EvWorkerID = '''', Message = '''', Timestamp = clk w2\<rparr>"
    have "sound R C (snd (Publish R C ?ev w2))"
      using s2(1) by (rule sound_calm) (use s2(1) in \<open>simp_all add: calm_queue Publish_inv sound_def\<close>)
    moreover have "keeps R C {} w2 (snd (Publish R C ?ev w2))" by (rule keeps_same) simp_all
    ultimately show ?thesis
      using d c Inr e s2 keeps_trans [OF s1(2) s2(2)] keeps_trans [OF keeps_trans [OF s1(2) s2(2)]]
      by (auto simp: createTask_def Let_def split: sum.splits)
  qed
qed

lemma redriveDLQ_sound:
  assumes "sound R C w" and "\<forall>i t w1. Redrive Q i w = (Inr t, w1) \<longrightarrow> requeueable C t"
  shows "sound R C (snd (redriveDLQ R C Q idp w)) \<and> keeps R C {} w (snd (redriveDLQ R C Q idp w))"
proof (cases "UUID_Parse C idp")
  case None
  with assms(1) show ?thesis by (simp add: redriveDLQ_def keeps_def)
next
  case (Some i)
  obtain res w1 where c: "Redrive Q i w = (res, w1)" by fastforce
  have "rds w1 = rds w" "calm w w1"
    using Redrive_rds(1) [where Q = Q and i = i and w = w] calm_store(7) [of w Q i] by (simp_all add: c)
  then have s1: "sound R C w1" "keeps R C {} w w1" using assms(1) by (auto intro: sound_rds keeps_rds)
  show ?thesis
  proof (cases res)
    case (Inl e)
    with s1 c Some show ?thesis by (simp add: redriveDLQ_def)
  next
    case (Inr t)
    with assms(2) c have "requeueable C t" by blast
    from task_env_sound [OF s1(1) this] obtain r2 w2 where e: "Enqueue R C (task_env t) w1 = (r2, w2)"
      and s2: "sound R C w2" "keeps R C {} w1 w2" by (cases "Enqueue R C (task_env t) w1") simp
    with keeps_trans [OF s1(2) s2(2)] c Some Inr show ?thesis by (auto simp: redriveDLQ_def split: sum.splits)
  qed
qed

end

text \<open>What holds of a task after a step when it held before.\<close>

definition not_lost :: "'r redis \<Rightarrow> codec \<Rightarrow> uuid \<Rightarrow> 'r sys \<Rightarrow> bool" where
  "not_lost R C i s \<longleftrightarrow> accounted R C (net s) i \<or> i \<in> finished s"

definition advances :: "'r redis \<Rightarrow> codec \<Rightarrow> 'r sys \<Rightarrow> 'r sys \<Rightarrow> bool" where
  "advances R C s s' \<longleftrightarrow> sys_inv R C s' \<and> (\<forall>i. not_lost R C i s \<longrightarrow> not_lost R C i s')"

lemma advances_net:
  assumes "sys_inv R C s" and "sound R C w'" and "keeps R C {} (net s) w'"
  shows "advances R C s (s\<lparr>net := w'\<rparr>)"
  using assms by (auto simp: advances_def sys_inv_def not_lost_def keeps_def)

lemma advances_job:
  assumes "sys_inv R C s" and "sound R C w'" and "keeps R C J (net s) w'" and "J \<subseteq> F" and "finished s \<subseteq> F"
    and "set js \<subseteq> set (running s)"
  shows "advances R C s (s\<lparr>net := w', running := js, finished := F\<rparr>)"
  using assms by (auto simp: advances_def sys_inv_def not_lost_def keeps_def)

context task_queue
begin

lemma execute_end_sound:
  assumes "sound R C w" and "env_wf C env"
  shows "sound R C (snd (execute_end R C Q conv k wk env outc w))"
  by (rule sound_calm [OF assms(1) calm_execute(2)]) (use assms in \<open>simp add: execute_end_inv sound_def\<close>)

lemma execute_begin_sound:
  assumes "sound R C w"
  shows "sound R C (execute_begin R C Q wk env w)" and "keeps R C {} w (execute_begin R C Q wk env w)"
  by (rule sound_calm [OF assms calm_execute(1)], use assms in \<open>simp add: execute_begin_inv sound_def\<close>)
    (rule keeps_same; simp)

lemma execute_unknown_sound:
  assumes "sound R C w"
  shows "sound R C (snd (execute_unknown R C Q wk env w))"
  by (rule sound_calm [OF assms calm_execute(3)]) (use assms in \<open>simp add: execute_unknown_inv sound_def\<close>)

lemma LeaseAny_sound:
  assumes "sound R C w" and "LeaseAny R C ts wk w = (res, w')"
  shows "sound R C w'" and "keeps R C {} w w'"
proof -
  have inv: "queue_inv R C live (rds w)" using assms(1) by (simp add: sound_def)
  show "sound R C w'"
    using sound_calm [OF assms(1) calm_LeaseAny, of R C ts wk] LeaseAny_inv [OF inv, of ts wk] by (simp add: assms(2))
  show "keeps R C {} w w'" using keeps_LeaseAny [OF inv, of ts wk] by (simp add: assms(2))
qed

lemma heartbeat_tick_sound:
  assumes "sound R C w"
  shows "sound R C (heartbeat_tick R Q wk w)" and "keeps R C {} w (heartbeat_tick R Q wk w)"
proof -
  let ?w1 = "snd (Heartbeat R (WID wk) (HeartbeatTTL (wcfg wk)) w)"
  have eq: "heartbeat_tick R Q wk w = snd (TouchWorker Q (WID wk) ?w1)" by (simp add: heartbeat_tick_def Let_def)
  have r: "rds (snd (TouchWorker Q (WID wk) ?w1)) = rds ?w1" by (simp add: TouchWorker_def)
  have c: "calm w (heartbeat_tick R Q wk w)" unfolding eq by (rule calm_trans [OF calm_queue(7) calm_store(6)])
  show "sound R C (heartbeat_tick R Q wk w)"
    by (rule sound_calm [OF assms c]) (use assms in \<open>simp add: eq r Heartbeat_inv sound_def\<close>)
  let ?f = "\<lambda>r. ((), SET R (UnixMilli (clk w)) (HeartbeatKey (WID wk)) (show_int (UnixMilli (clk w))) (HeartbeatTTL (wcfg wk)) r)"
  have "rds ?w1 = rds w \<or> rds ?w1 = snd (?f (rds w))"
    using rcall_rds [of ?f w] by (simp add: Heartbeat_def Let_def)
  moreover obtain S where "view R (snd (?f (rds w))) = (view R (rds w))\<lparr>strs := S\<rparr>"
    using view_SET_strs [of "HeartbeatKey (WID wk)" "UnixMilli (clk w)" "show_int (UnixMilli (clk w))"
        "HeartbeatTTL (wcfg wk)" "rds w"] by fastforce
  ultimately have "zset (view R (rds ?w1)) = zset (view R (rds w)) \<and> hash (view R (rds ?w1)) = hash (view R (rds w)) \<and>
      rlist (view R (rds ?w1)) = rlist (view R (rds w))"
    by (elim disjE) simp_all
  then show "keeps R C {} w (heartbeat_tick R Q wk w)" unfolding eq by (intro keeps_same) (simp_all add: r)
qed

lemma sys_step_advances:
  assumes "sys_step R C Q s s'" and "sys_inv R C s"
  shows "advances R C s s'"
  using assms
proof (induction rule: sys_step.induct)
  case (create body s u)
  with createTask_sound [of "net s" body Q u] show ?case by (intro advances_net) (auto simp: sys_inv_def)
next
  case (redrive s idp)
  with redriveDLQ_sound [of "net s" Q idp] show ?case by (intro advances_net) (auto simp: sys_inv_def)
next
  case (cancel s idp)
  have "rds (snd (cancelTask C Q idp (net s))) = rds (net s) \<and> calm (net s) (snd (cancelTask C Q idp (net s)))"
  proof (cases "UUID_Parse C idp")
    case (Some i)
    obtain res w1 where m: "MarkCanceled Q i (net s) = (res, w1)" by fastforce
    then have "snd (cancelTask C Q idp (net s)) = snd (MarkCanceled Q i (net s))"
      by (auto simp: cancelTask_def Some split: sum.splits)
    then show ?thesis by (simp add: calm_store)
  qed (simp add: cancelTask_def)
  with cancel show ?case by (intro advances_net) (auto simp: sys_inv_def intro: sound_rds keeps_rds)
next
  case (leased ts wk s env w')
  then have "sound R C (net s)" by (simp add: sys_inv_def)
  note L = LeaseAny_sound [OF this leased.hyps]
  have "env_wf C env" using LeaseAny_wf [OF leased.hyps] leased.prems by (auto simp: sys_inv_def sound_def)
  with L leased.prems show ?case by (auto simp: advances_def sys_inv_def not_lost_def keeps_def)
next
  case (not_leased ts wid s e w')
  then have "sound R C (net s)" by (simp add: sys_inv_def)
  from advances_net [OF not_leased.prems LeaseAny_sound [OF this not_leased.hyps]] show ?case .
next
  case (started wk env s)
  then show ?case using execute_begin_sound [of "net s"] by (intro advances_net) (auto simp: sys_inv_def)
next
  case (ended wk env s outc conv k)
  then have s: "sound R C (net s)" and wf: "env_wf C env" by (auto simp: sys_inv_def)
  have "keeps R C (case outc of Inr _ \<Rightarrow> {EnvID env} | Inl _ \<Rightarrow> {}) (net s)
      (snd (execute_end R C Q conv k wk env outc (net s)))"
    by (rule keeps_execute_end) (use s wf in \<open>simp_all add: sound_def\<close>)
  with execute_end_sound [OF s wf] show ?case
    by (intro advances_job [OF ended.prems]) (auto split: sum.splits dest: subsetD [OF set_remove1_subset])
next
  case (unknown wk env s)
  then have s: "sound R C (net s)" and wf: "env_wf C env" by (auto simp: sys_inv_def)
  have "keeps R C {} (net s) (snd (execute_unknown R C Q wk env (net s)))"
    by (rule keeps_execute_unknown) (use s wf in \<open>simp_all add: sound_def\<close>)
  from advances_job [OF unknown.prems execute_unknown_sound [OF s] this, of "finished s" "remove1 (wk, env) (running s)"]
  show ?case by (simp add: set_remove1_subset)
next
  case (crash s wid)
  then show ?case by (auto simp: advances_def sys_inv_def not_lost_def)
next
  case (beat s wk)
  then show ?case using heartbeat_tick_sound [of "net s"] by (intro advances_net) (auto simp: sys_inv_def)
next
  case (promote fuel s w')
  with promoteDelayed_sound [of "net s" fuel w'] show ?case by (intro advances_net) (auto simp: sys_inv_def)
next
  case (recover s)
  then show ?case using reclaimDead_sound [of "net s"] by (intro advances_net) (auto simp: sys_inv_def)
next
  case (pass d rf w' pf s)
  then have "sound R C w'" by (auto simp: sys_inv_def sound_def rok_def)
  moreover have "keeps R C {} (net s) w'" using pass.hyps(3) by (intro keeps_rds) simp
  ultimately show ?case by (rule advances_net [OF pass.prems])
qed

lemma sys_steps_advances:
  assumes "sys_steps R C Q s s'" and "sys_inv R C s"
  shows "advances R C s s'"
  using assms
proof (induction rule: sys_steps.induct)
  case (more s s1 s2)
  then show ?case using sys_step_advances [OF more.hyps(2)] by (auto simp: advances_def)
qed (simp add: advances_def)

end

end
