(* ===== verification/Drain.thy ===== *)
theory Drain
  imports Queue_Spec
begin

section \<open>Draining a queue\<close>

text \<open>
  Consecutive leases: they hand out the ready envelopes in the order of their urgency, so that every ready
  envelope gets its turn.
\<close>

subsection \<open>Urgency\<close>

text \<open>The class of an envelope, its clamped priority, before the time at which it was enqueued.\<close>

datatype urgency = Urgency (urgency_class: int) (urgency_stamp: int)

definition urgency :: "envelope \<Rightarrow> urgency" where
  "urgency e = Urgency (clamp_priority (EnvPriority e)) (EnqueuedAt e)"

instantiation urgency :: linorder
begin

definition less_eq_urgency :: "urgency \<Rightarrow> urgency \<Rightarrow> bool" where
  "a \<le> b \<longleftrightarrow> urgency_class a < urgency_class b \<or>
     urgency_class a = urgency_class b \<and> urgency_stamp a \<le> urgency_stamp b"

definition less_urgency :: "urgency \<Rightarrow> urgency \<Rightarrow> bool" where
  "a < b \<longleftrightarrow> a \<le> b \<and> \<not> b \<le> (a :: urgency)"

instance
  by standard (auto simp: less_eq_urgency_def less_urgency_def urgency.expand)

end

text \<open>Until the year 2286 the score of the sorted set is a faithful image of the urgency.\<close>

definition in_range :: "envelope \<Rightarrow> bool" where
  "in_range e \<longleftrightarrow> 0 \<le> EnqueuedAt e \<and> EnqueuedAt e < 10 ^ 13"

lemma score_urgency:
  assumes "in_range a" and "in_range b"
  shows "priorityScore (EnvPriority a) (EnqueuedAt a) \<le> priorityScore (EnvPriority b) (EnqueuedAt b) \<longleftrightarrow>
    urgency a \<le> urgency b"
  using assms score_lex [of "EnqueuedAt a" "EnqueuedAt b" "EnvPriority a" "EnvPriority b"]
  by (simp add: in_range_def urgency_def less_eq_urgency_def)

subsection \<open>Consecutive leases\<close>

fun lease_times ::
  "'r redis \<Rightarrow> codec \<Rightarrow> string \<Rightarrow> string \<Rightarrow> nat \<Rightarrow> 'r world \<Rightarrow> envelope list \<times> 'r world" where
  "lease_times R C t wk 0 w = ([], w)"
| "lease_times R C t wk (Suc n) w =
     (case Lease R C t wk w of
        (Inl _, w1) \<Rightarrow> ([], w1)
      | (Inr e, w1) \<Rightarrow> (case lease_times R C t wk n w1 of (es, w2) \<Rightarrow> (e # es, w2)))"

text \<open>
  What \<open>n\<close> consecutive leases do; the members \<open>ms\<close> they take are the most urgent ones when all times of
  the queue are in range.
\<close>

definition stamped :: "'r redis \<Rightarrow> codec \<Rightarrow> string \<Rightarrow> 'r world \<Rightarrow> bool" where
  "stamped R C t w \<longleftrightarrow> (\<forall>m e. m \<in> dom (ready R w t) \<and> unmarshal C m = Some e \<longrightarrow> in_range e)"

definition drained :: "'r redis \<Rightarrow> codec \<Rightarrow> string \<Rightarrow> string \<Rightarrow> nat \<Rightarrow> 'r world \<Rightarrow> bool" where
  "drained R C t wk n w \<longleftrightarrow>
     (\<exists>ms es w'. lease_times R C t wk n w = (es, w') \<and> distinct ms \<and> set ms \<subseteq> dom (ready R w t) \<and>
        map (unmarshal C) ms = map Some es \<and> length es = min n (card (dom (ready R w t))) \<and>
        ready R w' t = ready R w t |` (- set ms) \<and>
        (\<forall>e\<in>set es. inflight R w' wk (UUID_String C (EnvID e)) \<noteq> None) \<and>
        (stamped R C t w \<longrightarrow> sorted (map urgency es) \<and>
          (\<forall>e\<in>set es. \<forall>m' e'. m' \<in> dom (ready R w t) - set ms \<and> unmarshal C m' = Some e' \<longrightarrow>
             urgency e \<le> urgency e')))"

context task_queue
begin

lemma lease_times_keeps_lease:
  assumes "rok w" and "queue_inv R C P (rds w)" and "inflight R w wk f \<noteq> None"
  shows "inflight R (snd (lease_times R C t wk n w)) wk f \<noteq> None"
  using assms
proof (induction n arbitrary: w)
  case (Suc n)
  obtain res w1 where l: "Lease R C t wk w = (res, w1)" by fastforce
  have inv: "rok w1" "queue_inv R C P (rds w1)"
    using Lease_inv [OF Suc.prems(2), of t wk] queue_rok(3) [OF Suc.prems(1), of R C t wk] by (simp_all add: l)
  have "inflight R w1 wk f \<noteq> None"
  proof (cases "ready R w t = Map.empty")
    case True
    from Lease_empty(2) [OF Suc.prems(1) this, of wk] Suc.prems(3) show ?thesis by (simp add: l)
  next
    case False
    from Lease_pops [OF Suc.prems(1,2) this, of wk] Suc.prems(3) show ?thesis by (auto simp: l)
  qed
  with Suc.IH [OF inv] show ?case by (auto simp: l split: sum.splits prod.splits)
qed simp

lemma lease_times_drains:
  assumes "rok w" and "queue_inv R C P (rds w)"
  shows "drained R C t wk n w"
  using assms
proof (induction n arbitrary: w)
  case 0
  show ?case unfolding drained_def by (intro exI [of _ "[]"] exI [of _ w]) (simp add: restrict_map_def)
next
  case (Suc n)
  show ?case
  proof (cases "ready R w t = Map.empty")
    case True
    obtain w1 where l: "Lease R C t wk w = (Inl ErrEmpty, w1)" "view R (rds w1) = view R (rds w)"
      using Lease_empty [OF Suc.prems(1) True, of wk] by (cases "Lease R C t wk w") simp
    show ?thesis unfolding drained_def by (intro exI [of _ "[]"] exI [of _ w1]) (simp add: l True)
  next
    case False
    let ?r = "ready R w t"
    from Lease_pops [OF Suc.prems(1,2) False, of wk] obtain m s e w1
      where m: "?r m = Some s" "written C m e" "s = priorityScore (EnvPriority e) (EnqueuedAt e)"
        and least: "\<forall>m' s'. ?r m' = Some s' \<longrightarrow> (s, m) \<le> (s', m')"
        and l: "Lease R C t wk w = (Inr e, w1)"
        and v: "ready R w1 t = ?r(m := None)" "inflight R w1 wk (UUID_String C (EnvID e)) = Some m"
      by (cases "Lease R C t wk w") (auto split: if_splits)
    have um: "unmarshal C m = Some e" using writtenD(1) [OF m(2)] .
    have inv: "rok w1" "queue_inv R C P (rds w1)"
      using Lease_inv [OF Suc.prems(2), of t wk] queue_rok(3) [OF Suc.prems(1), of R C t wk] by (simp_all add: l)
    have least_u: "urgency e \<le> urgency e'" if "?r m' = Some s'" "unmarshal C m' = Some e'" "stamped R C t w" for m' s' e'
    proof -
      have "s \<le> s'" using least that(1) by fastforce
      moreover have "s' = priorityScore (EnvPriority e') (EnqueuedAt e')"
        using ready_decodes [OF Suc.prems(2) that(1)] that(2) by (auto dest: writtenD(1))
      moreover have "in_range e" "in_range e'" using that m(1) um unfolding stamped_def by blast+
      ultimately show ?thesis using score_urgency m(3) by blast
    qed
    have st: "stamped R C t w1" if "stamped R C t w"
      using that by (auto simp: stamped_def v(1))
    from Suc.IH [OF inv] obtain ms es w' where r: "lease_times R C t wk n w1 = (es, w')" "distinct ms" "set ms \<subseteq> dom ?r - {m}"
      "map (unmarshal C) ms = map Some es" "length es = min n (card (dom ?r - {m}))"
      "ready R w' t = ?r(m := None) |` (- set ms)"
      "\<forall>e\<in>set es. inflight R w' wk (UUID_String C (EnvID e)) \<noteq> None"
      "stamped R C t w1 \<Longrightarrow> sorted (map urgency es)"
      "stamped R C t w1 \<Longrightarrow> \<forall>e\<in>set es. \<forall>m' e'. m' \<in> dom ?r - {m} - set ms \<and> unmarshal C m' = Some e' \<longrightarrow> urgency e \<le> urgency e'"
      unfolding drained_def v(1) by auto
    have es: "\<exists>m'\<in>set ms. unmarshal C m' = Some e'" if "e' \<in> set es" for e'
    proof -
      have "Some e' \<in> set (map (unmarshal C) ms)" using that by (simp add: r(4))
      then show ?thesis by auto
    qed
    have first: "urgency e \<le> urgency e'" if e': "e' \<in> set es" "stamped R C t w" for e'
    proof -
      obtain m' where "m' \<in> set ms" "unmarshal C m' = Some e'" using es [OF e'(1)] by blast
      with r(3) least_u e'(2) show ?thesis by blast
    qed
    have "inflight R w' wk (UUID_String C (EnvID e)) \<noteq> None"
      using lease_times_keeps_lease [OF inv, of wk "UUID_String C (EnvID e)" t n] v(2) r(1) by simp
    moreover have "card (dom ?r) = Suc (card (dom ?r - {m}))"
      using finite_zset m(1) by (intro card.remove) auto
    ultimately show ?thesis
      unfolding drained_def
      by (intro exI [of _ "m # ms"] exI [of _ "e # es"] exI [of _ w'])
        (use r l m(1) um first least_u st in \<open>auto simp: restrict_map_def fun_eq_iff\<close>)
  qed
qed

end

subsection \<open>Properties\<close>


text \<open>Two e-mails: the urgent one, enqueued last, goes first.\<close>

definition urgent_env :: envelope where
  "urgent_env = email_env\<lparr>EnvID := 8, EnvPriority := 1\<rparr>"

definition two_queued :: "ref_redis world" where
  "two_queued = snd (Enqueue ref_redis json_std urgent_env queued_world)"

lemma two_queued_ready:
  obtains m m' where "written json_std m email_env" and "written json_std m' urgent_env"
    and "dom (ready ref_redis two_queued ''email'') = {m, m'}" and "m \<noteq> m'"
proof (rule queued_ready)
  fix m
  assume m: "written json_std m email_env"
    and r: "ready ref_redis queued_world ''email'' = [m \<mapsto> priorityScore 5 1700000000000]"
  have "env_wf json_std urgent_env" by code_simp
  with task_queue.axioms(2) [OF std_queue] obtain m' where m': "marshal json_std urgent_env = Some m'"
    "written json_std m' (compacted json_std urgent_env)" by (rule envelope_codec.marshal_wf)
  have c: "compacted json_std urgent_env = urgent_env" by code_simp
  have e: "EnqueuedAt urgent_env = 1700000000000" "EnvType urgent_env = ''email''"
    by (simp_all add: urgent_env_def email_env_def)
  have differ: "email_env \<noteq> urgent_env" by (simp add: urgent_env_def email_env_def)
  from e task_queue.Enqueue_view(2) [OF std_queue queued_facts(1), of urgent_env m'] m'(1) r
  have d: "dom (ready ref_redis two_queued ''email'') = {m, m'}" by (auto simp: two_queued_def)
  have "m \<noteq> m'" using std_written(1) [OF m] std_written(1) [OF m'(2)] differ by (auto simp: c)
  with m m'(2) d that show ?thesis by (simp add: c)
qed

lemma two_queued_facts:
  "rok two_queued" "queue_inv ref_redis json_std (\<lambda>_. True) (rds two_queued)"
proof -
  show "rok two_queued" by (simp add: two_queued_def queued_facts)
  have P: "task_cond (\<lambda>_. True)" by (simp add: task_cond_def)
  have "env_wf json_std urgent_env" by code_simp
  moreover have "clk queued_world = 1700000000000000000" 
    by (simp add: queued_world_def Enqueue_def rcall_def fresh_world_def Let_def split: option.split)
  ultimately show "queue_inv ref_redis json_std (\<lambda>_. True) (rds two_queued)"
    unfolding two_queued_def
    by (intro task_queue.Enqueue_inv [OF std_queue queued_inv [OF P]]) (simp_all add: P UnixMilli_def int64_range_def)
qed


end
