(* ===== verification/Failures.thy ===== *)
theory Failures
  imports System Drain
begin

section \<open>Recovery and its limits\<close>

text \<open>
  The coordinator brings back what a crashed worker held, and the next leases of its type hand it out again.
  The windows in which a task can be lost all the same are those that the step relation of \<open>System\<close> excludes:
  between the removal of an envelope and its return, and between the two calls of \<open>ReclaimInflight\<close>.
\<close>

subsection \<open>A crashed worker's task is leased again\<close>


lemma crashed_inflight:
  obtains f v where "inflight ref_redis crashed_world ''w1'' f = Some v" and "unmarshal json_std v = Some email_env"
proof -
  from task_queue.axioms(2) [OF std_queue] email_wf obtain m where m: "marshal json_std email_env = Some m"
    "written json_std m (compacted json_std email_env)" by (rule envelope_codec.marshal_wf)
  have e: "EnqueuedAt email_env \<noteq> 0" "EnvType email_env = ''email''" by (simp_all add: email_env_def)
  have "ready ref_redis fresh_world (EnvType email_env) = Map.empty"
    by (simp add: fresh_facts ref_redis_def ref_empty_def at_key_def)
  moreover have "queue_inv ref_redis json_std (\<lambda>_. True) (rds fresh_world)" by (simp add: fresh_facts queue_inv_empty)
  ultimately have "inflight ref_redis (snd (Lease ref_redis json_std ''email'' ''w1'' queued_world)) ''w1''
      (UUID_String json_std (EnvID email_env)) = Some m"
    using enqueue_lease_ack_parts(3) [OF std_queue fresh_facts(1), of email_env "''w1''"] e email_wf m(1)
    by (simp add: queued_world_def)
  moreover have "unmarshal json_std m = Some email_env" using std_written(1) [OF m(2)] by (simp add: email_compact)
  ultimately show ?thesis by (intro that) (simp_all add: crashed_world_def)
qed


subsection \<open>The window between removing an envelope and storing it again\<close>

text \<open>The id occurs in Redis in the in-flight hash of \<open>wid\<close> at most.\<close>

definition only_held_by :: "'r redis \<Rightarrow> codec \<Rightarrow> 'r world \<Rightarrow> string \<Rightarrow> uuid \<Rightarrow> bool" where
  "only_held_by R C w wid i \<longleftrightarrow> \<not> queued_at R C w i \<and> \<not> buried_at R C w i \<and>
     (\<forall>wk f v e. inflight R w wk f = Some v \<and> unmarshal C v = Some e \<and> EnvID e = i \<longrightarrow> wk = wid)"

context task_queue
begin

lemma not_accounted:
  assumes "only_held_by R C w wid i" and "zset (view R (rds w')) = zset (view R (rds w))"
    and "rlist (view R (rds w')) = rlist (view R (rds w))"
    and "\<And>wk. wk \<noteq> wid \<Longrightarrow> inflight R w' wk = inflight R w wk"
    and "\<And>f v e. inflight R w' wid f = Some v \<Longrightarrow> unmarshal C v = Some e \<Longrightarrow> EnvID e \<noteq> i"
  shows "\<not> accounted R C w' i"
proof -
  have "queued_at R C w' i = queued_at R C w i" "buried_at R C w' i = buried_at R C w i"
    by (simp_all add: queued_at_def buried_at_def assms(2,3))
  moreover have "\<not> held_at R C w' i"
  proof
    assume "held_at R C w' i"
    then obtain wk f v e where h: "inflight R w' wk f = Some v" "unmarshal C v = Some e" "EnvID e = i"
      unfolding held_at_def by blast
    with assms(5) have "wk \<noteq> wid" by blast
    with h assms(1,4) show False unfolding only_held_by_def by metis
  qed
  ultimately show ?thesis using assms(1) by (simp add: accounted_def only_held_by_def)
qed

lemma rcall_lost: "rnet w = ft # fs \<Longrightarrow> outcome ft = LostRequest x \<Longrightarrow> rds (snd (rcall f w)) = rds w"
  by (simp add: rcall_def Let_def)

lemma rcall_next:
  "rnet w = ft # fs \<Longrightarrow> outcome ft = Delivered \<Longrightarrow> rds (snd (rcall f w)) = snd (f (rds w)) \<and> rnet (snd (rcall f w)) = fs"
  by (simp add: rcall_def Let_def)

lemma store_after_lost:
  assumes "rnet w = ft # fs" and "outcome ft = LostRequest x"
  shows "rds (snd (EnqueueDelayed R C env due w)) = rds w" and "rds (snd (DeadLetter R C env reason w)) = rds w"
    and "rds (snd (Enqueue R C env w)) = rds w"
  by (simp_all add: EnqueueDelayed_def DeadLetter_def Enqueue_def Let_def rcall_lost [OF assms] split: option.split)

lemma execute_end_lost_view:
  assumes "rnet w = f1 # f2 # fs" and "outcome f1 = Delivered" and "outcome f2 = LostRequest x"
  shows "let v' = view R (rds (snd (execute_end R C Q conv k wk env (Inl err) w))) in
    zset v' = zset (view R (rds w)) \<and> rlist v' = rlist (view R (rds w)) \<and>
    hash v' = (hash (view R (rds w)))(InflightKey (WID wk) := (inflight R w (WID wk))(UUID_String C (EnvID env) := None))"
proof -
  let ?w1 = "snd (Nack R C (WID wk) (EnvID env) w)"
  have n: "rds ?w1 = HDEL R (InflightKey (WID wk)) (UUID_String C (EnvID env)) (rds w)" "rnet ?w1 = f2 # fs"
    by (simp_all add: Nack_def rcall_next [OF assms(1,2)])
  note lost = store_after_lost [OF n(2) assms(3)]
  show ?thesis by (simp add: execute_end_def Let_def lost n(1))
qed

lemma execute_end_loses:
  assumes "queue_inv R C P (rds w)" and "rnet w = f1 # f2 # fs" and "outcome f1 = Delivered" and "outcome f2 = LostRequest x"
    and "only_held_by R C w (WID wk) (EnvID env)"
  shows "\<not> accounted R C (snd (execute_end R C Q conv k wk env (Inl err) w)) (EnvID env)"
proof (rule not_accounted [OF assms(5)])
  note v = execute_end_lost_view [OF assms(2-4), of Q conv k wk env err, unfolded Let_def]
  let ?w' = "snd (execute_end R C Q conv k wk env (Inl err) w)"
  show "zset (view R (rds ?w')) = zset (view R (rds w))" "rlist (view R (rds ?w')) = rlist (view R (rds w))"
    "\<And>wid. wid \<noteq> WID wk \<Longrightarrow> inflight R ?w' wid = inflight R w wid"
    using v by simp_all
  fix f y e
  assume y: "inflight R ?w' (WID wk) f = Some y" "unmarshal C y = Some e"
  then have f: "f \<noteq> UUID_String C (EnvID env)" "inflight R w (WID wk) f = Some y"
    using v by (auto split: if_splits)
  from inflight_decodes [OF assms(1) f(2)] y(2) f(1) show "EnvID e \<noteq> EnvID env" by (auto dest: writtenD(1))
qed

end

text \<open>
  The window of a sweep: an envelope with attempts left that a sweep has taken from the hash stays lost when the
  call that would enqueue it again does not arrive.
\<close>

lemma reclaim_env_loses:
  assumes "rnet w = ft # fs" and "outcome ft = LostRequest x" and "add64 (EnvAttempts env) 1 < EnvMaxAttempts env"
  shows "accounted R C (reclaim_env R C Q wid env w) i = accounted R C w i"
proof -
  let ?env = "env\<lparr>EnvAttempts := add64 (EnvAttempts env) 1\<rparr>"
  have "\<exists>e. fst (Enqueue R C ?env w) = Inl e"
    by (simp add: Enqueue_def Let_def rcall_def assms(1,2) split: option.split)
  moreover have "rds (snd (Enqueue R C ?env w)) = rds w" 
    by (simp add: Enqueue_def Let_def rcall_def assms(1,2) split: option.split)
  ultimately obtain e w1 where q: "Enqueue R C ?env w = (Inl e, w1)" "rds w1 = rds w"
    by (cases "Enqueue R C ?env w") auto
  then have "reclaim_env R C Q wid env w = w1" using assms(3) by (simp add: reclaim_env_def Let_def)
  then show ?thesis by (simp add: accounted_def queued_at_def held_at_def buried_at_def q(2))
qed

lemma execute_end_retrying:
  assumes "pok w" and "text_in Q err" and "add64 (EnvAttempts env) 1 < EnvMaxAttempts env"
    and "r \<in> set (tasks (db (snd (execute_end R C Q conv k wk env (Inl err) w))))" and "ID r = EnvID env"
  shows "Status r = StatusRetrying"
proof -
  let ?env = "env\<lparr>EnvAttempts := add64 (EnvAttempts env) 1\<rparr>"
  let ?w1 = "snd (Nack R C (WID wk) (EnvID env) w)"
  let ?due = "clk ?w1 + BackoffDelay conv k (EnvAttempts ?env) (RetryBaseDelay (wcfg wk)) (RetryMaxDelay (wcfg wk))"
  let ?w2 = "snd (EnqueueDelayed R C ?env ?due ?w1)"
  have "db (snd (execute_end R C Q conv k wk env (Inl err) w)) = db (snd (MarkRetry Q (EnvID env) ?due err ?w2))"
    using assms(3) by (simp add: execute_end_def Let_def)
  moreover have "pok ?w2" using assms(1) by simp
  ultimately show ?thesis
    using MarkRetry_tasks [OF _ assms(2), of ?w2 "EnvID env" ?due] assms(4,5) by (auto split: if_splits)
qed

text \<open>The worker of the concrete world holds its task, and nobody else does.\<close>

lemma crashed_view:
  obtains m and e :: envelope where "ready ref_redis queued_world ''email'' = [m \<mapsto> priorityScore 5 1700000000000]"
    and "view ref_redis (rds crashed_world) = (view ref_redis (rds queued_world))\<lparr>
          zset := (zset (view ref_redis (rds queued_world)))(QueueKey ''email'' := Map.empty),
          hash := (hash (view ref_redis (rds queued_world)))(InflightKey ''w1'' :=
            (inflight ref_redis queued_world ''w1'')(UUID_String json_std (EnvID e) \<mapsto> m))\<rparr>"
proof (rule queued_ready)
  fix m0
  assume r: "ready ref_redis queued_world ''email'' = [m0 \<mapsto> priorityScore 5 1700000000000]"
  have q: "queue_inv ref_redis json_std (\<lambda>_. True) (rds queued_world)" by (rule queued_inv) (simp_all add: task_cond_def)
  from task_queue.Lease_pops [OF std_queue queued_facts(1) q queued_nonempty, of "''w1''"] 
  show ?thesis
  proof (elim exE conjE)
    fix m s and e :: envelope
    assume m: "ready ref_redis queued_world ''email'' m = Some s"
      and v: "view ref_redis (rds (snd (Lease ref_redis json_std ''email'' ''w1'' queued_world))) =
       view ref_redis (rds queued_world)\<lparr>zset := (zset (view ref_redis (rds queued_world)))(QueueKey ''email'' :=
         (ready ref_redis queued_world ''email'')(m := None)), hash := (hash (view ref_redis (rds queued_world)))
         (InflightKey ''w1'' := (inflight ref_redis queued_world ''w1'')(UUID_String json_std (EnvID e) \<mapsto> m))\<rparr>"
    from m r have "m = m0" by (simp split: if_splits)
    with r v that [of m e] show ?thesis by (simp add: crashed_world_def)
  qed
qed

lemma crashed_only_held: "only_held_by ref_redis json_std crashed_world ''w1'' 7"
proof (rule crashed_view)
  fix m and e :: envelope
  assume r: "ready ref_redis queued_world ''email'' = [m \<mapsto> priorityScore 5 1700000000000]"
    and v: "view ref_redis (rds crashed_world) = (view ref_redis (rds queued_world))\<lparr>
          zset := (zset (view ref_redis (rds queued_world)))(QueueKey ''email'' := Map.empty),
          hash := (hash (view ref_redis (rds queued_world)))(InflightKey ''w1'' :=
            (inflight ref_redis queued_world ''w1'')(UUID_String json_std (EnvID e) \<mapsto> m))\<rparr>"
  obtain m0 where q: "view ref_redis (rds queued_world) = (view ref_redis ref_empty)\<lparr>zset := (\<lambda>_. Map.empty)
      (QueueKey ''email'' := [m0 \<mapsto> priorityScore 5 1700000000000])\<rparr>" by (rule queued_view)
  have e: "hash (view ref_redis ref_empty) k = Map.empty" "rlist (view ref_redis ref_empty) k = []" for k
    by (simp_all add: ref_redis_def ref_empty_def at_key_def)
  have "zset (view ref_redis (rds crashed_world)) = (\<lambda>_. Map.empty)" by (simp add: v q fun_eq_iff)
  moreover have "inflight ref_redis crashed_world wk = Map.empty" if "wk \<noteq> ''w1''" for wk
    using that by (simp add: v q e)
  moreover have "rlist (view ref_redis (rds crashed_world)) k = []" for k by (simp add: v q e)
  ultimately show ?thesis
    by (auto simp: only_held_by_def queued_at_def buried_at_def) fastforce
qed

text \<open>
  C37. The window of a failed attempt: when the worker's removal of the envelope reached Redis and the next
  call, which would put it into the delayed set or the dead-letter list, does not, the task is
  nowhere in Redis any more. When attempts were left and PostgreSQL works, its row says
  \<open>retrying\<close>, although nothing will ever retry it.
\<close>

theorem retry_window_loses:
  assumes "task_queue R C" and "queue_inv R C P (rds w)"
    and "rnet w = f1 # f2 # fs" and "outcome f1 = Delivered" and "outcome f2 = LostRequest x"
    and "only_held_by R C w (WID wk) (EnvID env)"
  shows "let w' = snd (execute_end R C Q conv k wk env (Inl err) w) in
    \<not> accounted R C w' (EnvID env) \<and>
    (pok w \<and> text_in Q err \<and> add64 (EnvAttempts env) 1 < EnvMaxAttempts env \<longrightarrow>
      (\<forall>r\<in>set (tasks (db w')). ID r = EnvID env \<longrightarrow> Status r = StatusRetrying))"
  using task_queue.execute_end_loses [OF assms] execute_end_retrying unfolding Let_def by blast

definition w1_worker :: worker where
  "w1_worker = NewWorker (\<lambda>_. Some ''w1'') '''' ''h'' (Load (\<lambda>_. None)) NewRegistry"

lemma w1_worker_ids: "WID w1_worker = ''w1''" "EnvID email_env = 7"
  by (simp_all add: w1_worker_def NewWorker_def email_env_def)

theorem retry_window_loses_witness:
  "\<not> accounted ref_redis json_std (snd (execute_end ref_redis json_std std_pg (\<lambda>_. 0) 0 w1_worker email_env (Inl ''boom'')
     (crashed_world\<lparr>rnet := [\<lparr>latency = 0, outcome = Delivered\<rparr>, \<lparr>latency = 0, outcome = LostRequest ''reset''\<rparr>]\<rparr>))) 7"
proof -
  let ?w = "crashed_world\<lparr>rnet := [\<lparr>latency = 0, outcome = Delivered\<rparr>, \<lparr>latency = 0, outcome = LostRequest ''reset''\<rparr>]\<rparr>"
  have q: "queue_inv ref_redis json_std live (rds ?w)" by (simp add: crashed_facts)
  have h: "only_held_by ref_redis json_std ?w (WID w1_worker) (EnvID email_env)"
    using crashed_only_held by (simp add: only_held_by_def queued_at_def buried_at_def w1_worker_ids)
  from retry_window_loses [OF std_queue q _ _ _ h] show ?thesis by (simp add: Let_def w1_worker_ids)
qed

end
