(* ===== verification/Race.thy ===== *)
theory Race
  imports Failures
begin

section \<open>The race of a reclaim\<close>

text \<open>
  \<open>ReclaimInflight\<close> reads the hash and deletes it in two round trips; \<open>reclaim_clear\<close> is what it
  does after the first.
\<close>

definition reclaim_clear ::
  "'r redis \<Rightarrow> codec \<Rightarrow> string \<Rightarrow> (string \<times> string) list \<Rightarrow> 'r world \<Rightarrow> (err + envelope list) \<times> 'r world" where
  "reclaim_clear R C worker all w1 =
     (let envs = List.map_filter (\<lambda>(f, v). unmarshal C v) all;
          w2 = (if all \<noteq> [] then snd (rcall (\<lambda>r. ((), DEL R (InflightKey worker) r)) w1) else w1)
      in (Inr envs, w2))"

lemma ReclaimInflight_calls:
  "ReclaimInflight R C worker w =
     (case rcall (\<lambda>r. (HGETALL R (InflightKey worker) r, r)) w of
        (Inl e, w1) \<Rightarrow> (Inl e, w1)
      | (Inr all, w1) \<Rightarrow> reclaim_clear R C worker all w1)"
  by (simp only: ReclaimInflight_def reclaim_clear_def Let_def)

text \<open>
  C38. The race of a reclaim: when a worker whose heartbeat had expired, but which is still running, leases an
  envelope after \<open>ReclaimInflight\<close> has read its non-empty hash and before it deletes it, the reclaim
  does not return that envelope and deletes it, so the task is nowhere in Redis while the worker runs it:
  should the worker crash now, nothing is left to recover.
\<close>

theorem reclaim_race_loses:
  assumes "task_queue R C" and "queue_inv R C P (rds w)"
    and "rcall (\<lambda>r. (HGETALL R (InflightKey wid) r, r)) w = (Inr all, w1)" and "all \<noteq> []"
    and "LeaseAny R C ts wid w1 = (Inr env, w2)" and "rok w2"
    and "\<forall>f v e. inflight R w wid f = Some v \<and> unmarshal C v = Some e \<longrightarrow> EnvID e \<noteq> EnvID env"
    and "only_held_by R C w2 wid (EnvID env)"
  shows "let (res, w3) = reclaim_clear R C wid all w2 in
    (\<exists>envs. res = Inr envs \<and> EnvID env \<notin> EnvID ` set envs) \<and> \<not> accounted R C w3 (EnvID env)"
proof -
  let ?w3 = "snd (rcall (\<lambda>r. ((), DEL R (InflightKey wid) r)) w2)"
  let ?envs = "List.map_filter (\<lambda>(f, v). unmarshal C v) all"
  have all: "all = HGETALL R (InflightKey wid) (rds w)" using rcall_readInr [OF assms(3)] by simp
  have h: "distinct (map fst all)" "map_of all = inflight R w wid"
    using redis_server.HGETALL_map [OF task_queue.axioms(1) [OF assms(1)], of "InflightKey wid" "rds w"]
    by (simp_all add: all)
  have "EnvID e \<noteq> EnvID env" if "e \<in> set ?envs" for e
  proof -
    from that obtain f v where "(f, v) \<in> set all" "unmarshal C v = Some e" by (auto simp: set_map_filter)
    with h assms(7) show ?thesis by (metis map_of_is_SomeI)
  qed
  then have "EnvID env \<notin> EnvID ` set ?envs" by (metis imageE)
  moreover have "\<not> accounted R C ?w3 (EnvID env)"
    by (rule task_queue.not_accounted [OF assms(1,8)])
      (use assms(6) task_queue.axioms(1) [OF assms(1)] in \<open>simp_all add: redis_server.view_DEL\<close>)
  ultimately show ?thesis using assms(4) by (auto simp: reclaim_clear_def Let_def)
qed

text \<open>The worker holds one task and leases the other, more urgent one, in the middle of a reclaim.\<close>

definition race_world :: "ref_redis world" where
  "race_world = snd (Enqueue ref_redis json_std urgent_env crashed_world)"

lemma urgent_marshal:
  obtains m where "marshal json_std urgent_env = Some m" and "written json_std m urgent_env"
proof -
  have "env_wf json_std urgent_env" by code_simp
  with task_queue.axioms(2) [OF std_queue] obtain m where "marshal json_std urgent_env = Some m"
    "written json_std m (compacted json_std urgent_env)" by (rule envelope_codec.marshal_wf)
  moreover have "compacted json_std urgent_env = urgent_env" by code_simp
  ultimately show ?thesis using that by simp
qed

lemma empty_view:
  "hash (view ref_redis ref_empty) = (\<lambda>_. Map.empty)" "zset (view ref_redis ref_empty) = (\<lambda>_. Map.empty)"
  "rlist (view ref_redis ref_empty) = (\<lambda>_. [])"
  by (simp_all add: ref_redis_def ref_empty_def at_key_def fun_eq_iff)

lemma race_start:
  obtains m m' s and e :: envelope
  where "unmarshal json_std m = Some email_env" and "written json_std m' urgent_env"
    and "view ref_redis (rds race_world) = (view ref_redis ref_empty)\<lparr>
      hash := (\<lambda>_. Map.empty)(InflightKey ''w1'' := [UUID_String json_std (EnvID e) \<mapsto> m]),
      zset := (\<lambda>_. Map.empty)(QueueKey ''email'' := [m' \<mapsto> s])\<rparr>"
proof (rule crashed_view)
  fix m and e :: envelope
  assume r: "ready ref_redis queued_world ''email'' = [m \<mapsto> priorityScore 5 1700000000000]"
    and v: "view ref_redis (rds crashed_world) = (view ref_redis (rds queued_world))\<lparr>
          zset := (zset (view ref_redis (rds queued_world)))(QueueKey ''email'' := Map.empty),
          hash := (hash (view ref_redis (rds queued_world)))(InflightKey ''w1'' :=
            (inflight ref_redis queued_world ''w1'')(UUID_String json_std (EnvID e) \<mapsto> m))\<rparr>"
  obtain m0 where q: "view ref_redis (rds queued_world) = (view ref_redis ref_empty)\<lparr>zset := (\<lambda>_. Map.empty)
      (QueueKey ''email'' := [m0 \<mapsto> priorityScore 5 1700000000000])\<rparr>" by (rule queued_view)
  note emp = empty_view
  have c: "view ref_redis (rds crashed_world) = (view ref_redis ref_empty)\<lparr>hash := (\<lambda>_. Map.empty)
      (InflightKey ''w1'' := [UUID_String json_std (EnvID e) \<mapsto> m])\<rparr>"
    by (rule keyspace.equality) (simp_all add: v q emp fun_eq_iff)
  obtain m' where m': "marshal json_std urgent_env = Some m'" "written json_std m' urgent_env" by (rule urgent_marshal)
  have u: "EnqueuedAt urgent_env = 1700000000000" "EnvType urgent_env = ''email''"
    by (simp_all add: urgent_env_def email_env_def)
  from u m'(1) task_queue.Enqueue_view(2) [OF std_queue crashed_facts(1), of urgent_env m']
  obtain s where w: "view ref_redis (rds race_world) = (view ref_redis (rds crashed_world))\<lparr>zset := (\<lambda>_. Map.empty)
      (QueueKey ''email'' := [m' \<mapsto> s])\<rparr>"
    by (simp add: race_world_def c emp)
  have "unmarshal json_std m = Some email_env" by (rule std_written(1) [OF queued_members]) (simp add: r)
  from that [OF this m'(2), where e = e and s = s] w show ?thesis by (simp add: c)
qed

lemma race_facts: "rok race_world" "queue_inv ref_redis json_std live (rds race_world)"
proof -
  show "rok race_world" by (simp add: race_world_def crashed_facts)
  have "env_wf json_std urgent_env" by code_simp
  then show "queue_inv ref_redis json_std live (rds race_world)"
    unfolding race_world_def
    by (intro task_queue.Enqueue_inv [OF std_queue crashed_facts(2) live_cond])
      (simp_all add: crashed_facts live_def urgent_env_def email_env_def UnixMilli_def int64_range_def)
qed

lemma race_views:
  obtains m m' s and e :: envelope and w2
  where "unmarshal json_std m = Some email_env"
    and "hash (view ref_redis (rds race_world)) = (\<lambda>_. Map.empty)(InflightKey ''w1'' := [UUID_String json_std (EnvID e) \<mapsto> m])"
    and "Lease ref_redis json_std ''email'' ''w1'' race_world = (Inr urgent_env, w2)" and "rok w2"
    and "view ref_redis (rds w2) = (view ref_redis ref_empty)\<lparr>
      hash := (hash (view ref_redis (rds race_world)))(InflightKey ''w1'' :=
        (inflight ref_redis race_world ''w1'')(UUID_String json_std (EnvID urgent_env) \<mapsto> m'))\<rparr>"
proof (rule race_start)
  fix m m' s and e :: envelope
  assume m: "unmarshal json_std m = Some email_env" "written json_std m' urgent_env"
    and w: "view ref_redis (rds race_world) = (view ref_redis ref_empty)\<lparr>
      hash := (\<lambda>_. Map.empty)(InflightKey ''w1'' := [UUID_String json_std (EnvID e) \<mapsto> m]),
      zset := (\<lambda>_. Map.empty)(QueueKey ''email'' := [m' \<mapsto> s])\<rparr>"
  have rw: "ready ref_redis race_world ''email'' = [m' \<mapsto> s]" by (simp add: w)
  have ne: "ready ref_redis race_world ''email'' \<noteq> Map.empty" by (simp add: rw)
  from task_queue.Lease_pops [OF std_queue race_facts ne, of "''w1''"] show ?thesis
  proof (elim exE conjE)
    fix m1 s1 and e1 :: envelope
    assume m1: "ready ref_redis race_world ''email'' m1 = Some s1" "written json_std m1 e1"
      and l: "fst (Lease ref_redis json_std ''email'' ''w1'' race_world) = Inr e1"
      and v1: "view ref_redis (rds (snd (Lease ref_redis json_std ''email'' ''w1'' race_world))) =
       view ref_redis (rds race_world)\<lparr>zset := (zset (view ref_redis (rds race_world)))(QueueKey ''email'' :=
         (ready ref_redis race_world ''email'')(m1 := None)), hash := (hash (view ref_redis (rds race_world)))
         (InflightKey ''w1'' := (inflight ref_redis race_world ''w1'')(UUID_String json_std (EnvID e1) \<mapsto> m1))\<rparr>"
    have e1: "m1 = m'" "e1 = urgent_env" using m1 rw std_written(1) [OF m(2)] std_written(1) [OF m1(2)] by (auto split: if_splits)
    show ?thesis
    proof (rule that)
      show "unmarshal json_std m = Some email_env" by (rule m(1))
      show "hash (view ref_redis (rds race_world)) = (\<lambda>_. Map.empty)(InflightKey ''w1'' := [UUID_String json_std (EnvID e) \<mapsto> m])"
        by (simp add: w)
      show "Lease ref_redis json_std ''email'' ''w1'' race_world =
          (Inr urgent_env, snd (Lease ref_redis json_std ''email'' ''w1'' race_world))"
        using l e1 by (simp add: prod_eq_iff)
      show "rok (snd (Lease ref_redis json_std ''email'' ''w1'' race_world))" using race_facts(1) by simp
      show "view ref_redis (rds (snd (Lease ref_redis json_std ''email'' ''w1'' race_world))) = (view ref_redis ref_empty)\<lparr>
          hash := (hash (view ref_redis (rds race_world)))(InflightKey ''w1'' :=
            (inflight ref_redis race_world ''w1'')(UUID_String json_std (EnvID urgent_env) \<mapsto> m'))\<rparr>"
        by (rule keyspace.equality) (simp_all add: v1 e1 w empty_view fun_eq_iff)
    qed
  qed
qed

lemma rcall_quiet: "rnet w = [] \<Longrightarrow> rnet (snd (rcall f w)) = []"
  by (simp add: rcall_def Let_def)

lemma rcall_quiet_read: "rnet w = [] \<Longrightarrow> rcall (\<lambda>r. (g r, r)) w = (Inr (g (rds w)), w)"
  by (simp add: rcall_def Let_def)

lemma race_quiet: "rnet race_world = []"
proof -
  have e: "rnet w = [] \<Longrightarrow> rnet (snd (Enqueue R C env w)) = []" for R C env and w :: "'a world"
    by (simp add: Enqueue_def Let_def rcall_quiet split: option.split)
  show ?thesis
    by (simp add: race_world_def crashed_world_def queued_world_def Lease_snd rcall_quiet e fresh_world_def)
qed

theorem reclaim_race_loses_witness:
  "let all = HGETALL ref_redis (InflightKey ''w1'') (rds race_world);
       (res, w2) = LeaseAny ref_redis json_std [''email''] ''w1'' race_world
   in res = Inr urgent_env \<and> \<not> accounted ref_redis json_std (snd (reclaim_clear ref_redis json_std ''w1'' all w2)) 8"
proof (rule race_views)
  fix m m' and e :: envelope and w2
  assume m: "unmarshal json_std m = Some email_env"
    and h: "hash (view ref_redis (rds race_world)) = (\<lambda>_. Map.empty)(InflightKey ''w1'' := [UUID_String json_std (EnvID e) \<mapsto> m])"
    and l: "Lease ref_redis json_std ''email'' ''w1'' race_world = (Inr urgent_env, w2)" "rok w2"
    and v: "view ref_redis (rds w2) = (view ref_redis ref_empty)\<lparr>
      hash := (hash (view ref_redis (rds race_world)))(InflightKey ''w1'' :=
        (inflight ref_redis race_world ''w1'')(UUID_String json_std (EnvID urgent_env) \<mapsto> m'))\<rparr>"
  let ?all = "HGETALL ref_redis (InflightKey ''w1'') (rds race_world)"
  have id: "EnvID urgent_env = 8" "EnvID email_env = 7" by (simp_all add: urgent_env_def email_env_def)
  have "map_of ?all = inflight ref_redis race_world ''w1''"
    using redis_server.HGETALL_map [OF task_queue.axioms(1) [OF std_queue], of "InflightKey ''w1''"] by simp
  then have "map_of ?all (UUID_String json_std (EnvID e)) = Some m" by (simp add: h)
  then have ne: "?all \<noteq> []" by auto
  have la: "LeaseAny ref_redis json_std [''email''] ''w1'' race_world = (Inr urgent_env, w2)" by (simp add: l(1))
  have other: "\<forall>f v e. inflight ref_redis race_world ''w1'' f = Some v \<and> unmarshal json_std v = Some e \<longrightarrow>
      EnvID e \<noteq> EnvID urgent_env" using m by (auto simp: h id split: if_splits)
  have held: "only_held_by ref_redis json_std w2 ''w1'' (EnvID urgent_env)"
    by (auto simp: only_held_by_def queued_at_def buried_at_def v h empty_view split: if_splits)
  from reclaim_race_loses [OF std_queue race_facts(2) rcall_quiet_read [OF race_quiet] ne la l(2) other held]
  show ?thesis unfolding la Let_def id case_prod_beta by simp
qed

end
