(* ===== verification/Lifecycle.thy ===== *)
theory Lifecycle
  imports Store "HOL-Library.Sublist"
begin

section \<open>The life of a task in the tables\<close>

text \<open>
  Every operation of the store is a sequence of statements, and every statement that writes a row of
  \<open>tasks\<close> is a step of the state machine \<open>row_step\<close>. From this follow what a row may look like at
  any time (\<open>row_typed\<close>) and that the tables keep the history of every task (\<open>evolves\<close>).
\<close>

subsection \<open>The state machine of a row\<close>

text \<open>
  What the statements may do to a row. Only the entries into \<open>canceled\<close> and back into \<open>queued\<close>
  test the status; a worker reports its outcomes whatever the row says.
\<close>

inductive row_step :: "pg \<Rightarrow> task \<Rightarrow> task \<Rightarrow> bool" for Q where
  running: "row_step Q r (r\<lparr>Status := StatusRunning, StartedAt := Some (usec t), WorkerID := Some wk,
    UpdatedAt := usec t, Attempts := Attempts r + 1\<rparr>)"
| succeeded: "jsonb_in Q x = Some j \<Longrightarrow> row_step Q r (r\<lparr>Status := StatusSucceeded, FinishedAt := Some (usec t),
    UpdatedAt := usec t, Result := j\<rparr>)"
| retrying: "row_step Q r (r\<lparr>Status := StatusRetrying, AvailableAt := usec due, LastError := msg, WorkerID := None,
    UpdatedAt := usec t\<rparr>)"
| dead: "row_step Q r (r\<lparr>Status := StatusDead, FinishedAt := Some (usec t), UpdatedAt := usec t, LastError := msg\<rparr>)"
| canceled: "Status r \<in> {''queued'', ''retrying''} \<Longrightarrow> row_step Q r (r\<lparr>Status := StatusCanceled,
    FinishedAt := Some (usec t), UpdatedAt := usec t\<rparr>)"
| orphaned: "Status r = ''running'' \<Longrightarrow> row_step Q r (r\<lparr>Status := ''queued'', WorkerID := None,
    AvailableAt := usec t, UpdatedAt := usec t\<rparr>)"
| redriven: "Status r = ''dead'' \<Longrightarrow> row_step Q r (r\<lparr>Status := ''queued'', Attempts := 0, LastError := '''',
    AvailableAt := usec t, WorkerID := None, StartedAt := None, FinishedAt := None, UpdatedAt := usec t\<rparr>)"

text \<open>The columns that no statement writes.\<close>

definition same_task :: "task \<Rightarrow> task \<Rightarrow> bool" where
  "same_task r r' \<longleftrightarrow> ID r' = ID r \<and> Type r' = Type r \<and> Payload r' = Payload r \<and> Priority r' = Priority r \<and>
     MaxAttempts r' = MaxAttempts r \<and> CreatedAt r' = CreatedAt r"

lemma row_step_same: "row_step Q r r' \<Longrightarrow> same_task r r'"
  by (induction rule: row_step.induct) (simp_all add: same_task_def)

lemma row_steps_same: "(row_step Q)\<^sup>*\<^sup>* r r' \<Longrightarrow> same_task r r'"
  by (induction rule: rtranclp_induct) (auto simp: same_task_def dest: row_step_same)

text \<open>The two guarded entries.\<close>

lemma row_step_guards:
  assumes "row_step Q r r'" and "Status r' \<noteq> Status r"
  shows "Status r' = ''canceled'' \<Longrightarrow> Status r \<in> {''queued'', ''retrying''}"
    and "Status r' = ''queued'' \<Longrightarrow> Status r \<in> {''running'', ''dead''}"
  using assms by (induction rule: row_step.induct) (simp_all add: status_defs)

subsection \<open>Statements\<close>

inductive stmt :: "pg \<Rightarrow> tables \<Rightarrow> tables \<Rightarrow> bool" for Q where
  insert: "Status t = StatusQueued \<Longrightarrow> 0 \<le> Attempts t \<Longrightarrow> stmt Q T (snd (insert_task Q t T))"
| event: "stmt Q T (snd (insert_event Q now i ty msg T))"
| buried: "dead_committed Q i msg now T T' \<Longrightarrow> stmt Q T T'"
| numbers: "same_rows T T' \<Longrightarrow> stmt Q T T'"
| update: "(\<And>r. r \<in> set (tasks T) \<Longrightarrow> p r \<Longrightarrow> row_step Q r (f r)) \<Longrightarrow> stmt Q T (update_tasks p f T)"
| workers: "stmt Q T (T\<lparr>workers := ws\<rparr>)"

abbreviation stmts :: "pg \<Rightarrow> tables \<Rightarrow> tables \<Rightarrow> bool" where
  "stmts Q \<equiv> (stmt Q)\<^sup>*\<^sup>*"

lemma stmt_id [simp]: "stmt Q T T"
  by (rule stmt.numbers) simp

lemma stmts_pgcall: "stmt Q (db w) (snd (f (db w))) \<Longrightarrow> stmts Q (db w) (db (snd (pgcall f w)))"
  by (rule pgcall_keeps [where P = "stmts Q (db w)"]) auto

lemma stmts_LogEvent: "stmts Q (db w) (db (snd (LogEvent Q i ty msg w)))"
  unfolding LogEvent_def by (rule stmts_pgcall) (rule stmt.event)

lemma stmts_then_log:
  assumes "stmt Q (db w) (snd (f (db w)))"
  shows "stmts Q (db w) (db (snd (then_log f Q i ty msg w)))"
  by (rule then_log_keeps [where P = "stmts Q (db w)"])
    (use assms in \<open>auto intro: rtranclp.rtrancl_into_rtrancl stmt.event\<close>)

lemma stmts_marks:
  "stmts Q (db w) (db (snd (MarkRunning Q i wk w)))" "stmts Q (db w) (db (snd (MarkSucceeded Q i res w)))"
  "stmts Q (db w) (db (snd (MarkRetry Q i due msg w)))" "stmts Q (db w) (db (snd (MarkCanceled Q i w)))"
  unfolding marks_then_log
  by (intro stmts_then_log; auto intro!: stmt.update row_step.running row_step.succeeded row_step.retrying
      row_step.canceled split: option.splits)+

lemma stmts_MarkDead: "stmts Q (db w) (db (snd (MarkDead Q i msg w)))"
  using MarkDead_atomic [of Q i msg w "fst (MarkDead Q i msg w)" "snd (MarkDead Q i msg w)"]
  by (auto intro: stmt.buried stmt.numbers)

lemma stmts_log_orphans: "stmts Q (db w) (db (snd (log_orphans Q rows w)))"
proof (induction rows arbitrary: w)
  case (Cons r rows)
  show ?case
    using rtranclp_trans [OF stmts_LogEvent Cons.IH]
    by (auto split: sum.splits prod.splits) (metis snd_conv)+
qed simp

lemma stmts_RequeueOrphans: "stmts Q (db w) (db (snd (RequeueOrphans Q wks w)))"
proof -
  have "stmt Q (db w) (snd (requeue_orphans Q wks (clk w) (db w)))"
    by (auto simp: requeue_orphans_def Let_def intro!: stmt.update row_step.orphaned)
  then have q: "stmts Q (db w) (db w1)" if "pgquery Q (requeue_orphans Q wks (clk w)) w = (a, w1)" for a w1
    using stmts_pgcall [of Q w "requeue_orphans Q wks (clk w)"] pgquery_frame(3) [of Q "requeue_orphans Q wks (clk w)" w]
    by (simp add: that)
  have l: "stmts Q (db w1) (db w2)" if "log_orphans Q rows w1 = (a, w2)" for rows a w1 w2
    using stmts_log_orphans [of Q w1 rows] by (simp add: that)
  show ?thesis
    by (auto simp: RequeueOrphans_def split: prod.splits sum.splits option.splits
        dest: q rtranclp_trans [OF q l])
qed

lemma stmts_Redrive: "stmts Q (db w) (db (snd (Redrive Q i w)))"
proof -
  have "stmt Q (db w) (snd (redrive_dead i (clk w) (db w)))"
    by (auto simp: redrive_dead_def Let_def intro!: stmt.update row_step.redriven)
  then have q: "stmts Q (db w) (db w1)" if "pgcall (redrive_dead i (clk w)) w = (a, w1)" for a w1
    using stmts_pgcall [of Q w "redrive_dead i (clk w)"] by (simp add: that)
  then show ?thesis
    by (auto simp: Redrive_def split: prod.splits sum.splits intro: rtranclp_trans [OF q stmts_LogEvent])
qed

lemma stmts_workers:
  "stmts Q (db w) (db (snd (UpsertWorker Q wk h st w)))" "stmts Q (db w) (db (snd (TouchWorker Q wk w)))"
  "stmts Q (db w) (db (snd (MarkWorkerDead Q wk w)))"
  unfolding UpsertWorker_def TouchWorker_def MarkWorkerDead_def
  by (intro stmts_pgcall; auto simp: update_workers_def intro: stmt.workers)+

lemma stmts_write: "store_write Q w w' \<Longrightarrow> stmts Q (db w) (db w')"
  by (induction rule: store_write.induct)
    (simp_all add: stmts_marks stmts_MarkDead stmts_RequeueOrphans stmts_Redrive stmts_LogEvent stmts_workers)

text \<open>Sequences of operations; \<open>fresh\<close> is what the API hands to \<open>CreateTask\<close>.\<close>

definition fresh :: "task \<Rightarrow> bool" where
  "fresh t \<longleftrightarrow> Status t \<in> {'''', StatusQueued} \<and> 0 \<le> Attempts t"

inductive task_steps :: "pg \<Rightarrow> 'r world \<Rightarrow> 'r world \<Rightarrow> bool" for Q where
  none: "task_steps Q w w"
| created: "task_steps Q w w1 \<Longrightarrow> fresh t \<Longrightarrow> task_steps Q w (snd (snd (CreateTask Q u t w1)))"
| wrote: "task_steps Q w w1 \<Longrightarrow> store_write Q w1 w2 \<Longrightarrow> task_steps Q w w2"

lemma stmts_CreateTask: "fresh t \<Longrightarrow> stmts Q (db w) (db (snd (snd (CreateTask Q u t w))))"
  by (auto simp: CreateTask_then_log Let_def fresh_def task_defaults_def intro!: stmts_then_log stmt.insert)

lemma stmts_steps: "task_steps Q w w' \<Longrightarrow> stmts Q (db w) (db w')"
  by (induction rule: task_steps.induct) (auto intro: rtranclp_trans [OF _ stmts_CreateTask] rtranclp_trans [OF _ stmts_write])

subsection \<open>Well-typed rows\<close>

text \<open>
  A row has one of six statuses, never \<open>failed\<close>; its JSON columns hold texts in the form in which the
  server keeps them; a running task names its worker and when it was started, a waiting one has no worker,
  a finished one says when, and a succeeded one has a result; and times are kept to the microsecond.
\<close>

definition row_typed :: "pg \<Rightarrow> task \<Rightarrow> bool" where
  "row_typed Q r \<longleftrightarrow>
     Status r \<in> {StatusQueued, StatusRunning, StatusSucceeded, StatusRetrying, StatusDead, StatusCanceled} \<and>
     0 \<le> Attempts r \<and> jsonb_in Q (Payload r) = Some (Payload r) \<and>
     (Result r = '''' \<or> jsonb_in Q (Result r) = Some (Result r)) \<and>
     (Status r = StatusSucceeded \<longrightarrow> jsonb_in Q (Result r) = Some (Result r)) \<and>
     (Status r = StatusRunning \<longrightarrow> WorkerID r \<noteq> None \<and> StartedAt r \<noteq> None) \<and>
     (Status r \<in> {StatusQueued, StatusRetrying} \<longrightarrow> WorkerID r = None) \<and>
     (Status r \<in> {StatusSucceeded, StatusDead, StatusCanceled} \<longrightarrow> FinishedAt r \<noteq> None) \<and>
     list_all (\<lambda>t. usec t = t) [AvailableAt r, CreatedAt r, UpdatedAt r]"

definition tables_typed :: "pg \<Rightarrow> tables \<Rightarrow> bool" where
  "tables_typed Q T \<longleftrightarrow> (\<forall>r\<in>set (tasks T). row_typed Q r) \<and>
     (\<forall>d\<in>set (dead_letters T). jsonb_in Q (DlPayload d) = Some (DlPayload d))"

lemma usec_usec [simp]: "usec (usec t) = usec t"
  by (simp add: usec_def)

lemma row_step_typed:
  assumes "row_step Q r r'" and "postgres Q" and "row_typed Q r"
  shows "row_typed Q r'"
  using assms
proof (induction rule: row_step.induct)
  case (succeeded x j r t)
  from postgres.jsonb_stable [OF succeeded(2,1)] succeeded(3) show ?case by (simp add: row_typed_def status_defs)
qed (simp_all add: row_typed_def status_defs)

lemma insert_task_typed:
  assumes "postgres Q" and "tables_typed Q T" and "Status t = StatusQueued" and "0 \<le> Attempts t"
  shows "tables_typed Q (snd (insert_task Q t T))"
proof (cases "jsonb_in Q (Payload t)")
  case (Some p)
  from postgres.jsonb_stable [OF assms(1) this] assms(2-4) Some show ?thesis
    by (simp add: insert_task_def tables_typed_def row_typed_def status_defs)
qed (use assms(2) in \<open>simp add: insert_task_def\<close>)

lemma dead_committed_typed:
  assumes "dead_committed Q i msg now T T'" and "postgres Q" and "tables_typed Q T"
  shows "tables_typed Q T'"
proof -
  let ?f = "\<lambda>r. r\<lparr>Status := StatusDead, FinishedAt := Some (usec now), UpdatedAt := usec now, LastError := msg\<rparr>"
  have t: "tasks T' = map (\<lambda>r. if ID r = i then ?f r else r) (tasks T)"
    using assms(1) by (simp add: dead_committed_def)
  have "row_typed Q (?f r)" if "row_typed Q r" for r
    by (rule row_step_typed [OF row_step.dead assms(2) that])
  then have "\<forall>r\<in>set (tasks T'). row_typed Q r" using assms(3) by (auto simp: t tables_typed_def)
  moreover obtain d p where "dead_letters T' = dead_letters T @ [d]" "jsonb_in Q p = Some (DlPayload d)"
    using assms(1) unfolding dead_committed_def by fastforce
  moreover from this have "jsonb_in Q (DlPayload d) = Some (DlPayload d)" by (intro postgres.jsonb_stable [OF assms(2)])
  ultimately show ?thesis using assms(3) by (auto simp: tables_typed_def)
qed

lemma stmt_typed:
  assumes "stmt Q T T'" and "postgres Q" and "tables_typed Q T"
  shows "tables_typed Q T'"
  using assms
proof (induction rule: stmt.induct)
  case (update T p f)
  then have "row_typed Q (f r)" if "r \<in> set (tasks T)" "p r" for r
    using that by (intro row_step_typed [OF update.hyps]) (auto simp: tables_typed_def)
  with update show ?case by (auto simp: tables_typed_def update_tasks_def)
qed (auto simp: insert_task_typed dead_committed_typed, auto simp: tables_typed_def insert_event_def same_rows_def)

lemma stmts_typed:
  "stmts Q T T' \<Longrightarrow> postgres Q \<Longrightarrow> tables_typed Q T \<Longrightarrow> tables_typed Q T'"
  by (induction rule: rtranclp_induct) (auto intro: stmt_typed)

subsection \<open>The tables as a history\<close>

text \<open>
  No row leaves the tables; what is inserted comes after it; every row of a task goes through steps of its
  state machine; and the events and the dead letters are only appended to.
\<close>

definition evolves :: "pg \<Rightarrow> tables \<Rightarrow> tables \<Rightarrow> bool" where
  "evolves Q T T' \<longleftrightarrow>
     (\<exists>rows new. tasks T' = rows @ new \<and> list_all2 (row_step Q)\<^sup>*\<^sup>* (tasks T) rows) \<and>
     prefix (task_events T) (task_events T') \<and> prefix (dead_letters T) (dead_letters T')"

lemma rows_refl [simp]: "list_all2 (row_step Q)\<^sup>*\<^sup>* xs xs"
  by (simp add: list_all2_refl)

lemma evolves_append: "prefix (tasks T) (tasks T') \<Longrightarrow> prefix (task_events T) (task_events T') \<Longrightarrow>
    prefix (dead_letters T) (dead_letters T') \<Longrightarrow> evolves Q T T'"
  unfolding evolves_def by (metis prefixE rows_refl)

lemma evolves_trans:
  assumes "evolves Q T T1" and "evolves Q T1 T2"
  shows "evolves Q T T2"
proof -
  from assms(1) obtain rows new where 1: "tasks T1 = rows @ new" "list_all2 (row_step Q)\<^sup>*\<^sup>* (tasks T) rows"
    unfolding evolves_def by blast
  from assms(2) obtain rows' new' where 2: "tasks T2 = rows' @ new'" "list_all2 (row_step Q)\<^sup>*\<^sup>* (tasks T1) rows'"
    unfolding evolves_def by blast
  from 2(2) obtain ra rb where r: "rows' = ra @ rb" "list_all2 (row_step Q)\<^sup>*\<^sup>* rows ra"
    unfolding 1(1) list_all2_append1 by blast
  have "list_all2 (row_step Q)\<^sup>*\<^sup>* (tasks T) ra"
    by (rule list_all2_trans [OF _ 1(2) r(2)]) (rule rtranclp_trans)
  with 2(1) r(1) have "\<exists>rows new. tasks T2 = rows @ new \<and> list_all2 (row_step Q)\<^sup>*\<^sup>* (tasks T) rows"
    by (intro exI [of _ ra] exI [of _ "rb @ new'"]) simp
  with assms show ?thesis by (auto simp: evolves_def intro: prefix_order.trans)
qed

lemma evolves_update:
  assumes "\<And>r. r \<in> set (tasks T) \<Longrightarrow> (row_step Q)\<^sup>*\<^sup>* r (g r)" and "tasks T' = map g (tasks T)"
    and "prefix (task_events T) (task_events T')" and "prefix (dead_letters T) (dead_letters T')"
  shows "evolves Q T T'"
proof -
  have "list_all2 (row_step Q)\<^sup>*\<^sup>* (tasks T) (map g (tasks T))"
    using assms(1) by (simp add: list_all2_map2 list_all2_same)
  with assms(2-4) show ?thesis unfolding evolves_def by (metis append_Nil2)
qed

lemma stmt_evolves: "stmt Q T T' \<Longrightarrow> evolves Q T T'"
proof (induction rule: stmt.induct)
  case (insert t T)
  show ?case by (rule evolves_append) (simp_all add: insert_task_def split: option.split)
next
  case (update T p f)
  then show ?case by (intro evolves_update [where g = "\<lambda>r. if p r then f r else r"]) (auto simp: update_tasks_def)
next
  case (buried i msg now T T')
  let ?g = "\<lambda>r. if ID r = i then r\<lparr>Status := StatusDead, FinishedAt := Some (usec now), UpdatedAt := usec now,
      LastError := msg\<rparr> else r"
  have "tasks T' = map ?g (tasks T)" using buried by (simp add: dead_committed_def)
  moreover have "(row_step Q)\<^sup>*\<^sup>* r (?g r)" for r
    using r_into_rtranclp [of "row_step Q", OF row_step.dead [where r = r and t = now and msg = msg]] by simp
  moreover have "prefix (task_events T) (task_events T')" "prefix (dead_letters T) (dead_letters T')"
    using buried by (auto simp: dead_committed_def)
  ultimately show ?case by (intro evolves_update [where g = ?g])
qed (auto intro!: evolves_append simp: insert_event_def same_rows_def)

lemma stmts_evolve: "stmts Q T T' \<Longrightarrow> evolves Q T T'"
  by (induction rule: rtranclp_induct) (auto intro: evolves_append evolves_trans stmt_evolves)

subsection \<open>Properties\<close>

text \<open>
  C13. Every sequence of store operations that starts from well-typed tables, with tasks created the way
  the API creates them and any faults of PostgreSQL, leaves well-typed tables: every row has one of
  the statuses queued, running, succeeded, retrying, dead and canceled with the worker, times and result
  that belong to it, and all its JSON columns read back as they are.
\<close>

theorem rows_typed:
  assumes "postgres Q" and "task_steps Q w w'" and "tables_typed Q (db w)"
  shows "tables_typed Q (db w')"
  by (rule stmts_typed [OF stmts_steps [OF assms(2)] assms(1,3)])

text \<open>A task that was created and started.\<close>

definition empty_tables :: "unit world" where
  "empty_tables = row_world\<lparr>db := (db row_world)\<lparr>tasks := []\<rparr>\<rparr>"

definition started_tables :: "unit world" where
  "started_tables = snd (MarkRunning std_pg 9 ''w1'' (snd (snd (CreateTask std_pg 9
     (zero_task\<lparr>Type := ''echo''\<rparr>) empty_tables))))"

lemma started_steps: "task_steps Q w (snd (snd (CreateTask Q u t w)))" if "fresh t"
  by (rule task_steps.created [OF task_steps.none that])

lemma started_tables_steps: "task_steps std_pg empty_tables started_tables"
  unfolding started_tables_def
  by (rule task_steps.wrote [OF started_steps store_write.running]) (simp add: fresh_def zero_task_def)

lemma started_tables_rows:
  "map Status (tasks (db started_tables)) = [''running'']"
  "map EventType (task_events (db started_tables)) = [''created'', ''started'']"
proof -
  have t: "text_in std_pg ''echo''" "text_in std_pg ''queued''" "text_in std_pg ''created''" "text_in std_pg ''w1''"
    "text_in std_pg ''started''" "text_in std_pg ''worker=w1''" "text_in std_pg ''''"
    by (rule spg.text_ascii; simp add: plain_text_def)+
  have "int4_range 0" "int4_range 1" "int4_range 3" by (simp_all add: int4_range_def)
  then show "map Status (tasks (db started_tables)) = [''running'']"
    and "map EventType (task_events (db started_tables)) = [''created'', ''started'']"
    by (simp_all add: started_tables_def empty_tables_def row_world_def CreateTask_def MarkRunning_def LogEvent_def
        pgcall_def insert_task_def insert_event_def update_tasks_def task_defaults_def zero_task_def Let_def
        spg.jsonb_object t status_defs)
qed

theorem rows_typed_witness:
  "\<exists>r. tasks (db started_tables) = [r] \<and> Status r = StatusRunning \<and> WorkerID r \<noteq> None"
proof -
  have "tables_typed std_pg (db empty_tables)"
    by (simp add: tables_typed_def empty_tables_def row_world_def)
  from rows_typed [OF spg.postgres_axioms started_tables_steps this]
  have "WorkerID r \<noteq> None" if "r \<in> set (tasks (db started_tables))" "Status r = StatusRunning" for r
    using that by (simp add: tables_typed_def row_typed_def)
  moreover obtain r where "tasks (db started_tables) = [r]" "Status r = StatusRunning"
    using started_tables_rows(1) by (auto simp: StatusRunning_def)
  ultimately show ?thesis by simp
qed

text \<open>
  C14. The tables are the history of the tasks: over any sequence of store operations and faults no row is
  removed, every row goes through steps of its state machine and keeps its id, type, payload,
  priority, bound of attempts and time of creation, new rows come after the old ones, and events
  and dead letters are only appended.
\<close>

theorem task_history:
  assumes "task_steps Q w w'"
  shows "(\<exists>rows new. tasks (db w') = rows @ new \<and>
      list_all2 (\<lambda>r r'. (row_step Q)\<^sup>*\<^sup>* r r' \<and> same_task r r') (tasks (db w)) rows) \<and>
    prefix (task_events (db w)) (task_events (db w')) \<and> prefix (dead_letters (db w)) (dead_letters (db w'))"
proof -
  have "evolves Q (db w) (db w')" by (rule stmts_evolve [OF stmts_steps [OF assms]])
  moreover have "list_all2 (\<lambda>r r'. (row_step Q)\<^sup>*\<^sup>* r r' \<and> same_task r r') rs0 rows"
    if "list_all2 (row_step Q)\<^sup>*\<^sup>* rs0 rows" for rs0 rows
    by (rule list_all2_mono [OF that]) (simp add: row_steps_same)
  ultimately show ?thesis unfolding evolves_def by blast
qed

theorem task_history_witness:
  "prefix (task_events (db empty_tables)) (task_events (db started_tables)) \<and>
   map EventType (task_events (db started_tables)) = [''created'', ''started'']"
  using task_history [OF started_tables_steps] started_tables_rows(2) by blast

end
