(* ===== verification/Loadtest.thy ===== *)
theory Loadtest
  imports Handlers
begin

section \<open>The load test (cmd/loadtest/main.go)\<close>

text \<open>
  The client program that posts tasks to the API and waits until they are done. The HTTP client is
  an argument: \<open>post\<close> sends the body of job \<open>idx\<close> and \<open>get\<close> asks for the statistics; both
  return the response of the server or a transport error. The submitters take the idxs off one
  channel, so the requests of all of them are made in some order of the idxs. \<open>None\<close> is a panic of
  the program, or in \<open>drain\<close> a loop that is still running. The flags are finite numbers.
\<close>

record options =
  OptN :: int
  OptConc :: int
  OptType :: string
  OptFailRate :: rat
  OptPriLo :: int
  OptPriHi :: int
  OptMaxAtt :: int
  OptWait :: int

subsection \<open>Submitting\<close>

definition req_payload :: "options \<Rightarrow> string" where
  "req_payload o' = object_text [(quote ''fail_rate'', show_json (OptFailRate o'))]"

text \<open>\<open>*priLo + (idx % (*priHi - *priLo + 1))\<close> for an index that is not negative.\<close>

definition job_priority :: "options \<Rightarrow> int \<Rightarrow> int option" where
  "job_priority o' idx =
     (let m = wrap64 (wrap64 (OptPriHi o' - OptPriLo o') + 1)
      in if m = 0 then None else Some (wrap64 (OptPriLo o' + idx mod \<bar>m\<bar>)))"

definition req_body :: "options \<Rightarrow> int \<Rightarrow> string" where
  "req_body o' priority = object_text
     [(quote ''type'', quote (OptType o')), (quote ''payload'', json_raw_compact (req_payload o')),
      (quote ''priority'', show_int priority), (quote ''max_attempts'', show_int (OptMaxAtt o'))]"

type_synonym 'w poster = "int \<Rightarrow> string \<Rightarrow> 'w \<Rightarrow> (err + response) \<times> 'w"

definition submit ::
  "'w poster \<Rightarrow> options \<Rightarrow> int \<Rightarrow> int \<times> int \<times> 'w \<Rightarrow> (int \<times> int \<times> 'w) option" where
  "submit post o' idx st =
     (case st of (submitted, errs, w) \<Rightarrow>
        (case job_priority o' idx of
           None \<Rightarrow> None
         | Some priority \<Rightarrow>
             (case post idx (req_body o' priority) w of
                (Inl e, w1) \<Rightarrow> Some (submitted, errs + 1, w1)
              | (Inr resp, w1) \<Rightarrow>
                  if Code resp \<ge> 300 then Some (submitted, errs + 1, w1)
                  else Some (submitted + 1, errs, w1))))"

fun submit_all ::
  "'w poster \<Rightarrow> options \<Rightarrow> int list \<Rightarrow> int \<times> int \<times> 'w \<Rightarrow> (int \<times> int \<times> 'w) option" where
  "submit_all post o' [] st = Some st"
| "submit_all post o' (idx # idxs) st =
     (case submit post o' idx st of None \<Rightarrow> None | Some st' \<Rightarrow> submit_all post o' idxs st')"

text \<open>
  The idxs in the order in which they are handled. Without submitters the buffered channel takes
  the idxs and nobody handles them; a negative number of idxs is a panic of \<open>make\<close>.
\<close>

definition submit_phase ::
  "'w poster \<Rightarrow> options \<Rightarrow> int list \<Rightarrow> 'w \<Rightarrow> (int \<times> int \<times> 'w) option" where
  "submit_phase post o' idxs w =
     (if OptN o' < 0 then None
      else if OptConc o' \<le> 0 then Some (0, 0, w)
      else submit_all post o' idxs (0, 0, w))"

subsection \<open>Waiting\<close>

text \<open>What decoding a response into \<open>statsResp\<close> gives: an object without the field leaves it empty.\<close>

fun decode_stats :: "body \<Rightarrow> (string \<rightharpoonup> int) option" where
  "decode_stats (JStats s) = Some (ByStatus (StTasks s))"
| "decode_stats (JError m) = Some Map.empty"
| "decode_stats (JStatus m) = Some Map.empty"
| "decode_stats (JTask t) = Some Map.empty"
| "decode_stats _ = None"

definition fetchStats ::
  "('w \<Rightarrow> (err + response) \<times> 'w) \<Rightarrow> 'w \<Rightarrow> (err + (string \<rightharpoonup> int)) \<times> 'w" where
  "fetchStats get w =
     (case get w of
        (Inl e, w1) \<Rightarrow> (Inl e, w1)
      | (Inr resp, w1) \<Rightarrow>
          (case decode_stats (Body resp) of
             None \<Rightarrow> (Inl (Err ''json: decode''), w1)
           | Some m \<Rightarrow> (Inr m, w1)))"

definition count_of :: "(string \<rightharpoonup> int) \<Rightarrow> string \<Rightarrow> int" where
  "count_of m k = (case m k of None \<Rightarrow> 0 | Some n \<Rightarrow> n)"

definition pending :: "(string \<rightharpoonup> int) \<Rightarrow> int" where
  "pending m = wrap64 (wrap64 (count_of m ''queued'' + count_of m ''running'') + count_of m ''retrying'')"

text \<open>
  The loop until the deadline. The ticker started at \<open>t0\<close>; \<open>nxt\<close> is its next tick, and a tick that
  nobody waits for is kept until it is received.
\<close>

fun drain ::
  "('r world \<Rightarrow> (err + response) \<times> 'r world) \<Rightarrow> int \<Rightarrow> int \<Rightarrow> nat \<Rightarrow> int \<Rightarrow> 'r world \<Rightarrow> 'r world option" where
  "drain get t0 deadline 0 nxt w = None"
| "drain get t0 deadline (Suc fuel) nxt w =
     (if clk w \<ge> deadline then Some w
      else (let w1 = w\<lparr>clk := max (clk w) nxt\<rparr>;
                nxt1 = t0 + ((clk w1 - t0) div second + 1) * second
            in case fetchStats get w1 of
                 (Inl e, w2) \<Rightarrow> drain get t0 deadline fuel nxt1 w2
               | (Inr m, w2) \<Rightarrow>
                   if pending m = 0 then Some w2 else drain get t0 deadline fuel nxt1 w2))"

text \<open>The report; \<open>ranging\<close> is the order in which Go ranges over the statuses.\<close>

definition final_report ::
  "((string \<rightharpoonup> int) \<Rightarrow> string list) \<Rightarrow> (string \<rightharpoonup> int) \<Rightarrow> int \<times> int \<times> rat" where
  "final_report ranging m =
     (let total = fold (\<lambda>k n. wrap64 (n + count_of m k)) (ranging m) 0;
          dead = count_of m ''dead'';
          rate = (if total > 0 then f64r (of_int (f64 dead) / of_int (f64 total)) else 0)
      in (total, dead, rate))"

text \<open>
  The whole program: it ends after the submissions when there is nothing to wait for, with a fatal
  error when the last request for the statistics fails, and with the report otherwise.
\<close>

datatype load_result = Submitted int int | Fatal err | Final int int "int \<times> int \<times> rat"

definition loadtest_main ::
  "'r world poster \<Rightarrow> ('r world \<Rightarrow> (err + response) \<times> 'r world) \<Rightarrow> ((string \<rightharpoonup> int) \<Rightarrow> string list) \<Rightarrow>
   options \<Rightarrow> int list \<Rightarrow> nat \<Rightarrow> 'r world \<Rightarrow> (load_result \<times> 'r world) option" where
  "loadtest_main post get ranging o' idxs fuel w =
     (case submit_phase post o' idxs w of
        None \<Rightarrow> None
      | Some (submitted, errs, w1) \<Rightarrow>
          if OptWait o' \<le> 0 then Some (Submitted submitted errs, w1)
          else (case drain get (clk w1) (clk w1 + OptWait o') fuel (clk w1 + second) w1 of
                  None \<Rightarrow> None
                | Some w2 \<Rightarrow>
                    (case fetchStats get w2 of
                       (Inl e, w3) \<Rightarrow> Some (Fatal e, w3)
                     | (Inr m, w3) \<Rightarrow> Some (Final submitted errs (final_report ranging m), w3))))"

subsection \<open>Every job is counted once\<close>

lemma submit_counts:
  "submit post o' idx (s, e, w) = Some (s', e', w') \<Longrightarrow> s' + e' = s + e + 1"
  by (auto simp: submit_def split: option.splits prod.splits sum.splits if_splits)

lemma submit_all_counts:
  "submit_all post o' idxs (s, e, w) = Some (s', e', w') \<Longrightarrow> s' + e' = s + e + int (length idxs)"
proof (induction idxs arbitrary: s e w)
  case (Cons idx idxs)
  then obtain s1 e1 w1 where "submit post o' idx (s, e, w) = Some (s1, e1, w1)"
    "submit_all post o' idxs (s1, e1, w1) = Some (s', e', w')"
    by (auto split: option.splits)
  with submit_counts [OF this(1)] Cons.IH [OF this(2)] show ?case by simp
qed simp

lemma submit_all_returns:
  "job_priority o' 0 \<noteq> None \<Longrightarrow> submit_all post o' idxs st \<noteq> None"
proof (induction idxs arbitrary: st)
  case (Cons idx idxs)
  obtain s e w where "st = (s, e, w)" by (cases st) auto
  moreover have "job_priority o' idx \<noteq> None" using Cons.prems by (auto simp: job_priority_def Let_def split: if_splits)
  ultimately have "\<exists>st1. submit post o' idx st = Some st1"
    by (auto simp: submit_def split: option.splits prod.splits sum.splits)
  with Cons show ?case by auto
qed simp

subsection \<open>The waiting loop ends\<close>

lemma drain_ends:
  assumes "\<And>w. clk w \<le> clk (snd (get w))" and "deadline \<le> t0 + (k + int n) * second" and "n + 2 \<le> fuel"
  shows "\<exists>w'. drain get t0 deadline fuel (t0 + k * second) w = Some w'"
  using assms(2,3)
proof (induction fuel arbitrary: k n w)
  case (Suc fuel)
  show ?case
  proof (cases "clk w \<ge> deadline")
    case False
    define c where "c = max (clk w) (t0 + k * second)"
    define k1 where "k1 = (c - t0) div second + 1"
    let ?w1 = "w\<lparr>clk := c\<rparr>"
    obtain res w2 where f: "fetchStats get ?w1 = (res, w2)" by fastforce
    have "clk ?w1 \<le> clk (snd (get ?w1))" by (rule assms(1))
    then have c2: "c \<le> clk w2"
      using f by (auto simp: fetchStats_def split: prod.splits sum.splits option.splits)
    have k1: "k + 1 \<le> k1"
      using zdiv_mono1 [of "k * second" "c - t0" second] by (simp add: k1_def c_def)
    have "\<exists>w'. drain get t0 deadline fuel (t0 + k1 * second) w2 = Some w'"
    proof (cases n)
      case 0
      then have "deadline \<le> clk w2" using Suc.prems(1) c2 by (simp add: c_def)
      moreover obtain fuel' where "fuel = Suc fuel'" using Suc.prems(2) by (cases fuel) auto
      ultimately show ?thesis by simp
    next
      case (Suc m)
      have "(k + 1 + int m) * second \<le> (k1 + int m) * second" using k1 by (intro mult_right_mono) simp_all
      with Suc Suc.prems show ?thesis by (intro Suc.IH [of k1 m]) (simp_all add: algebra_simps)
    qed
    with False f show ?thesis by (auto simp: c_def k1_def Let_def split: sum.splits)
  qed simp
qed simp

text \<open>
  An answer without counters ends the waiting at once: \<open>fetchStats\<close> does not look at the status of
  the response, and an error body decodes to no counters at all.
\<close>

lemma drain_stops_on_error:
  assumes "clk w < deadline" and "get (w\<lparr>clk := max (clk w) nxt\<rparr>) = (Inr (writeError 500 msg), w2)"
  shows "drain get t0 deadline (Suc fuel) nxt w = Some w2"
  using assms by (simp add: fetchStats_def writeError_def writeJSON_def pending_def count_of_def wrap64_def Let_def)

subsection \<open>What the server reads\<close>

lemma take_value_all: "plain cf t \<Longrightarrow> take_value cf t = Some (t, [])"
proof (induction cf t rule: plain.induct)
  case (2 cf c s)
  from "2.prems" obtain cf' where st: "step cf c = Some cf'" and p: "plain cf' s"
    and sp: "\<not> (is_space c \<and> fst cf \<noteq> InString)" by (cases "step cf c") simp_all
  have "fst cf \<noteq> InString" if "final cf" using that by (auto simp: final_def num_final_def)
  then have "\<not> (final cf \<and> fst cf' = EndTop)" using sp final_EndTop [OF _ st] by blast
  with "2.IH" [OF st p] st show ?case by simp
qed simp

lemma decode_object:
  assumes "\<forall>(k, v)\<in>set fs. (\<exists>n. k = quote n) \<and> plain start v" and "fs \<noteq> []"
  shows "decode_request (object_text fs) =
    fold store_req fs (Some \<lparr>ReqType = '''', ReqPayload = '''', ReqPriority = 0, ReqMaxAttempts = 0\<rparr>)"
proof -
  have p: "plain start (object_text fs)" by (rule plain_object [OF assms])
  have "skip_space (object_text fs) = object_text fs" using skip_space_plain [OF p, of "[]"] by simp
  moreover have "object_text fs \<noteq> ''null''" by (simp add: object_text_def)
  moreover have "object_members (object_text fs) = Some fs"
    using assms plain_quote by (intro object_members_text) auto
  ultimately show ?thesis by (simp add: decode_request_def take_value_all [OF p] Let_def)
qed

lemma req_names:
  "fold_name ''type'' = ''type''" "fold_name ''payload'' = ''payload''" "fold_name ''priority'' = ''priority''"
  "fold_name ''max_attempts'' = ''max_attempts''"
  by code_simp+

lemma req_body_decoded:
  assumes "f64r (OptFailRate o') = OptFailRate o'" and "0 < OptFailRate o'" and "OptFailRate o' < 2 ^ 1024"
    and "int64_range p" and "int64_range (OptMaxAtt o')"
  shows "decode_request (req_body o' p) = Some \<lparr>ReqType = OptType o', ReqPayload = req_payload o',
    ReqPriority = p, ReqMaxAttempts = OptMaxAtt o'\<rparr>"
proof -
  have "prints (OptFailRate o') (show_json (OptFailRate o'))" by (rule prints_show [OF assms(1-3)])
  from plain_prints [OF this] have pl: "plain start (req_payload o')"
    unfolding req_payload_def by (intro plain_object) auto
  have c: "json_raw_compact (req_payload o') = req_payload o'"
    using plain_compact [OF pl] by (simp add: json_raw_compact_def req_payload_def object_text_def)
  show ?thesis
    unfolding req_body_def c
    by (subst decode_object)
      (auto simp: pl plain_quote plain_show_int store_req_def unquote_quote req_names ParseInt_show_int assms(4,5)
        quote_not_null show_int_not_null Let_def simp del: fold_name.simps)
qed

text \<open>The server as the load test reaches it, over a transport that does not fail.\<close>

definition api_post :: "'r redis \<Rightarrow> codec \<Rightarrow> pg \<Rightarrow> (int \<Rightarrow> uuid) \<Rightarrow> 'r world poster" where
  "api_post R C Q us idx body w =
     (let (resp, w1) = createTask R C Q (us idx) body w in (Inr resp, w1))"

lemma job_priority_range:
  assumes "0 \<le> idx" and "OptPriLo o' \<le> OptPriHi o'" and "int64_range (OptPriLo o')" and "int64_range (OptPriHi o')"
    and "OptPriHi o' - OptPriLo o' + 1 < 2 ^ 63"
  shows "\<exists>p. job_priority o' idx = Some p \<and> OptPriLo o' \<le> p \<and> p \<le> OptPriHi o'"
proof -
  let ?m = "OptPriHi o' - OptPriLo o' + 1"
  have "int64_range (OptPriHi o' - OptPriLo o')" "int64_range ?m" using assms(2,5) by (simp_all add: int64_range_def)
  then have m: "wrap64 (wrap64 (OptPriHi o' - OptPriLo o') + 1) = ?m" by (simp add: wrap64_id)
  have "0 < ?m" using assms(2) by simp
  then have b: "0 \<le> idx mod ?m" "idx mod ?m < ?m" by (rule pos_mod_sign, rule pos_mod_bound)
  then have "int64_range (OptPriLo o' + idx mod ?m)" using assms(3,4) by (simp add: int64_range_def)
  then have "job_priority o' idx = Some (OptPriLo o' + idx mod ?m)"
    using assms(2) by (simp add: job_priority_def m wrap64_id Let_def)
  with b show ?thesis by simp
qed


definition demo_options :: options where
  "demo_options = \<lparr>OptN = 3, OptConc = 2, OptType = ''flaky'', OptFailRate = 1 / 2, OptPriLo = 1, OptPriHi = 9,
     OptMaxAtt = 5, OptWait = 0\<rparr>"


end
