(* ===== verification/Recovery.thy ===== *)
theory Recovery
  imports Coordinator
begin

section \<open>The coordinator process (Coordinator of internal/scheduler/scheduler.go)\<close>

text \<open>
  The struct, its constructor and \<open>Run\<close>, which sweeps at every tick until its context ends;
  and which workers a sweep passes over.
\<close>

record coordinator =
  ccfg :: config

definition NewCoordinator :: "config \<Rightarrow> coordinator" where
  "NewCoordinator cfg = \<lparr>ccfg = cfg\<rparr>"

text \<open>
  What \<open>Run\<close> is woken by: the end of the context, or the ticker after some time has passed.
  A ticker needs a positive interval; otherwise \<open>time.NewTicker\<close> panics.
\<close>

datatype wake = CtxDone | Ticked nat

datatype run_result = Returned | Waiting | Panic

fun Run_loop ::
  "'r redis \<Rightarrow> codec \<Rightarrow> pg \<Rightarrow> nat \<Rightarrow> wake list \<Rightarrow> 'r world \<Rightarrow> (run_result \<times> 'r world) option" where
  "Run_loop R C Q fuel [] w = Some (Waiting, w)"
| "Run_loop R C Q fuel (CtxDone # evs) w = Some (Returned, w)"
| "Run_loop R C Q fuel (Ticked d # evs) w =
     (case tick R C Q fuel (w\<lparr>clk := clk w + int d\<rparr>) of
        None \<Rightarrow> None
      | Some w1 \<Rightarrow> Run_loop R C Q fuel evs w1)"

definition Coordinator_Run ::
  "'r redis \<Rightarrow> codec \<Rightarrow> pg \<Rightarrow> coordinator \<Rightarrow> nat \<Rightarrow> wake list \<Rightarrow> 'r world \<Rightarrow> (run_result \<times> 'r world) option" where
  "Coordinator_Run R C Q c fuel evs w =
     (if CoordinatorSweepInterval (ccfg c) \<le> 0 then Some (Panic, w) else Run_loop R C Q fuel evs w)"

subsection \<open>Workers that are marked dead\<close>

definition marked_dead :: "string \<Rightarrow> worker_row list \<Rightarrow> bool" where
  "marked_dead wid wrs \<longleftrightarrow> (\<forall>r\<in>set wrs. WkID r = wid \<longrightarrow> WkStatus r = ''dead'')"

lemma ListWorkers_rows:
  assumes "postgres Q" and "ListWorkers Q w = (Inr wrs, w1)"
  shows "set wrs \<subseteq> set (workers (db w))"
proof -
  let ?f = "\<lambda>T. (Inr (sort_key (\<lambda>r. - LastHeartbeat r) (scan_workers Q (workers T))), T) :: (err + worker_row list) \<times> tables"
  obtain res w2 where c: "pgcall ?f w = (res, w2)" by fastforce
  from assms(2) have res: "res = Inr wrs"
    by (auto simp: ListWorkers_def pgquery_def collect_rows_def c split: sum.splits option.splits)
  have "fst (pgcall ?f w) = Inr wrs \<Longrightarrow> wrs = sort_key (\<lambda>r. - LastHeartbeat r) (scan_workers Q (workers (db w)))"
    by (auto simp: pgcall_def Let_def split: prod.splits outcome.splits)
  then have "set wrs = set (scan_workers Q (workers (db w)))" using c res by simp
  also have "\<dots> = set (workers (db w))" by (rule mset_eq_setD [OF postgres.scan_workers [OF assms(1)]])
  finally show ?thesis by simp
qed

context task_queue
begin

lemma reclaim_worker_other:
  assumes "WkID wr = wid \<longrightarrow> WkStatus wr = ''dead''"
  shows "inflight R (reclaim_worker R C Q wr w) wid = inflight R w wid"
proof (cases "WkID wr = wid")
  case True
  with assms show ?thesis by (simp add: reclaim_worker_def)
next
  case False
  obtain a w1 where a: "IsAlive R (WkID wr) w = (a, w1)" by fastforce
  have w1: "rds w1 = rds w" using IsAlive_rds [of "WkID wr" w] by (simp add: a)
  obtain x w2 where r: "ReclaimInflight R C (WkID wr) w1 = (x, w2)" by fastforce
  from ReclaimInflight_others(1) [OF False, of w1] have "inflight R w2 wid = inflight R w1 wid" by (simp add: r)
  then show ?thesis by (auto simp: reclaim_worker_def Let_def a r w1 split: sum.splits)
qed

lemma reclaim_workers_other:
  "marked_dead wid wrs \<Longrightarrow> inflight R (reclaim_workers R C Q wrs w) wid = inflight R w wid"
  by (induction wrs arbitrary: w) (simp_all add: marked_dead_def reclaim_worker_other)

end

lemma MarkWorkerDead_marks:
  assumes "pok w" and "text_in Q wid"
  shows "marked_dead wid (workers (db (snd (MarkWorkerDead Q wid w))))"
proof -
  have "db (snd (MarkWorkerDead Q wid w)) = update_workers (\<lambda>r. WkID r = wid) (\<lambda>r. r\<lparr>WkStatus := ''dead''\<rparr>) (db w)"
    using assms by (simp add: MarkWorkerDead_def pgcall_ok)
  then have "workers (db (snd (MarkWorkerDead Q wid w))) =
      map (\<lambda>r. if WkID r = wid then r\<lparr>WkStatus := ''dead''\<rparr> else r) (workers (db w))"
    by (simp add: update_workers_def)
  then show ?thesis unfolding marked_dead_def by (simp only: set_map image_iff) fastforce
qed

text \<open>
  C36. A sweep passes over every worker whose row says dead, under any faults of its calls: the
  envelopes in flight for such a worker stay in its hash. So what a worker still holds when it shuts down and
  marks itself dead, which is the last thing \<open>Worker.Run\<close> does, is not taken back by the sweep.
\<close>

theorem reclaimDead_skips_dead:
  assumes "task_queue R C" and "postgres Q"
  shows "(marked_dead wid (workers (db w)) \<longrightarrow> inflight R (reclaimDead R C Q w) wid = inflight R w wid) \<and>
    (pok w \<and> text_in Q wid \<longrightarrow>
       inflight R (reclaimDead R C Q (snd (MarkWorkerDead Q wid w))) wid = inflight R w wid)"
proof -
  have skip: "inflight R (reclaimDead R C Q w) wid = inflight R w wid" if "marked_dead wid (workers (db w))" for w
  proof -
    obtain res w1 where l: "ListWorkers Q w = (res, w1)" by fastforce
    show ?thesis
    proof (cases res)
      case (Inl e)
      then show ?thesis by (simp add: reclaimDead_def l ListWorkersD(1) [OF l])
    next
      case (Inr wrs)
      with l have "set wrs \<subseteq> set (workers (db w))" by (intro ListWorkers_rows [OF assms(2)]) simp
      with that have "marked_dead wid wrs" unfolding marked_dead_def by blast
      from task_queue.reclaim_workers_other [OF assms(1) this, of Q w1] Inr show ?thesis
        by (simp add: reclaimDead_def l ListWorkersD(1) [OF l])
    qed
  qed
  have "rds (snd (MarkWorkerDead Q wid w)) = rds w" by (simp add: MarkWorkerDead_def)
  with skip skip [of "snd (MarkWorkerDead Q wid w)"] MarkWorkerDead_marks [of w Q wid] show ?thesis by auto
qed

theorem reclaimDead_skips_dead_witness:
  "inflight ref_redis (reclaimDead ref_redis json_std std_pg (snd (MarkWorkerDead std_pg ''w1'' crashed_world))) ''w1'' =
     inflight ref_redis crashed_world ''w1''"
proof -
  have "text_in std_pg ''w1''" by code_simp
  with reclaimDead_skips_dead [OF std_queue spg.postgres_axioms, of "''w1''" crashed_world] crashed_facts
  show ?thesis by simp
qed

end
