(* ===== verification/Commands.thy ===== *)
theory Commands
  imports Recovery Handlers Hub
begin

section \<open>The commands (cmd/api, cmd/worker, cmd/scheduler)\<close>

text \<open>
  What the three servers do before they begin to serve: load the configuration, connect to
  PostgreSQL, apply the schema, build the Redis client and their component. The parsing of the two
  connection strings, done by \<open>pgxpool.New\<close> and \<open>redis.ParseURL\<close>, is given by the arguments
  \<open>pool\<close> and \<open>purl\<close>, which return an error or nothing. An \<open>Inl\<close> is the text of the
  \<open>log.Fatalf\<close> that ends the process.
\<close>

subsection \<open>Connecting\<close>

definition store_New :: "(string \<Rightarrow> err + unit) \<Rightarrow> string \<Rightarrow> 'r world \<Rightarrow> (err + unit) \<times> 'r world" where
  "store_New pool dsn w =
     (case pool dsn of
        Inl e \<Rightarrow> (Inl (wrap_err ''connect postgres: '' e), w)
      | Inr _ \<Rightarrow>
          (case Ping_pg w of
             (Inl e, w1) \<Rightarrow> (Inl (wrap_err ''ping postgres: '' e), w1)
           | (Inr _, w1) \<Rightarrow> (Inr (), w1)))"

text \<open>
  The schema creates what does not exist yet, so on the tables of the model, which it describes,
  it changes nothing.
\<close>

definition Migrate :: "'r world \<Rightarrow> (err + unit) \<times> 'r world" where
  "Migrate w =
     (case pgcall (\<lambda>T. (Inr (), T)) w of
        (Inl e, w1) \<Rightarrow> (Inl (wrap_err ''apply migrations: '' e), w1)
      | (Inr _, w1) \<Rightarrow> (Inr (), w1))"

definition queue_New :: "(string \<Rightarrow> err + unit) \<Rightarrow> string \<Rightarrow> err + unit" where
  "queue_New purl url =
     (case purl url of Inl e \<Rightarrow> Inl (wrap_err ''parse redis url: '' e) | Inr _ \<Rightarrow> Inr ())"

text \<open>The common beginning of the three programs.\<close>

definition connect ::
  "(string \<Rightarrow> err + unit) \<Rightarrow> (string \<Rightarrow> err + unit) \<Rightarrow> config \<Rightarrow> 'r world \<Rightarrow> (string + unit) \<times> 'r world" where
  "connect pool purl cfg w =
     (case store_New pool (DatabaseURL cfg) w of
        (Inl e, w1) \<Rightarrow> (Inl (''store: '' @ err_text e), w1)
      | (Inr _, w1) \<Rightarrow>
          (case Migrate w1 of
             (Inl e, w2) \<Rightarrow> (Inl (''migrate: '' @ err_text e), w2)
           | (Inr _, w2) \<Rightarrow>
               (case queue_New purl (RedisURL cfg) of
                  Inl e \<Rightarrow> (Inl (''queue: '' @ err_text e), w2)
                | Inr _ \<Rightarrow> (Inr (), w2))))"

subsection \<open>The programs\<close>

text \<open>The worker, up to its main loop: \<open>defaults\<close> is \<open>task.RegisterDefaults\<close>.\<close>

definition worker_main ::
  "'r redis \<Rightarrow> pg \<Rightarrow> (string \<Rightarrow> err + unit) \<Rightarrow> (string \<Rightarrow> err + unit) \<Rightarrow> env_vars \<Rightarrow> string \<Rightarrow> string \<Rightarrow>
   (registry \<Rightarrow> registry) \<Rightarrow> (string list \<Rightarrow> string list) \<Rightarrow> 'r world \<Rightarrow>
   (string + worker \<times> string list) \<times> 'r world" where
  "worker_main R Q pool purl ev u8 host defaults ranging w =
     (let cfg = Load ev
      in case connect pool purl cfg w of
           (Inl msg, w1) \<Rightarrow> (Inl msg, w1)
         | (Inr _, w1) \<Rightarrow>
             (let wk = NewWorker ev u8 host cfg (defaults NewRegistry)
              in case run_start R Q ranging wk w1 of
                   (Inl e, w2) \<Rightarrow> (Inl (''worker: '' @ err_text e), w2)
                 | (Inr types, w2) \<Rightarrow> (Inr (wk, types), w2)))"

text \<open>The scheduler with the events that wake its coordinator.\<close>

definition scheduler_main ::
  "'r redis \<Rightarrow> codec \<Rightarrow> pg \<Rightarrow> (string \<Rightarrow> err + unit) \<Rightarrow> (string \<Rightarrow> err + unit) \<Rightarrow> env_vars \<Rightarrow> nat \<Rightarrow>
   wake list \<Rightarrow> 'r world \<Rightarrow> ((string + run_result) \<times> 'r world) option" where
  "scheduler_main R C Q pool purl ev fuel evs w =
     (let cfg = Load ev
      in case connect pool purl cfg w of
           (Inl msg, w1) \<Rightarrow> Some (Inl msg, w1)
         | (Inr _, w1) \<Rightarrow>
             map_option (\<lambda>(res, w2). (Inr res, w2)) (Coordinator_Run R C Q (NewCoordinator cfg) fuel evs w1))"

text \<open>The API server: its hub, and the address and the line it logs when it begins to listen.\<close>

record server =
  SrvHub :: hub
  SrvAddr :: string
  SrvLog :: string

definition api_main ::
  "(string \<Rightarrow> err + unit) \<Rightarrow> (string \<Rightarrow> err + unit) \<Rightarrow> env_vars \<Rightarrow> 'r world \<Rightarrow> (string + server) \<times> 'r world" where
  "api_main pool purl ev w =
     (let cfg = Load ev
      in case connect pool purl cfg w of
           (Inl msg, w1) \<Rightarrow> (Inl msg, w1)
         | (Inr _, w1) \<Rightarrow>
             (Inr \<lparr>SrvHub = NewHub EventsChannel, SrvAddr = HTTPAddr cfg,
                SrvLog = ''api listening on '' @ HTTPAddr cfg @ '' ('' @ Config_String cfg @ '')''\<rparr>, w1))"

subsection \<open>Serving\<close>

text \<open>
  What happens to the API server after it was built: its hub may stop with an error, which is only logged, the
  listener may return, with \<open>http.ErrServerClosed\<close> or with another error, and a signal may end the
  context. The server shuts down at the signal; an error of the listener before it ends the process.
\<close>

datatype serve_event = HubStopped string | ServerClosed | ListenError string | Signaled

datatype serve_result = Serving | ShutDown | Fatal string

fun api_serve :: "serve_event list \<Rightarrow> serve_result \<times> string list" where
  "api_serve [] = (Serving, [])"
| "api_serve (HubStopped e # evs) = (case api_serve evs of (r, out) \<Rightarrow> (r, (''ws hub stopped: '' @ e) # out))"
| "api_serve (ServerClosed # evs) = api_serve evs"
| "api_serve (ListenError e # evs) = (Fatal (''listen: '' @ e), [''listen: '' @ e])"
| "api_serve (Signaled # evs) = (ShutDown, [''api shutting down...''])"

text \<open>The first signal or error of the listener decides.\<close>

lemma api_serve_result:
  "fst (api_serve evs) = (case dropWhile (\<lambda>ev. case ev of HubStopped _ \<Rightarrow> True | ServerClosed \<Rightarrow> True | _ \<Rightarrow> False) evs of
     [] \<Rightarrow> Serving | ListenError e # _ \<Rightarrow> Fatal (''listen: '' @ e) | _ \<Rightarrow> ShutDown)"
  by (induction evs rule: api_serve.induct) (simp_all add: case_prod_beta)

subsection \<open>Starting up changes nothing\<close>

lemma pass_frame: "pgcall (Pair (Inr ())) w = (a, w1) \<Longrightarrow> rds w1 = rds w \<and> db w1 = db w"
  using pgcall_readD [of "\<lambda>_. Inr ()" w a w1] pgcall_frameD [of "Pair (Inr ())" w a w1] by simp

lemma connect_frame:
  "rds (snd (connect pool purl cfg w)) = rds w \<and> db (snd (connect pool purl cfg w)) = db w"
  by (auto simp: connect_def store_New_def Migrate_def Ping_pg_def dest!: pass_frame
      split: prod.splits sum.splits)

text \<open>A worker that starts offers every default type when none are configured.\<close>

lemma worker_main_types:
  assumes "worker_main R Q pool purl (\<lambda>_. None) u8 host (RegisterDefaults conv limit e tf k) ranging w = (Inr (wk, types), w')"
    and "\<And>xs. set (ranging xs) = set xs"
  shows "set types = {''echo'', ''sleep'', ''flaky'', ''email''}"
proof -
  let ?reg = "RegisterDefaults conv limit e tf k NewRegistry"
  have cfg: "TaskTypes (Load (\<lambda>_. None)) = []" by (simp add: Load_def splitCSV_def)
  have "types = Types ranging ?reg"
    using assms(1) by (auto simp: worker_main_def run_start_def NewWorker_def cfg Let_def split: prod.splits sum.splits if_splits)
  moreover have "set (map fst (handlers ?reg)) = {''echo'', ''sleep'', ''flaky'', ''email''}"
    by (auto simp: RegisterDefaults_def Register_def NewRegistry_def)
  ultimately show ?thesis by (simp add: Types_def assms(2))
qed

end
