(* ===== verification/Spec2Isabelle.thy ===== *)
theory Spec2Isabelle
  imports Race Lifecycle Loadtest Commands
begin

text \<open>
  The repository is a task queue: clients create tasks over HTTP, workers lease them from Redis, run a
  handler and acknowledge them, and a coordinator promotes delayed retries and takes tasks back from dead
  workers. PostgreSQL keeps the durable row of every task; Redis keeps the envelopes that move.
  This development is a shallow embedding of the Go code under \<open>src/internal\<close> and \<open>src/cmd\<close> and of what
  it asks of its services.

  \<^bold>\<open>Parts and how they interact.\<close> The API server (\<open>internal/api\<close>) writes the row of a task
  (\<open>internal/store\<close>), then its envelope into the ready queue (\<open>internal/queue\<close>), then publishes an
  event, which the WebSocket hub (\<open>internal/ws\<close>) fans out to browsers. A worker (\<open>Worker\<close> of
  \<open>internal/scheduler\<close>) leases the most urgent envelope into its in-flight hash, runs the handler of its
  type (\<open>internal/task\<close>) and acknowledges, delays (\<open>BackoffDelay\<close>) or buries it. The coordinator
  (\<open>Coordinator\<close> of \<open>internal/scheduler\<close>) promotes what is due and requeues what a worker without a
  heartbeat holds. All of them are configured by \<open>internal/config\<close>.

  \<^bold>\<open>Theories.\<close> A definition has the name of the Go function, type or field it models; a
  loop of a function is a recursive definition beside it.
  \<^item> \<open>Prelude\<close>: 64-bit wrap-around, rounding of integers to \<open>float64\<close>, errors, network outcomes,
    association lists. \<open>Decimal\<close>: decimal digits. \<open>Float64\<close>: floats as the rationals they stand
    for, and rounding to them.
  \<^item> \<open>Task\<close> (\<open>task.go\<close>): statuses, tasks, events, the handler registry.
  \<^item> \<open>Redis\<close>: the commands the queue uses, as the locale \<open>redis_server\<close> with their documented laws
    over a keyspace; an executable server \<open>ref_redis\<close> interprets it.
  \<^item> \<open>World\<close>: what the processes share: the Redis server, the tables, the clock, and for every coming
    round trip its latency and whether its request or its reply is lost.
  \<^item> \<open>Envelope\<close>, \<open>Json\<close>: the codec of envelopes as the locale \<open>envelope_codec\<close>, and its
    interpretation by a model of \<open>encoding/json\<close> on the level of bytes. \<open>Json_Object\<close>: the objects
    it writes are well-formed. \<open>Number\<close>: floating point numbers as text, read and printed the way
    \<open>strconv\<close> does it, with the shortest digits.
  \<^item> \<open>Queue\<close> (\<open>queue.go\<close>): every operation as its round trips. \<open>Queue_Spec\<close>: what they do;
    \<open>Refinement\<close>: they implement an abstract at-least-once queue. \<open>Drain\<close>: consecutive leases, and
    the order in which they hand out envelopes.
  \<^item> \<open>Store\<close> (\<open>store.go\<close>, \<open>migrations/0001_init.sql\<close>): every SQL statement as a function
    on the tables, every operation as its round trips, transactions included. \<open>Lifecycle\<close>: the state
    machine of a row, and what holds of the rows and the history in every sequence of operations.
  \<^item> \<open>Backoff\<close>, \<open>Worker\<close>, \<open>Coordinator\<close> (\<open>scheduler.go\<close>): retry delays with float
    arithmetic; \<open>execute\<close> on every branch and \<open>Run\<close> with its semaphore as a step relation; the
    sweep. \<open>Horizon\<close> bounds the clock of a sweep by the latencies to come. \<open>Recovery\<close>: \<open>Run\<close> of the
    coordinator, and the workers a sweep passes over.
  \<^item> \<open>Duration\<close>: \<open>time.ParseDuration\<close> and \<open>Duration.String\<close>, and that one inverts the other.
    \<open>Config\<close> (\<open>config.go\<close>): loading and printing the configuration.
  \<^item> \<open>Api\<close> (\<open>api.go\<close>), \<open>Hub\<close> (\<open>hub.go\<close>), \<open>Handlers\<close> (\<open>handlers.go\<close>).
  \<^item> \<open>Commands\<close> (\<open>cmd/api\<close>, \<open>cmd/worker\<close>, \<open>cmd/scheduler\<close>): how the programs connect and start
    their components, and how the server ends. \<open>Loadtest\<close> (\<open>cmd/loadtest\<close>): the load test as a client of the API.
  \<^item> \<open>System\<close>: the API, any number of workers that may crash before, during and after a handler, and
    the coordinator, interleaved over one world.
  \<^item> \<open>Failures\<close>: a crashed worker's task reaches another worker, and the windows in which a stopped
    process or a lost call loses one; \<open>Race\<close>: the window between the two calls of \<open>ReclaimInflight\<close>.

  \<^bold>\<open>Interfaces.\<close> \<open>redis_server\<close>, \<open>envelope_codec\<close>, \<open>postgres\<close> and their combination
  \<open>task_queue\<close> state what the code relies on; each is interpreted on an executable instance, with which the
  witnesses evaluate the theorems. Lemmas proved inside them hold for every server and codec with these laws.
  \<open>text_form\<close> is the contract of a printer and its parser; decimal integers, durations and floating-point
  numbers, as \<open>%v\<close> and JSON write them, are its instances.

  \<^bold>\<open>What is shown.\<close> Leases take the most urgent envelope and lose none under any network fault, and a queue
  is drained in the order of urgency;
  every queue operation refines an abstract one and keeps the Redis structures consistent; every store operation
  keeps the tables well-formed and well-typed and their history complete, the dead-letter transaction is atomic; a created task is durable
  before it is acknowledged; execution acknowledges, retries with bounded attempts and delays, or buries;
  the sweep loses nothing, spares live workers and promotes everything due; the hub never panics and
  delivers in order; a configuration is loaded as it was written; the demo handlers and the server read
  what the load test sends; and for the whole system a task that was accepted is never lost while Redis
  delivers its calls and no process stops between removing an envelope and storing it again. What the code
  does not promise is shown too: a sweep passes over the envelopes of a worker that marked itself dead
  (\<open>reclaimDead_skips_dead\<close>); a task is lost when the call after the removal of its envelope fails
  (\<open>retry_window_loses\<close>, \<open>reclaim_env_loses\<close>) or when it is leased in the middle of a reclaim
  (\<open>reclaim_race_loses\<close>); the statistics hide a broken connection (\<open>GetStats_hides_late_errors\<close>), and the
  load test takes an error of the statistics for the end of all work (\<open>drain_stops_on_error\<close>).

  \<^bold>\<open>Bounds and fuel.\<close> Two loops take fuel. \<open>scan_loop\<close> is the cursor loop of \<open>ListTypes\<close>,
  \<open>promoteDelayed\<close> and \<open>getStats\<close>; a server may hand out cursors for ever, and \<open>ListTypes_terminates\<close>
  shows that for a server with the law of \<open>SCAN\<close> enough fuel exists and the result does not depend on it.
  \<open>drain\<close> is the waiting loop of the load test; \<open>drain_ends\<close> shows that two more rounds than the
  seconds until the deadline are enough. \<open>parse_parts\<close> and \<open>shortest\<close> are total by their measures, and
  the other loops are structural recursions over the lists the code ranges over.
  Integers are wrapped to 64 bits where the code computes with them; scores, delays and numbers in JSON are
  rounded as \<open>float64\<close>. What the conversion of a float outside the range of \<open>int64\<close> gives is an argument.

  \<^bold>\<open>Not modelled.\<close> \<open>Close\<close>, \<open>Client\<close> and \<open>Pool\<close>, which only pass on to a driver, the closing of
  connections at exit, deadlines of WebSocket connections, most log output, and the TypeScript dashboard. The
  chi router's pattern matching, the parsing of connection strings and the HTTP client of the load test are arguments;
  signals and the end of the HTTP listener are events. Texts of requests and configurations are valid UTF-8.
\<close>

section \<open>Properties of the whole system\<close>



end
